(* ===== verification/Cne_Prelude.thy ===== *)
theory Cne_Prelude
  imports Main "HOL-Library.Word"
begin

text \<open>
  Shared vocabulary of the development: the machine integer types of the C++ code, the
  \<^verbatim>\<open>std::string\<close> and C-library routines the engine calls (\<^verbatim>\<open>find\<close>, \<^verbatim>\<open>compare\<close>,
  \<^verbatim>\<open>isspace\<close>, \<^verbatim>\<open>tolower\<close>, \<^verbatim>\<open>atoi\<close>, \<^verbatim>\<open>std::to_string\<close>), and the generic lemmas on lists,
  words and strings that the component theories use through the collections
  \<open>cne_word\<close>, \<open>cne_str\<close> and \<open>cne_list\<close>.
\<close>

named_theorems cne_word \<open>machine-word facts\<close>
named_theorems cne_str \<open>string routine facts\<close>
named_theorems cne_list \<open>list facts\<close>

section \<open>Machine integers\<close>

type_synonym u8 = "8 word"
type_synonym u32 = "32 word"
type_synonym u64 = "64 word"

text \<open>\<^verbatim>\<open>(int) x\<close> of an integer value: two's complement truncation to 32 bits.\<close>

definition to_i32 :: "int \<Rightarrow> int" where
  "to_i32 x = sint (word_of_int x :: 32 word)"

section \<open>Characters and strings\<close>

text \<open>\<^verbatim>\<open>std::isspace\<close> and \<^verbatim>\<open>std::tolower\<close> in the C locale.\<close>

definition is_space :: "char \<Rightarrow> bool" where
  "is_space c = (let n = (of_char c :: nat) in n = 32 \<or> (9 \<le> n \<and> n \<le> 13))"

definition to_lower :: "char \<Rightarrow> char" where
  "to_lower c = (let n = (of_char c :: nat) in if 65 \<le> n \<and> n \<le> 90 then char_of (n + 32) else c)"

definition is_digit :: "char \<Rightarrow> bool" where
  "is_digit c = (let n = (of_char c :: nat) in 48 \<le> n \<and> n \<le> 57)"

definition digit_val :: "char \<Rightarrow> nat" where
  "digit_val c = (of_char c :: nat) - 48"

text \<open>\<^verbatim>\<open>s.compare(0, n, p) == 0\<close> with \<^verbatim>\<open>n = strlen(p)\<close>: \<open>p\<close> is a prefix of \<open>s\<close>.\<close>

definition starts_with :: "string \<Rightarrow> string \<Rightarrow> bool" where
  "starts_with s p = (take (length p) s = p)"

text \<open>\<^verbatim>\<open>std::string::find\<close>: the least position at which the pattern occurs.\<close>

fun find_sub :: "string \<Rightarrow> string \<Rightarrow> nat option" where
  "find_sub p [] = (if p = [] then Some 0 else None)"
| "find_sub p (c # s) =
     (if starts_with (c # s) p then Some 0 else map_option Suc (find_sub p s))"

definition str_find :: "string \<Rightarrow> string \<Rightarrow> nat \<Rightarrow> nat option" where
  "str_find s p pos =
     (if pos \<le> length s then map_option (\<lambda>i. pos + i) (find_sub p (drop pos s)) else None)"

definition str_contains :: "string \<Rightarrow> string \<Rightarrow> bool" where
  "str_contains s p = (find_sub p s \<noteq> None)"

text \<open>\<^verbatim>\<open>std::string::find_first_of\<close>: the least position of a character of a set.\<close>

fun find_char :: "(char \<Rightarrow> bool) \<Rightarrow> string \<Rightarrow> nat option" where
  "find_char P [] = None"
| "find_char P (c # s) = (if P c then Some 0 else map_option Suc (find_char P s))"

text \<open>\<^verbatim>\<open>std::to_string\<close>, on a non-negative integer and on an \<^verbatim>\<open>int\<close>.\<close>

fun dec :: "nat \<Rightarrow> string" where
  "dec n = (if n < 10 then [char_of (48 + n)] else dec (n div 10) @ [char_of (48 + n mod 10)])"

declare dec.simps [simp del]

definition to_string :: "int \<Rightarrow> string" where
  "to_string i = (if i < 0 then ''-'' @ dec (nat (- i)) else dec (nat i))"

text \<open>
  \<^verbatim>\<open>atoi\<close>: optional white space, an optional sign and the longest run of digits. glibc
  computes it as \<^verbatim>\<open>(int) strtol(s, NULL, 10)\<close>, so the value saturates at the 64-bit range and is
  then truncated to 32 bits.
\<close>

fun digits_val :: "nat \<Rightarrow> string \<Rightarrow> nat" where
  "digits_val acc [] = acc"
| "digits_val acc (c # s) = (if is_digit c then digits_val (10 * acc + digit_val c) s else acc)"

definition strtol :: "string \<Rightarrow> int" where
  "strtol s =
     (let t = dropWhile is_space s;
          clamp = (\<lambda>x::int. max (- (2 ^ 63)) (min (2 ^ 63 - 1) x))
      in case t of
           [] \<Rightarrow> 0
         | c # r \<Rightarrow>
             if c = CHR ''-'' then clamp (- int (digits_val 0 r))
             else if c = CHR ''+'' then clamp (int (digits_val 0 r))
             else clamp (int (digits_val 0 t)))"

definition atoi :: "string \<Rightarrow> int" where
  "atoi s = to_i32 (strtol s)"

section \<open>Word lemmas\<close>

lemma unat_add_nowrap [cne_word]:
  "unat (a::u64) + unat b < 2 ^ 64 \<Longrightarrow> unat (a + b) = unat a + unat b"
  by (simp add: unat_word_ariths)

lemma unat_sub_le [cne_word]: "(b::u64) \<le> a \<Longrightarrow> unat (a - b) = unat a - unat b"
  by (simp add: unat_sub)

lemma unat_lt64 [simp]: "unat (a::u64) < 18446744073709551616"
  using unsigned_less [of a] by simp

lemma to_i32_id [cne_word, simp]: "- 2147483648 \<le> x \<Longrightarrow> x < 2147483648 \<Longrightarrow> to_i32 x = x"
  unfolding to_i32_def sint_sbintrunc' by (rule signed_take_bit_int_eq_self) simp_all

lemma to_i32_range: "- 2147483648 \<le> to_i32 x \<and> to_i32 x < 2147483648"
  using sint_range_size [of "word_of_int x :: 32 word"] by (simp add: to_i32_def word_size)

section \<open>String lemmas\<close>

lemma starts_with_append [cne_str, simp]: "starts_with (p @ s) p"
  by (simp add: starts_with_def)

lemma starts_with_iff: "starts_with s p \<longleftrightarrow> (\<exists>r. s = p @ r)"
  by (metis append_eq_conv_conj append_take_drop_id starts_with_def)

lemma find_sub_append:
  "(\<And>i. i < length a \<Longrightarrow> \<not> starts_with (drop i (a @ p @ s)) p) \<Longrightarrow> find_sub p (a @ p @ s) = Some (length a)"
proof (induction a)
  case Nil
  have "starts_with (p @ s) p" by simp
  then show ?case
    by (cases "p @ s") (auto simp: starts_with_def)
next
  case (Cons c a)
  have "\<not> starts_with (c # a @ p @ s) p"
    using Cons.prems [of 0] by simp
  moreover have "find_sub p (a @ p @ s) = Some (length a)"
  proof (rule Cons.IH)
    fix i assume "i < length a"
    then show "\<not> starts_with (drop i (a @ p @ s)) p"
      using Cons.prems [of "Suc i"] by simp
  qed
  ultimately show ?case by simp
qed

lemma find_sub_Some:
  "find_sub p s = Some i \<Longrightarrow> i + length p \<le> length s \<and> starts_with (drop i s) p"
proof (induction s arbitrary: i)
  case Nil
  then show ?case by (auto simp: starts_with_def split: if_splits)
next
  case (Cons c s)
  show ?case
  proof (cases "starts_with (c # s) p")
    case True
    with Cons.prems show ?thesis by (auto simp: starts_with_iff dest: arg_cong [of _ _ length])
  next
    case False
    with Cons.prems Cons.IH show ?thesis by auto
  qed
qed

lemma find_sub_None:
  "find_sub p s = None \<longleftrightarrow> (\<forall>i \<le> length s. \<not> starts_with (drop i s) p)"
proof (induction s)
  case Nil
  then show ?case by (auto simp: starts_with_def)
next
  case (Cons c s)
  then show ?case
    by (auto simp: All_less_Suc2 less_Suc_eq_le [symmetric])
qed

section \<open>Decimal numerals\<close>

lemma is_digit_dec: "list_all is_digit (dec n)"
proof (induction n rule: dec.induct)
  case (1 n)
  have "is_digit (char_of (48 + m :: nat))" if "m < 10" for m
    using that by (simp add: is_digit_def)
  with 1 show ?case by (simp add: dec.simps [of n])
qed

lemma dec_nonempty [simp]: "dec n \<noteq> []"
  by (simp add: dec.simps [of n])

lemma digits_val_append:
  "list_all is_digit xs \<Longrightarrow> digits_val acc (xs @ ys) = digits_val (digits_val acc xs) ys"
  by (induction xs arbitrary: acc) auto

lemma digits_val_dec: "digits_val 0 (dec n) = n"
proof (induction n rule: dec.induct)
  case (1 n)
  have d: "is_digit (char_of (48 + m :: nat))" "digit_val (char_of (48 + m :: nat)) = m" if "m < 10" for m
    using that by (simp_all add: is_digit_def digit_val_def)
  show ?case
  proof (cases "n < 10")
    case True
    with d [of n] show ?thesis by (simp add: dec.simps [of n])
  next
    case False
    with 1 d [of "n mod 10"] show ?thesis
      by (simp add: dec.simps [of n] digits_val_append [OF is_digit_dec])
  qed
qed

end
