(* ===== verification/Config.thy ===== *)
theory Config
  imports Cne_Prelude
begin

text \<open>
  \<^verbatim>\<open>core/src/config.cpp\<close>: the knob lookup \<^verbatim>\<open>cne::env\<close>. The process environment is the argument
  \<open>getenv\<close>; the function-local static map is the argument \<open>resolved\<close>, returned updated. A null
  pointer result is \<open>None\<close>.
\<close>

section \<open>Definitions\<close>

type_synonym environ = "string \<Rightarrow> string option"
type_synonym resolved = "string \<rightharpoonup> string"

definition env :: "environ \<Rightarrow> resolved \<Rightarrow> string \<Rightarrow> string option \<times> resolved" where
  "env getenv resolved name =
     (let key = ''CNE_'' @ name in
      case resolved key of
        Some v \<Rightarrow> (if v = [] then None else Some v, resolved)
      | None \<Rightarrow>
          (let (v, key) = (case getenv key of
                             Some v \<Rightarrow> (Some v, key)
                           | None \<Rightarrow> (let legacy = ''SOE_'' @ name in (getenv legacy, legacy)))
           in case v of
                None \<Rightarrow> (None, resolved)
              | Some v \<Rightarrow> (Some v, resolved(key \<mapsto> v))))"

text \<open>Every value the cache holds is the environment's value of its key.\<close>

definition resolved_ok :: "environ \<Rightarrow> resolved \<Rightarrow> bool" where
  "resolved_ok getenv resolved \<longleftrightarrow> (\<forall>k v. resolved k = Some v \<longrightarrow> getenv k = Some v)"

section \<open>Lemmas\<close>

lemma resolved_ok_empty [simp]: "resolved_ok getenv Map.empty"
  by (simp add: resolved_ok_def)

lemma resolved_ok_env: "resolved_ok getenv r \<Longrightarrow> resolved_ok getenv (snd (env getenv r name))"
  by (auto simp: env_def resolved_ok_def Let_def split: option.splits prod.splits if_splits)

lemma env_fst:
  assumes "resolved_ok getenv r" "getenv (''CNE_'' @ name) \<noteq> Some []"
  shows "fst (env getenv r name) =
    (case getenv (''CNE_'' @ name) of Some v \<Rightarrow> Some v | None \<Rightarrow> getenv (''SOE_'' @ name))"
proof (cases "r (''CNE_'' @ name)")
  case None
  then show ?thesis by (auto simp: env_def Let_def split: option.splits)
next
  case (Some v)
  with assms have "getenv (''CNE_'' @ name) = Some v" by (auto simp: resolved_ok_def)
  with assms Some show ?thesis by (auto simp: env_def)
qed

section \<open>Properties\<close>

text \<open>
  Knob precedence: whenever the \<^verbatim>\<open>CNE_\<close> spelling is not set to the empty string,
  every lookup in any run of lookups returns the \<^verbatim>\<open>CNE_\<close> value when it is set and the legacy \<^verbatim>\<open>SOE_\<close>
  value otherwise, and keeps the cache consistent with the environment, so the answer never
  depends on the lookups made before.
\<close>

theorem env_precedence:
  assumes "resolved_ok getenv r" "getenv (''CNE_'' @ name) \<noteq> Some []"
  shows "fst (env getenv r name) =
      (case getenv (''CNE_'' @ name) of Some v \<Rightarrow> Some v | None \<Rightarrow> getenv (''SOE_'' @ name))
    \<and> resolved_ok getenv (snd (env getenv r name))"
  using env_fst [OF assms] resolved_ok_env [OF assms(1)] by simp

theorem env_precedence_witness:
  "fst (env (\<lambda>k. if k = ''SOE_CTX'' then Some ''512'' else None) Map.empty ''CTX'') = Some ''512''"
  using env_precedence [of "\<lambda>k. if k = ''SOE_CTX'' then Some ''512'' else None" Map.empty "''CTX''"]
  by simp

text \<open>
  The empty-string defect: a \<^verbatim>\<open>CNE_\<close> knob set to the empty string is
  reported as set by its first lookup and as unset by the second, since only the cached path maps
  the empty value to a null pointer.
\<close>

theorem env_empty_unstable:
  assumes "getenv (''CNE_'' @ name) = Some []" "r (''CNE_'' @ name) = None"
  shows "fst (env getenv r name) = Some []
    \<and> fst (env getenv (snd (env getenv r name)) name) = None"
  using assms by (simp add: env_def)

theorem env_empty_unstable_witness:
  "fst (env (\<lambda>_. Some []) (snd (env (\<lambda>_. Some []) Map.empty ''API_MODE'')) ''API_MODE'') = None"
  using env_empty_unstable [of "\<lambda>_. Some []" "''API_MODE''" Map.empty] by simp

end
