(* ===== verification/Binary64.thy ===== *)
theory Binary64
  imports Cne_Prelude Complex_Main
begin

text \<open>
  The part of IEEE-754 \<^verbatim>\<open>double\<close> arithmetic that the budget code uses: non-negative values of
  the normal range, represented by the rational they denote. \<open>rd\<close> is rounding to nearest,
  ties to even, on a 53-bit significand; an arithmetic operation is the exact rational
  operation followed by \<open>rd\<close>, and a conversion from a 64-bit integer is \<open>rd\<close> of its value.
  Subnormals, infinities and NaN do not occur: every operand is zero, a 64-bit integer, or a
  product or quotient of such with a constant.
\<close>

section \<open>Rounding\<close>

text \<open>Round half to even on the integers.\<close>

definition rne :: "rat \<Rightarrow> int" where
  "rne y = (let f = \<lfloor>y\<rfloor>; d = y - of_int f in
     if d < 1 / 2 then f else if d > 1 / 2 then f + 1 else if even f then f else f + 1)"

function flog2n :: "int \<Rightarrow> int" where
  "flog2n n = (if n < 2 then 0 else 1 + flog2n (n div 2))"
  by pat_completeness auto
termination
  by (relation "measure nat") auto

declare flog2n.simps [simp del]

definition pow2 :: "int \<Rightarrow> rat" where
  "pow2 e = (if 0 \<le> e then 2 ^ nat e else 1 / 2 ^ nat (- e))"

text \<open>The exponent of a positive rational: \<open>pow2 e \<le> x < pow2 (e + 1)\<close>.\<close>

definition flog2 :: "rat \<Rightarrow> int" where
  "flog2 x = (let (a, b) = quotient_of x; k = flog2n a - flog2n b
     in if pow2 k \<le> x then k else k - 1)"

definition rd :: "rat \<Rightarrow> rat" where
  "rd x = (if x \<le> 0 then 0
     else let u = pow2 (flog2 x - 52) in u * of_int (rne (x / u)))"

definition double_of_u64 :: "u64 \<Rightarrow> rat" where
  "double_of_u64 w = rd (of_int (uint w))"

text \<open>\<^verbatim>\<open>(uint64_t) d\<close>: truncation. Values of \<open>2^64\<close> and above are undefined behaviour in C++; the
  users of this function show that their operands stay below.\<close>

definition u64_of_double :: "rat \<Rightarrow> u64" where
  "u64_of_double x = word_of_int \<lfloor>x\<rfloor>"

definition representable :: "rat \<Rightarrow> bool" where
  "representable x \<longleftrightarrow> (\<exists>m e. 0 \<le> m \<and> m < 2 ^ 53 \<and> x = of_int m * pow2 e)"

section \<open>Lemmas\<close>

lemma pow2_pos [simp]: "0 < pow2 e"
  by (simp add: pow2_def)

lemma pow2_nonneg [simp]: "0 \<le> pow2 e"
  by (rule less_imp_le) simp

lemma pow2_neq0 [simp]: "pow2 e \<noteq> 0"
  by (simp add: pow2_def)

lemma pow2_eq_powi: "pow2 e = 2 powi e"
  by (simp add: pow2_def power_int_def field_simps)

lemma pow2_add: "pow2 (a + b) = pow2 a * pow2 b"
  by (simp add: pow2_eq_powi power_int_add)

lemma pow2_diff: "pow2 (a - b) = pow2 a / pow2 b"
  by (simp add: pow2_eq_powi power_int_diff)

lemma pow2_mono: "a \<le> b \<Longrightarrow> pow2 a \<le> pow2 b"
  by (simp add: pow2_eq_powi power_int_increasing)

lemma pow2_less_iff [simp]: "pow2 a < pow2 b \<longleftrightarrow> a < b"
proof
  assume "a < b"
  then show "pow2 a < pow2 b" by (simp add: pow2_eq_powi power_int_strict_increasing)
next
  assume "pow2 a < pow2 b"
  then show "a < b" using pow2_mono [of b a] by linarith
qed

lemma pow2_nat: "pow2 (int n) = 2 ^ n"
  by (simp add: pow2_def)

lemma rne_of_int [simp]: "rne (of_int n) = n"
  by (simp add: rne_def)

lemma rne_bounds: "\<lfloor>y\<rfloor> \<le> rne y \<and> rne y \<le> \<lfloor>y\<rfloor> + 1"
  by (auto simp: rne_def Let_def)

lemma rne_mono: "y \<le> z \<Longrightarrow> rne y \<le> rne z"
proof -
  assume le: "y \<le> z"
  then have fl: "\<lfloor>y\<rfloor> \<le> \<lfloor>z\<rfloor>" by (rule floor_mono)
  show ?thesis
  proof (cases "\<lfloor>y\<rfloor> = \<lfloor>z\<rfloor>")
    case True
    with le show ?thesis by (auto simp: rne_def Let_def)
  next
    case False
    with fl have "\<lfloor>y\<rfloor> + 1 \<le> \<lfloor>z\<rfloor>" by simp
    with rne_bounds [of y] rne_bounds [of z] show ?thesis by linarith
  qed
qed

lemma rne_between: "of_int a \<le> y \<Longrightarrow> y \<le> of_int b \<Longrightarrow> a \<le> rne y \<and> rne y \<le> b"
  using rne_mono [of "of_int a" y] rne_mono [of y "of_int b"] by simp

lemma flog2n_nonneg: "0 \<le> flog2n n"
  by (induction n rule: flog2n.induct) (subst flog2n.simps, simp)

lemma flog2n_bounds: "0 < n \<Longrightarrow> pow2 (flog2n n) \<le> of_int n \<and> of_int n < pow2 (flog2n n + 1)"
proof (induction n rule: flog2n.induct)
  case (1 n)
  show ?case
  proof (cases "n < 2")
    case True
    with "1.prems" have n: "n = 1" by simp
    have "flog2n 1 = 0" by (subst flog2n.simps) simp
    with n show ?thesis by (simp add: pow2_def)
  next
    case False
    then have IH: "pow2 (flog2n (n div 2)) \<le> of_int (n div 2)"
      "of_int (n div 2) < pow2 (flog2n (n div 2) + 1)"
      using "1.IH" by auto
    have e: "flog2n n = 1 + flog2n (n div 2)"
      using False by (simp add: flog2n.simps [of n])
    have p1: "pow2 (flog2n n) = 2 * pow2 (flog2n (n div 2))"
      by (simp add: e pow2_add) (simp add: pow2_def)
    have p2: "pow2 (flog2n n + 1) = 2 * pow2 (flog2n (n div 2) + 1)"
      by (simp add: e pow2_add) (simp add: pow2_def)
    have "2 * (n div 2) \<le> n" by simp
    then have lo: "2 * of_int (n div 2) \<le> (of_int n :: rat)"
      by (metis of_int_le_iff of_int_mult of_int_numeral)
    obtain k where k: "flog2n (n div 2) + 1 = int k"
      using flog2n_nonneg [of "n div 2"] by (metis add_nonneg_nonneg zero_le_one nonneg_int_cases)
    have "n div 2 < 2 ^ k"
      using IH(2) unfolding k pow2_nat by (metis of_int_less_iff of_int_numeral of_int_power)
    then have "n < 2 * 2 ^ k" by linarith
    then have "(of_int n :: rat) < of_int (2 * 2 ^ k)"
      by (simp only: of_int_less_iff)
    then have hi: "of_int n < 2 * pow2 (flog2n (n div 2) + 1)"
      unfolding k pow2_nat by simp
    show ?thesis using IH(1) lo hi p1 p2 by linarith
  qed
qed

lemma flog2_bounds:
  assumes "0 < x"
  shows "pow2 (flog2 x) \<le> x \<and> x < pow2 (flog2 x + 1)"
proof -
  obtain a b where q: "quotient_of x = (a, b)" by (metis surj_pair)
  have b: "0 < b" using quotient_of_denom_pos [OF q] .
  have x: "x = of_int a / of_int b" using quotient_of_div [OF q] .
  have a: "0 < a" using assms b by (simp add: x zero_less_divide_iff)
  define i where "i = flog2n a"
  define j where "j = flog2n b"
  have A: "pow2 i \<le> of_int a" "of_int a < pow2 (i + 1)"
    using flog2n_bounds [of a] a by (auto simp: i_def)
  have B: "pow2 j \<le> of_int b" "of_int b < pow2 (j + 1)"
    using flog2n_bounds [of b] b by (auto simp: j_def)
  have hi: "x < pow2 (i - j + 1)"
  proof -
    have "x \<le> of_int a / pow2 j"
      unfolding x using a b B(1) by (intro divide_left_mono) (auto simp: mult_pos_pos)
    also have "\<dots> < pow2 (i + 1) / pow2 j"
      using A(2) by (simp add: divide_strict_right_mono)
    also have "\<dots> = pow2 (i - j + 1)"
      by (simp add: pow2_diff [symmetric] algebra_simps)
    finally show ?thesis .
  qed
  have lo: "pow2 (i - j - 1) \<le> x"
  proof -
    have "pow2 (i - j - 1) = pow2 i / pow2 (j + 1)"
      by (simp add: pow2_diff [symmetric] algebra_simps)
    also have "\<dots> \<le> pow2 i / of_int b"
      using b B(2) by (intro divide_left_mono) (auto simp: mult_pos_pos)
    also have "\<dots> \<le> x"
      unfolding x using A(1) b by (simp add: divide_right_mono)
    finally show ?thesis .
  qed
  have f: "flog2 x = (if pow2 (i - j) \<le> x then i - j else i - j - 1)"
    by (simp add: flog2_def q i_def j_def)
  show ?thesis using hi lo by (auto simp: f)
qed

lemma flog2_mono:
  assumes "0 < x" "x \<le> y"
  shows "flog2 x \<le> flog2 y"
proof -
  have "pow2 (flog2 x) < pow2 (flog2 y + 1)"
    using flog2_bounds [of x] flog2_bounds [of y] assms by linarith
  then show ?thesis by simp
qed

lemma rd_bounds:
  assumes "0 < x"
  shows "pow2 (flog2 x) \<le> rd x \<and> rd x \<le> pow2 (flog2 x + 1)"
proof -
  define e where "e = flog2 x"
  define u where "u = pow2 (e - 52)"
  have u: "0 < u" by (simp add: u_def)
  have p: "pow2 e = u * 2 ^ 52" "pow2 (e + 1) = u * 2 ^ 53"
    unfolding u_def by (simp_all add: pow2_diff pow2_add) (simp_all add: pow2_def)
  have "of_int (2 ^ 52) \<le> x / u" "x / u \<le> of_int (2 ^ 53)"
    using flog2_bounds [OF assms] u p by (simp_all add: e_def [symmetric] field_simps)
  then have r: "2 ^ 52 \<le> rne (x / u)" "rne (x / u) \<le> 2 ^ 53"
    using rne_between by blast+
  have "(2::rat) ^ 52 \<le> of_int (rne (x / u))" "of_int (rne (x / u)) \<le> (2::rat) ^ 53"
    using r by (metis of_int_le_iff of_int_numeral of_int_power)+
  then have "u * 2 ^ 52 \<le> u * of_int (rne (x / u))" "u * of_int (rne (x / u)) \<le> u * 2 ^ 53"
    using u by simp_all
  then show ?thesis
    using assms p by (simp add: rd_def Let_def u_def e_def)
qed

lemma rd_nonneg: "0 \<le> rd x"
proof (cases "0 < x")
  case True
  then show ?thesis using rd_bounds [of x] pow2_pos [of "flog2 x"] by linarith
qed (simp add: rd_def)

lemma rd_mono:
  assumes "x \<le> y"
  shows "rd x \<le> rd y"
proof (cases "0 < x")
  case False
  then show ?thesis by (simp add: rd_def [of x] rd_nonneg)
next
  case True
  with assms have y: "0 < y" by simp
  show ?thesis
  proof (cases "flog2 x = flog2 y")
    case True
    define u where "u = pow2 (flog2 y - 52)"
    have "rne (x / u) \<le> rne (y / u)"
      using assms by (intro rne_mono divide_right_mono) (simp_all add: u_def)
    then show ?thesis
      using \<open>0 < x\<close> y True by (simp add: rd_def Let_def u_def)
  next
    case False
    then have "flog2 x + 1 \<le> flog2 y" using flog2_mono [OF \<open>0 < x\<close> assms] by simp
    then have "pow2 (flog2 x + 1) \<le> pow2 (flog2 y)" by (rule pow2_mono)
    with rd_bounds [OF \<open>0 < x\<close>] rd_bounds [OF y] show ?thesis by linarith
  qed
qed

lemma rd_representable:
  assumes "representable x"
  shows "rd x = x"
proof (cases "0 < x")
  case False
  with assms have "x = 0"
    unfolding representable_def by (metis antisym_conv1 mult_nonneg_nonneg of_int_0_le_iff pow2_nonneg)
  then show ?thesis by (simp add: rd_def)
next
  case True
  obtain m q where m: "0 \<le> m" "m < 2 ^ 53" and x: "x = of_int m * pow2 q"
    using assms by (auto simp: representable_def)
  define e where "e = flog2 x"
  have "of_int m < (2::rat) ^ 53" using m by (metis of_int_less_iff of_int_numeral of_int_power)
  then have "x < 2 ^ 53 * pow2 q" unfolding x by simp
  also have "\<dots> = pow2 (53 + q)" by (simp add: pow2_add) (simp add: pow2_def)
  finally have "pow2 e < pow2 (53 + q)" using flog2_bounds [OF True] by (simp only: e_def) linarith
  then have "0 \<le> q - (e - 52)" by simp
  then obtain n where n: "q - (e - 52) = int n" by (metis nonneg_int_cases)
  have "x / pow2 (e - 52) = of_int m * 2 ^ n"
    unfolding x pow2_nat [symmetric] n [symmetric] by (simp add: pow2_diff pow2_add field_simps)
  also have "\<dots> = of_int (m * 2 ^ n)" by simp
  finally have k: "x / pow2 (e - 52) = of_int (m * 2 ^ n)" .
  have "rd x = pow2 (e - 52) * of_int (rne (x / pow2 (e - 52)))"
    using True by (simp add: rd_def Let_def e_def)
  also have "\<dots> = pow2 (e - 52) * (x / pow2 (e - 52))" by (simp only: k rne_of_int)
  also have "\<dots> = x" by simp
  finally show ?thesis .
qed

lemma representable_nat: "n < 2 ^ 53 \<Longrightarrow> representable (of_nat n)"
  unfolding representable_def
  by (rule exI [of _ "int n"], rule exI [of _ 0]) (auto simp: pow2_def)

lemma representableI: "m < 2 ^ 53 \<Longrightarrow> x = of_nat m / 2 ^ k \<Longrightarrow> representable x"
  unfolding representable_def
  by (rule exI [of _ "int m"], rule exI [of _ "- int k"]) (auto simp: pow2_def)

lemma double_of_u64_exact: "unat w < 2 ^ 53 \<Longrightarrow> double_of_u64 w = of_nat (unat w)"
  unfolding double_of_u64_def by (metis rd_representable representable_nat uint_nat of_int_of_nat_eq)

text \<open>
  A comparison with a representable threshold is exact whenever the operand cannot lie strictly
  between the threshold and a smaller representable value.
\<close>

lemma rd_less_iff:
  assumes "representable c" "representable d" "d < c" "x < c \<Longrightarrow> x \<le> d"
  shows "rd x < c \<longleftrightarrow> x < c"
proof
  assume "x < c"
  then have "rd x \<le> rd d" using assms(4) by (intro rd_mono) simp
  also have "\<dots> = d" using assms(2) by (rule rd_representable)
  finally show "rd x < c" using assms(3) by simp
next
  assume r: "rd x < c"
  show "x < c"
  proof (rule ccontr)
    assume "\<not> x < c"
    then have "rd c \<le> rd x" by (intro rd_mono) simp
    with r show False using rd_representable [OF assms(1)] by simp
  qed
qed

end
