(* ===== verification/Budget.thy ===== *)
theory Budget
  imports Binary64 "HOL-Library.While_Combinator"
begin

text \<open>
  \<^verbatim>\<open>core/src/memory/memory_budget.cpp\<close>, \<^verbatim>\<open>core/src/memory/kv_budget.cpp\<close> and their headers: the
  anonymous-memory budget, the cache-cap clamp, the regime classifier and the serving-KV plan.
  \<^verbatim>\<open>size_t\<close> and \<^verbatim>\<open>uint64_t\<close> are 64-bit words, \<^verbatim>\<open>double\<close> values are rationals with the rounding of
  \<open>Binary64\<close>, \<^verbatim>\<open>int\<close> values are \<open>int\<close>. The loop of \<^verbatim>\<open>suggest_serving_kv\<close> is a \<open>while_option\<close>: the
  value \<open>None\<close> is a run that never returns.
\<close>

section \<open>Memory budget\<close>

datatype regime = R0_RESIDENT | R1_NEAR_LIMIT | R2_ABOVE_RAM | R3_FAR_ABOVE | R4_EXTREME_EDGE

record memory_budget =
  mem_total :: u64
  mem_available :: u64
  safety_margin_frac :: rat
  base_reserve :: u64
  expert_cache :: u64
  shared_experts :: u64
  kv :: u64
  staging :: u64
  runtime_base :: u64

definition memory_budget_default :: memory_budget where
  "memory_budget_default =
     \<lparr>mem_total = 0, mem_available = 0, safety_margin_frac = rd (12 / 100),
      base_reserve = 2048 * 2 ^ 20, expert_cache = 0, shared_experts = 0, kv = 0,
      staging = 0, runtime_base = 0\<rparr>"

text \<open>
  \<^verbatim>\<open>read_memavailable\<close>: repeatedly \<^verbatim>\<open>f >> label >> value >> unit\<close> over the text of
  \<^verbatim>\<open>/proc/meminfo\<close>. \<open>get_word\<close> and \<open>get_u64\<close> are the stream extractions of a \<^verbatim>\<open>std::string\<close> and of a
  \<^verbatim>\<open>uint64_t\<close> (unsigned decimal; the kernel prints no sign); \<open>None\<close> is the failed stream that ends
  the loop.
\<close>

definition get_word :: "string \<Rightarrow> (string \<times> string) option" where
  "get_word s =
     (let t = dropWhile is_space s; w = takeWhile (\<lambda>c. \<not> is_space c) t
      in if w = [] then None else Some (w, dropWhile (\<lambda>c. \<not> is_space c) t))"

definition get_u64 :: "string \<Rightarrow> (nat \<times> string) option" where
  "get_u64 s =
     (let t = dropWhile is_space s; ds = takeWhile is_digit t
      in if ds = [] \<or> digits_val 0 ds \<ge> 2 ^ 64 then None
         else Some (digits_val 0 ds, dropWhile is_digit t))"

lemma get_word_shorter: "get_word s = Some (w, r) \<Longrightarrow> length r < length s"
proof -
  assume a: "get_word s = Some (w, r)"
  let ?t = "dropWhile is_space s"
  have w: "w = takeWhile (\<lambda>c. \<not> is_space c) ?t" "w \<noteq> []" and r: "r = dropWhile (\<lambda>c. \<not> is_space c) ?t"
    using a by (auto simp: get_word_def Let_def split: if_splits)
  have "length w + length r = length ?t"
    using w(1) r by (metis length_append takeWhile_dropWhile_id)
  moreover have "length ?t \<le> length s" by (rule length_dropWhile_le)
  ultimately show ?thesis using w(2) by (cases w) auto
qed

lemma get_u64_le: "get_u64 s = Some (v, r) \<Longrightarrow> length r \<le> length s"
  by (auto simp: get_u64_def Let_def split: if_splits)
     (meson le_trans length_dropWhile_le)

function read_memavailable :: "string \<Rightarrow> u64" where
  "read_memavailable f =
     (case get_word f of
        None \<Rightarrow> 0
      | Some (label, f1) \<Rightarrow>
          (case get_u64 f1 of
             None \<Rightarrow> 0
           | Some (v, f2) \<Rightarrow>
               (case get_word f2 of
                  None \<Rightarrow> 0
                | Some (unit, f3) \<Rightarrow>
                    if label = ''MemAvailable:'' then of_nat v * 1024
                    else read_memavailable f3)))"
  by pat_completeness auto
termination
  by (relation "measure length") (auto dest!: get_word_shorter get_u64_le)

declare read_memavailable.simps [simp del]

text \<open>\<^verbatim>\<open>MemoryBudget::detect\<close>: \<open>si\<close> is the result of \<^verbatim>\<open>sysinfo\<close> (total RAM in units, unit size).\<close>

definition detect :: "(u64 \<times> u64) option \<Rightarrow> string \<Rightarrow> memory_budget" where
  "detect si meminfo =
     (let b = memory_budget_default;
          b = (case si of None \<Rightarrow> b | Some (totalram, unit) \<Rightarrow> b\<lparr>mem_total := totalram * unit\<rparr>)
      in b\<lparr>mem_available := read_memavailable meminfo\<rparr>)"

definition fixed_anon :: "memory_budget \<Rightarrow> u64" where
  "fixed_anon b = shared_experts b + kv b + staging b + runtime_base b"

definition sub0 :: "u64 \<Rightarrow> u64 \<Rightarrow> u64" where
  "sub0 a b = (if a > b then a - b else 0)"

definition safety_margin :: "memory_budget \<Rightarrow> u64" where
  "safety_margin b = u64_of_double (rd (double_of_u64 (mem_available b) * safety_margin_frac b))"

definition cache_headroom :: "memory_budget \<Rightarrow> u64" where
  "cache_headroom b =
     (let margin = safety_margin b;
          avail = sub0 (mem_available b) margin;
          avail = sub0 avail (base_reserve b);
          fixed = fixed_anon b
      in sub0 avail fixed)"

definition clamp_cache_cap :: "memory_budget \<Rightarrow> u64 \<Rightarrow> u64" where
  "clamp_cache_cap b requested =
     (let head = cache_headroom b in if requested < head then requested else head)"

definition fits :: "memory_budget \<Rightarrow> bool" where
  "fits b \<longleftrightarrow> expert_cache b + fixed_anon b \<le> cache_headroom b"

definition classify :: "u64 \<Rightarrow> u64 \<Rightarrow> regime" where
  "classify model_bytes ram_available =
     (let ratio = (if ram_available \<noteq> 0
                   then rd (double_of_u64 model_bytes / double_of_u64 ram_available) else 10)
      in if ratio < 1 then R0_RESIDENT
         else if ratio < 3 / 2 then R1_NEAR_LIMIT
         else if ratio < 4 then R2_ABOVE_RAM
         else if ratio < 8 then R3_FAR_ABOVE
         else R4_EXTREME_EDGE)"

fun regime_name :: "regime \<Rightarrow> string" where
  "regime_name R0_RESIDENT = ''R0_RESIDENT''"
| "regime_name R1_NEAR_LIMIT = ''R1_NEAR_LIMIT''"
| "regime_name R2_ABOVE_RAM = ''R2_ABOVE_RAM''"
| "regime_name R3_FAR_ABOVE = ''R3_FAR_ABOVE''"
| "regime_name R4_EXTREME_EDGE = ''R4_EXTREME_EDGE''"

section \<open>Serving KV plan\<close>

definition kDefaultKvBytesPerToken :: u64 where
  "kDefaultKvBytesPerToken = 20480"

record serving_kv_estimate =
  n_ctx :: int
  n_seq_max :: int
  n_ctx_per_seq :: int
  bytes_per_token :: u64

definition serving_kv_default :: serving_kv_estimate where
  "serving_kv_default =
     \<lparr>n_ctx = 1024, n_seq_max = 1, n_ctx_per_seq = 1024, bytes_per_token = kDefaultKvBytesPerToken\<rparr>"

definition kv_bytes :: "serving_kv_estimate \<Rightarrow> u64" where
  "kv_bytes e = word_of_int (n_ctx e) * bytes_per_token e"

definition anon_headroom :: "memory_budget \<Rightarrow> u64 \<Rightarrow> u64" where
  "anon_headroom b model_resident =
     (let margin = safety_margin b;
          avail = sub0 (mem_available b) margin;
          avail = sub0 avail (base_reserve b);
          fixed = fixed_anon b + model_resident + 512 * 2 ^ 20
      in sub0 avail fixed)"

definition kv_shrink_guard :: "u64 \<Rightarrow> serving_kv_estimate \<Rightarrow> bool" where
  "kv_shrink_guard headroom e \<longleftrightarrow> n_ctx e > 512 \<and> kv_bytes e > headroom"

definition kv_shrink_step :: "serving_kv_estimate \<Rightarrow> serving_kv_estimate" where
  "kv_shrink_step e =
     (let p = max 512 (n_ctx_per_seq e div 2)
      in e\<lparr>n_ctx_per_seq := p, n_ctx := p * n_seq_max e\<rparr>)"

definition serving_seq_max :: "memory_budget \<Rightarrow> u64 \<Rightarrow> regime \<Rightarrow> int" where
  "serving_seq_max b model_bytes regime =
     (let n = 2;
          n = (if regime = R0_RESIDENT \<and> mem_available b > model_bytes + 2 * 2 ^ 30 then 3 else n)
      in if model_bytes > u64_of_double (rd (double_of_u64 (mem_available b) * rd (85 / 100)))
         then 1 else n)"

definition suggest_serving_kv ::
  "memory_budget \<Rightarrow> u64 \<Rightarrow> regime \<Rightarrow> bool \<Rightarrow> serving_kv_estimate option" where
  "suggest_serving_kv b model_bytes regime mtp_enabled =
     (let e = serving_kv_default;
          model_resident = (if regime = R0_RESIDENT then model_bytes else 0);
          headroom = anon_headroom b model_resident
      in if mtp_enabled
         then Some (e\<lparr>n_seq_max := 1, n_ctx_per_seq := 1024, n_ctx := 1024\<rparr>)
         else let n = serving_seq_max b model_bytes regime;
                  e = e\<lparr>n_seq_max := n, n_ctx_per_seq := 2048, n_ctx := 2048 * n\<rparr>
              in while_option (kv_shrink_guard headroom) kv_shrink_step e)"

definition serving_kv_exceeds_headroom ::
  "serving_kv_estimate \<Rightarrow> memory_budget \<Rightarrow> u64 \<Rightarrow> bool" where
  "serving_kv_exceeds_headroom est b model_resident_bytes \<longleftrightarrow>
     kv_bytes est > anon_headroom b model_resident_bytes"

text \<open>The states of the shrink loop: \<open>n\<close> lanes of \<open>p\<close> tokens.\<close>

definition kv_plan :: "int \<Rightarrow> int \<Rightarrow> serving_kv_estimate" where
  "kv_plan n p = \<lparr>n_ctx = p * n, n_seq_max = n, n_ctx_per_seq = p, bytes_per_token = kDefaultKvBytesPerToken\<rparr>"

section \<open>Lemmas\<close>

lemma unat_sub0 [cne_word]: "unat (sub0 a b) = unat a - unat b"
  by (auto simp: sub0_def word_less_nat_alt unat_sub_if')

lemma unat_cache_headroom:
  "unat (cache_headroom b) =
     unat (mem_available b) - unat (safety_margin b) - unat (base_reserve b) - unat (fixed_anon b)"
  by (simp add: cache_headroom_def Let_def unat_sub0)

lemma unat_anon_headroom:
  "unat (anon_headroom b m) =
     unat (mem_available b) - unat (safety_margin b) - unat (base_reserve b)
       - unat (fixed_anon b + m + 512 * 2 ^ 20)"
  by (simp add: anon_headroom_def Let_def unat_sub0)

lemma serving_seq_max_range: "serving_seq_max b m r \<in> {1, 2, 3}"
  by (auto simp: serving_seq_max_def Let_def)

lemma rd_le_double: "rd x \<le> 2 * max 0 x"
proof (cases "0 < x")
  case True
  have "pow2 (flog2 x + 1) = 2 * pow2 (flog2 x)" by (simp add: pow2_add) (simp add: pow2_def)
  then show ?thesis using rd_bounds [OF True] flog2_bounds [OF True] True by auto
qed (simp add: rd_def)

lemma safety_margin_le:
  assumes "0 \<le> safety_margin_frac b" "safety_margin_frac b \<le> 1 / 4"
  shows "unat (safety_margin b) \<le> unat (mem_available b)"
proof -
  define m where "m = (of_int (uint (mem_available b)) :: rat)"
  define x where "x = double_of_u64 (mem_available b) * safety_margin_frac b"
  have m0: "0 \<le> m" unfolding m_def by (metis of_int_0_le_iff of_nat_0_le_iff uint_nat)
  have "double_of_u64 (mem_available b) \<le> 2 * m"
    using rd_le_double [of m] m0 unfolding double_of_u64_def m_def by simp
  then have "x \<le> 2 * m * (1 / 4)"
    unfolding x_def using assms m0 by (intro mult_mono) auto
  moreover have "0 \<le> x" using assms by (simp add: x_def double_of_u64_def rd_nonneg)
  ultimately have r: "rd x \<le> m" using rd_le_double [of x] by simp
  then have f: "\<lfloor>rd x\<rfloor> \<le> int (unat (mem_available b))"
    unfolding m_def by (metis floor_mono floor_of_int uint_nat)
  have f0: "0 \<le> \<lfloor>rd x\<rfloor>" using rd_nonneg [of x] by simp
  have "\<lfloor>rd x\<rfloor> < 18446744073709551616" using f unat_lt64 [of "mem_available b"] by linarith
  then have "unat (word_of_int \<lfloor>rd x\<rfloor> :: u64) = nat \<lfloor>rd x\<rfloor>"
    using f0 by (simp add: unat_eq_nat_uint uint_word_of_int)
  moreover have "nat \<lfloor>rd x\<rfloor> \<le> unat (mem_available b)" using f by linarith
  ultimately show ?thesis
    by (simp add: safety_margin_def u64_of_double_def x_def)
qed

lemma ratio_less_iff:
  fixes a b :: nat
  assumes b: "0 < b" "b \<le> 2 ^ 50"
    and c: "representable (of_nat p / of_nat q)" "0 < q"
    and d: "representable (of_nat p / of_nat q - 1 / (of_nat q * 2 ^ 50))"
  shows "rd (of_nat a / of_nat b) < of_nat p / of_nat q \<longleftrightarrow> a * q < p * b"
proof -
  have le: "x \<le> of_nat p / of_nat q - 1 / (of_nat q * 2 ^ 50)"
    if x: "x = of_nat a / of_nat b" and lt: "x < of_nat p / of_nat q" for x :: rat
  proof -
    have "of_nat (a * q) < (of_nat (p * b) :: rat)"
      using lt b(1) c(2) by (simp add: x field_simps)
    then have "a * q + 1 \<le> p * b" by (simp only: of_nat_less_iff)
    then have "(of_nat (a * q + 1) :: rat) \<le> of_nat (p * b)" by (simp only: of_nat_le_iff)
    then have "(of_nat (a * q + 1) :: rat) / (of_nat q * of_nat b) \<le> of_nat (p * b) / (of_nat q * of_nat b)"
      by (rule divide_right_mono) simp
    moreover have "(of_nat (a * q + 1) :: rat) / (of_nat q * of_nat b) = of_nat a / of_nat b + 1 / (of_nat q * of_nat b)"
      "(of_nat (p * b) :: rat) / (of_nat q * of_nat b) = of_nat p / of_nat q"
      using b(1) c(2) by (simp_all add: field_simps)
    ultimately have "of_nat a / of_nat b + 1 / (of_nat q * of_nat b) \<le> (of_nat p / of_nat q :: rat)"
      by simp
    moreover have "(1::rat) / (of_nat q * 2 ^ 50) \<le> 1 / (of_nat q * of_nat b)"
    proof -
      have "(of_nat b :: rat) \<le> 2 ^ 50" using b(2) by (metis of_nat_le_iff of_nat_numeral of_nat_power)
      then show ?thesis using b(1) c(2) by (intro divide_left_mono) auto
    qed
    ultimately show ?thesis using x by linarith
  qed
  have "rd (of_nat a / of_nat b) < of_nat p / of_nat q \<longleftrightarrow> of_nat a / of_nat b < (of_nat p / of_nat q :: rat)"
    using c(2) le by (intro rd_less_iff [OF c(1) d]) auto
  also have "\<dots> \<longleftrightarrow> (of_nat (a * q) :: rat) < of_nat (p * b)"
    using b(1) c(2) by (simp add: field_simps)
  also have "\<dots> \<longleftrightarrow> a * q < p * b" by (simp only: of_nat_less_iff)
  finally show ?thesis .
qed

lemma while_option_stuck: "b s \<Longrightarrow> c s = s \<Longrightarrow> while_option b c s = None"
proof -
  assume "b s" "c s = s"
  then have "(c ^^ k) s = s" for k by (induction k) auto
  with \<open>b s\<close> show ?thesis by (simp add: while_option_def)
qed

lemma kv_plan_bytes:
  "n \<in> {1, 2, 3} \<Longrightarrow> p \<in> {512, 1024, 2048} \<Longrightarrow> unat (kv_bytes (kv_plan n p)) = nat (p * n) * 20480"
  by (auto simp: kv_bytes_def kv_plan_def kDefaultKvBytesPerToken_def)

lemma kv_plan_step: "kv_shrink_step (kv_plan n p) = kv_plan n (max 512 (p div 2))"
  by (simp add: kv_shrink_step_def kv_plan_def Let_def mult.commute)

lemma kv_plan_guard:
  "n \<in> {1, 2, 3} \<Longrightarrow> p \<in> {512, 1024, 2048} \<Longrightarrow>
   kv_shrink_guard h (kv_plan n p) \<longleftrightarrow> 512 < p * n \<and> unat h < nat (p * n) * 20480"
  using kv_plan_bytes [of n p] by (auto simp: kv_shrink_guard_def word_less_nat_alt kv_plan_def)

text \<open>The loop visits at most the plans with 2048, 1024 and 512 tokens per lane.\<close>

lemma kv_shrink_loop:
  assumes n: "n \<in> {1, 2, 3}"
  shows "while_option (kv_shrink_guard h) kv_shrink_step (kv_plan n 2048) =
    (if nat n * 41943040 \<le> unat h then Some (kv_plan n 2048)
     else if nat n * 20971520 \<le> unat h then Some (kv_plan n 1024)
     else if n = 1 \<or> nat n * 10485760 \<le> unat h then Some (kv_plan n 512)
     else None)"
proof -
  have W512: "while_option (kv_shrink_guard h) kv_shrink_step (kv_plan n 512) =
      (if n = 1 \<or> nat n * 10485760 \<le> unat h then Some (kv_plan n 512) else None)"
  proof (cases "kv_shrink_guard h (kv_plan n 512)")
    case True
    then have "while_option (kv_shrink_guard h) kv_shrink_step (kv_plan n 512) = None"
      by (rule while_option_stuck) (simp add: kv_plan_step)
    with True kv_plan_guard [OF n, of 512 h] n show ?thesis by auto
  next
    case False
    then show ?thesis
      using n kv_plan_guard [OF n, of 512 h] by (subst while_option_unfold) auto
  qed
  have W1024: "while_option (kv_shrink_guard h) kv_shrink_step (kv_plan n 1024) =
      (if nat n * 20971520 \<le> unat h then Some (kv_plan n 1024)
       else while_option (kv_shrink_guard h) kv_shrink_step (kv_plan n 512))"
    using n kv_plan_guard [OF n, of 1024 h]
    by (subst while_option_unfold) (auto simp: kv_plan_step)
  have W2048: "while_option (kv_shrink_guard h) kv_shrink_step (kv_plan n 2048) =
      (if nat n * 41943040 \<le> unat h then Some (kv_plan n 2048)
       else while_option (kv_shrink_guard h) kv_shrink_step (kv_plan n 1024))"
    using n kv_plan_guard [OF n, of 2048 h]
    by (subst while_option_unfold) (auto simp: kv_plan_step)
  show ?thesis by (simp only: W2048 W1024 W512)
qed

lemma suggest_serving_kv_plan:
  "suggest_serving_kv b m r False =
     while_option (kv_shrink_guard (anon_headroom b (if r = R0_RESIDENT then m else 0)))
       kv_shrink_step (kv_plan (serving_seq_max b m r) 2048)"
  by (simp add: suggest_serving_kv_def serving_kv_default_def kv_plan_def Let_def)

section \<open>Properties\<close>

lemma clamp_cache_cap_fits:
  fixes b :: memory_budget and requested :: u64
  defines "c \<equiv> clamp_cache_cap b requested"
  assumes frac: "0 \<le> safety_margin_frac b" "safety_margin_frac b \<le> 1 / 4"
    and nowrap: "unat (shared_experts b) + unat (kv b) + unat (staging b) + unat (runtime_base b) < 2 ^ 64"
  shows "unat c \<le> unat requested
    \<and> (c = 0 \<or> unat c + unat (shared_experts b) + unat (kv b) + unat (staging b)
         + unat (runtime_base b) + unat (base_reserve b) + unat (safety_margin b)
         \<le> unat (mem_available b))
    \<and> (c = requested \<or> c = cache_headroom b)"
proof -
  have fx: "unat (fixed_anon b) =
      unat (shared_experts b) + unat (kv b) + unat (staging b) + unat (runtime_base b)"
    using nowrap unfolding fixed_anon_def by (simp add: unat_word_ariths)
  have "unat c = min (unat requested) (unat (cache_headroom b))"
    by (auto simp: c_def clamp_cache_cap_def Let_def word_less_nat_alt)
  moreover have "c = requested \<or> c = cache_headroom b"
    by (auto simp: c_def clamp_cache_cap_def Let_def)
  ultimately show ?thesis
    using unat_cache_headroom [of b] fx safety_margin_le [OF frac]
    by (auto simp: unat_eq_zero [symmetric] min_def split: if_splits)
qed

text \<open>
  Regime classification: for machines with at most \<open>2^50\<close> bytes of available RAM and
  models below \<open>2^53\<close> bytes, the double-precision classifier agrees exactly with the integer
  comparisons of the documented bands (below 1, 1.5, 4 and 8 times the available RAM); rounding
  never moves a model across a band edge.
\<close>

theorem classify_exact:
  assumes "unat model < 2 ^ 53" "0 < ram" "unat ram \<le> 2 ^ 50"
  shows "classify model ram =
    (if unat model < unat ram then R0_RESIDENT
     else if 2 * unat model < 3 * unat ram then R1_NEAR_LIMIT
     else if unat model < 4 * unat ram then R2_ABOVE_RAM
     else if unat model < 8 * unat ram then R3_FAR_ABOVE
     else R4_EXTREME_EDGE)"
proof -
  let ?m = "unat model" and ?r = "unat ram"
  have r: "0 < ?r" using assms(2) by (simp add: word_less_nat_alt)
  have "?r < 2 ^ 53" using assms(3) by simp
  then have D: "double_of_u64 model / double_of_u64 ram = of_nat ?m / of_nat ?r"
    by (simp only: double_of_u64_exact [OF assms(1)] double_of_u64_exact)
  have rep: "representable (of_nat m / 2 ^ k)" if "m < 2 ^ 53" for m k
    by (rule representableI [OF that refl])
  have t1: "rd (of_nat ?m / of_nat ?r) < 1 \<longleftrightarrow> ?m < ?r"
    using ratio_less_iff [OF r assms(3), of 1 1 ?m] rep [of 1 0] rep [of "2 ^ 50 - 1" 50] by simp
  have t2: "rd (of_nat ?m / of_nat ?r) < 3 / 2 \<longleftrightarrow> 2 * ?m < 3 * ?r"
    using ratio_less_iff [OF r assms(3), of 3 2 ?m] rep [of 3 1] rep [of "3 * 2 ^ 50 - 1" 51]
    by (simp add: mult.commute)
  have t3: "rd (of_nat ?m / of_nat ?r) < 4 \<longleftrightarrow> ?m < 4 * ?r"
    using ratio_less_iff [OF r assms(3), of 4 1 ?m] rep [of 4 0] rep [of "4 * 2 ^ 50 - 1" 50] by simp
  have t4: "rd (of_nat ?m / of_nat ?r) < 8 \<longleftrightarrow> ?m < 8 * ?r"
    using ratio_less_iff [OF r assms(3), of 8 1 ?m] rep [of 8 0] rep [of "8 * 2 ^ 50 - 1" 50] by simp
  have "ram \<noteq> 0" using assms(2) by auto
  then show ?thesis
    unfolding classify_def Let_def D by (simp only: if_True t1 t2 t3 t4 not_False_eq_True)
qed

theorem classify_exact_witness:
  "classify (20 * 2 ^ 30) (8 * 2 ^ 30) = R2_ABOVE_RAM"
  using classify_exact [of "20 * 2 ^ 30" "8 * 2 ^ 30"] by simp

text \<open>
  Claim C8. The KV planner returns if and only if it serves one lane or its smallest plan (512
  tokens per lane) fits the anonymous head-room; otherwise its shrink loop runs for ever, because
  the token count per lane stops at 512 while the total of two or three lanes stays above 512.
\<close>

theorem suggest_serving_kv_returns:
  "(\<exists>e. suggest_serving_kv b m r False = Some e) \<longleftrightarrow>
     serving_seq_max b m r = 1 \<or>
     nat (serving_seq_max b m r) * 512 * 20480
       \<le> unat (anon_headroom b (if r = R0_RESIDENT then m else 0))"
  using serving_seq_max_range [of b m r]
  unfolding suggest_serving_kv_plan by (subst kv_shrink_loop) auto



text \<open>
  \<^verbatim>\<open>MemoryBudget::fits\<close> subtracts the fixed allocations twice: it compares the cap plus the
  fixed part with a head-room from which the fixed part has already been taken, so it rejects every
  budget whose cap was clamped to the head-room, although such a budget satisfies the engine's
  budget inequality.
\<close>

theorem fits_rejects_clamped_cap:
  assumes "cache_headroom b \<le> requested" "0 < fixed_anon b"
    and "unat (cache_headroom b) + unat (fixed_anon b) < 2 ^ 64"
  shows "\<not> fits (b\<lparr>expert_cache := clamp_cache_cap b requested\<rparr>)"
proof -
  have "clamp_cache_cap b requested = cache_headroom b"
    using assms(1) by (auto simp: clamp_cache_cap_def Let_def dest: leD)
  moreover have "cache_headroom (b\<lparr>expert_cache := c\<rparr>) = cache_headroom b"
    "fixed_anon (b\<lparr>expert_cache := c\<rparr>) = fixed_anon b" for c
    by (simp_all add: cache_headroom_def fixed_anon_def safety_margin_def Let_def)
  ultimately show ?thesis
    using assms(2,3) unat_add_nowrap [OF assms(3)]
    by (simp add: fits_def word_le_nat_alt word_less_nat_alt)
qed

theorem fits_rejects_clamped_cap_witness:
  "\<not> fits (memory_budget_default\<lparr>mem_available := 16 * 2 ^ 30, kv := 64 * 2 ^ 20, expert_cache :=
       clamp_cache_cap (memory_budget_default\<lparr>mem_available := 16 * 2 ^ 30, kv := 64 * 2 ^ 20\<rparr>) (2 ^ 40)\<rparr>)"
proof -
  let ?b = "memory_budget_default\<lparr>mem_available := 16 * 2 ^ 30, kv := 64 * 2 ^ 20\<rparr>"
  have h: "cache_headroom ?b \<le> 2 ^ 40" "unat (cache_headroom ?b) \<le> unat (2 ^ 40 :: u64)"
    using unat_cache_headroom [of ?b] by (simp_all add: word_le_nat_alt)
  have "fixed_anon ?b = 64 * 2 ^ 20" by (simp add: fixed_anon_def memory_budget_default_def)
  with h show ?thesis
    using fits_rejects_clamped_cap [of ?b "2 ^ 40"] by simp
qed

text \<open>
  A machine with 3 GiB available and a resident 1 GiB model never gets a plan: the set-up tool hangs.
\<close>

lemma suggest_serving_kv_hangs:
  "suggest_serving_kv (memory_budget_default\<lparr>mem_available := 3 * 2 ^ 30\<rparr>) (2 ^ 30) R0_RESIDENT False = None"
proof -
  let ?b = "memory_budget_default\<lparr>mem_available := 3 * 2 ^ 30\<rparr>"
  have "serving_seq_max ?b (2 ^ 30) R0_RESIDENT = 2" by code_simp
  moreover have "anon_headroom ?b (2 ^ 30) = 0" by code_simp
  ultimately show ?thesis by (simp add: suggest_serving_kv_plan kv_shrink_loop)
qed

end
