(* ===== verification/Lru_Spec.thy ===== *)
theory Lru_Spec
  imports Main
begin

text \<open>
  The abstract specification of a byte-bounded exact LRU cache, as a list of \<open>(key, size)\<close> pairs
  with the most recently used entry first, and the contract (locale \<open>lru_impl\<close>) by which a
  concrete cache implements it. \<open>Slice_Cache\<close> interprets the contract for the engine's
  \<^verbatim>\<open>SliceCache\<close>, \<open>Lru_Sim\<close> for the cache of the trace replay tool.
\<close>

section \<open>Specification\<close>

type_synonym 'k lru = "('k \<times> nat) list"

definition lru_bytes :: "'k lru \<Rightarrow> nat" where
  "lru_bytes xs = sum_list (map snd xs)"

text \<open>Drop least recently used entries until \<open>b\<close> more bytes fit or nothing is left.\<close>

function lru_evict :: "nat \<Rightarrow> nat \<Rightarrow> 'k lru \<Rightarrow> 'k lru" where
  "lru_evict cap b xs =
     (if xs \<noteq> [] \<and> cap < lru_bytes xs + b then lru_evict cap b (butlast xs) else xs)"
  by pat_completeness auto
termination
  by (relation "measure (\<lambda>(cap, b, xs). length xs)") auto

declare lru_evict.simps [simp del]

definition lru_insert :: "nat \<Rightarrow> 'k \<Rightarrow> nat \<Rightarrow> 'k lru \<Rightarrow> 'k lru" where
  "lru_insert cap k b xs =
     (let ys = lru_evict cap b xs in if b \<le> cap then (k, b) # ys else ys)"

definition lru_touch :: "nat \<Rightarrow> 'k \<Rightarrow> nat \<Rightarrow> 'k lru \<Rightarrow> bool \<times> 'k lru" where
  "lru_touch cap k b xs =
     (case map_of xs k of
        Some s \<Rightarrow> (True, (k, s) # filter (\<lambda>p. fst p \<noteq> k) xs)
      | None \<Rightarrow> (False, lru_insert cap k b xs))"

fun lru_run :: "nat \<Rightarrow> 'k lru \<Rightarrow> ('k \<times> nat) list \<Rightarrow> bool list \<times> 'k lru" where
  "lru_run cap xs [] = ([], xs)"
| "lru_run cap xs ((k, b) # rs) =
     (let t = lru_touch cap k b xs; r = lru_run cap (snd t) rs in (fst t # fst r, snd r))"

text \<open>A trace of requests against an implementation that may abort.\<close>

fun run_trace :: "('c \<Rightarrow> 'r \<Rightarrow> (bool \<times> 'c) option) \<Rightarrow> 'c \<Rightarrow> 'r list \<Rightarrow> (bool list \<times> 'c) option" where
  "run_trace touch c [] = Some ([], c)"
| "run_trace touch c (r # rs) =
     (case touch c r of
        None \<Rightarrow> None
      | Some (h, c') \<Rightarrow>
          (case run_trace touch c' rs of None \<Rightarrow> None | Some (hs, c'') \<Rightarrow> Some (h # hs, c'')))"

section \<open>Facts about the specification\<close>

lemma lru_bytes_simps [simp]:
  "lru_bytes [] = 0" "lru_bytes (p # xs) = snd p + lru_bytes xs" "lru_bytes (xs @ ys) = lru_bytes xs + lru_bytes ys"
  by (simp_all add: lru_bytes_def)

lemma lru_evict_Nil [simp]: "lru_evict cap b [] = []"
  by (simp add: lru_evict.simps)

lemma lru_evict_fits [simp]: "lru_bytes xs + b \<le> cap \<Longrightarrow> lru_evict cap b xs = xs"
  by (subst lru_evict.simps) simp

lemma lru_evict_step: "xs \<noteq> [] \<Longrightarrow> cap < lru_bytes xs + b \<Longrightarrow> lru_evict cap b xs = lru_evict cap b (butlast xs)"
  by (subst lru_evict.simps) simp

lemma lru_evict_prefix: "\<exists>zs. xs = lru_evict cap b xs @ zs"
proof (induction cap b xs rule: lru_evict.induct)
  case (1 cap b xs)
  show ?case
  proof (cases "xs \<noteq> [] \<and> cap < lru_bytes xs + b")
    case True
    then obtain zs where "butlast xs = lru_evict cap b (butlast xs) @ zs" using 1 by blast
    then have "xs = lru_evict cap b (butlast xs) @ zs @ [last xs]"
      using True by (metis append.assoc append_butlast_last_id)
    with True show ?thesis by (auto simp: lru_evict.simps [of cap b xs])
  next
    case False
    then show ?thesis by (auto simp: lru_evict.simps [of cap b xs])
  qed
qed

lemma lru_evict_subset: "set (lru_evict cap b xs) \<subseteq> set xs"
  using lru_evict_prefix [of xs cap b] by (metis Un_iff set_append subsetI)

lemma lru_evict_room: "lru_evict cap b xs = [] \<or> lru_bytes (lru_evict cap b xs) + b \<le> cap"
proof (induction cap b xs rule: lru_evict.induct)
  case (1 cap b xs)
  then show ?case
    by (cases "xs \<noteq> [] \<and> cap < lru_bytes xs + b") (auto simp: lru_evict.simps [of cap b xs])
qed

text \<open>Eviction keeps every prefix that fits together with the new entry.\<close>

lemma lru_evict_keeps:
  "lru_bytes ps + b \<le> cap \<Longrightarrow> \<exists>zs. lru_evict cap b (ps @ qs) = ps @ zs"
proof (induction qs rule: rev_induct)
  case Nil
  then show ?case by simp
next
  case (snoc q qs)
  show ?case
  proof (cases "cap < lru_bytes (ps @ qs @ [q]) + b")
    case True
    then have "lru_evict cap b (ps @ qs @ [q]) = lru_evict cap b (ps @ qs)"
      by (subst lru_evict_step) (simp_all add: butlast_append)
    with snoc show ?thesis by simp
  next
    case False
    then have "lru_evict cap b (ps @ qs @ [q]) = ps @ qs @ [q]" by (simp add: lru_evict_fits)
    then show ?thesis by blast
  qed
qed

lemma lru_insert_total: "lru_bytes (lru_insert cap k b xs) \<le> max cap (lru_bytes xs)"
proof -
  obtain zs where "xs = lru_evict cap b xs @ zs" using lru_evict_prefix by blast
  then have "lru_bytes (lru_evict cap b xs) \<le> lru_bytes xs" by (metis le_add1 lru_bytes_simps(3))
  then show ?thesis
    using lru_evict_room [of cap b xs] by (auto simp: lru_insert_def Let_def)
qed

lemma total_filter_split:
  "distinct (map fst xs) \<Longrightarrow> map_of xs k = Some s \<Longrightarrow> lru_bytes xs = s + lru_bytes (filter (\<lambda>p. fst p \<noteq> k) xs)"
proof (induction xs)
  case Nil
  then show ?case by simp
next
  case (Cons p xs)
  show ?case
  proof (cases "fst p = k")
    case True
    with Cons.prems have "filter (\<lambda>p. fst p \<noteq> k) xs = xs"
      by (auto simp: filter_id_conv rev_image_eqI)
    with True Cons.prems show ?thesis by (cases p) simp
  next
    case False
    with Cons show ?thesis by (cases p) auto
  qed
qed

lemma lru_touch_total:
  "distinct (map fst xs) \<Longrightarrow> lru_bytes (snd (lru_touch cap k b xs)) \<le> max cap (lru_bytes xs)"
  using lru_insert_total [of cap k b xs] total_filter_split [of xs k]
  by (auto simp: lru_touch_def split: option.splits)

lemma distinct_lru_touch:
  assumes "distinct (map fst xs)"
  shows "distinct (map fst (snd (lru_touch cap k b xs)))"
proof (cases "map_of xs k")
  case None
  obtain zs where zs: "xs = lru_evict cap b xs @ zs" using lru_evict_prefix by blast
  have "distinct (map fst (lru_evict cap b xs))"
    using assms zs by (metis distinct_append map_append)
  moreover have "k \<notin> fst ` set (lru_evict cap b xs)"
    using None lru_evict_subset [of cap b xs] by (auto simp: map_of_eq_None_iff)
  ultimately show ?thesis using None by (simp add: lru_touch_def lru_insert_def Let_def)
next
  case (Some s)
  with assms show ?thesis by (auto simp: lru_touch_def distinct_map_filter)
qed

lemma distinct_lru_run: "distinct (map fst xs) \<Longrightarrow> distinct (map fst (snd (lru_run cap xs rs)))"
  by (induction cap xs rs rule: lru_run.induct) (auto simp: Let_def distinct_lru_touch)

lemma lru_run_length: "length (fst (lru_run cap xs rs)) = length rs"
  by (induction cap xs rs rule: lru_run.induct) (auto simp: Let_def)

lemma lru_run_total:
  "distinct (map fst xs) \<Longrightarrow> lru_bytes xs \<le> cap \<Longrightarrow> lru_bytes (snd (lru_run cap xs rs)) \<le> cap"
proof (induction cap xs rs rule: lru_run.induct)
  case (2 cap xs k b rs)
  have "lru_bytes (snd (lru_touch cap k b xs)) \<le> cap"
    using lru_touch_total [OF "2.prems"(1), of cap k b] "2.prems"(2) by simp
  with "2" show ?case by (simp add: Let_def distinct_lru_touch)
qed simp

text \<open>
  Residency of a batch: after touching distinct keys of one size that fit together, all of them are
  in front, newest first, whatever the cache held before.
\<close>

lemma lru_run_snoc:
  "lru_run cap xs (rs @ [(k, b)]) =
     (let r = lru_run cap xs rs; t = lru_touch cap k b (snd r) in (fst r @ [fst t], snd t))"
  by (induction cap xs rs rule: lru_run.induct) (auto simp: Let_def)

lemma lru_touch_front:
  assumes "lru_bytes ps + b \<le> cap" "k \<notin> fst ` set ps" "map_of (ps @ qs) k \<in> {None, Some b}"
  shows "\<exists>zs. snd (lru_touch cap k b (ps @ qs)) = (k, b) # ps @ zs \<and> set zs \<subseteq> set qs"
proof (cases "map_of (ps @ qs) k")
  case None
  obtain zs where zs: "lru_evict cap b (ps @ qs) = ps @ zs"
    using lru_evict_keeps [OF assms(1)] by blast
  obtain ws where "ps @ qs = (ps @ zs) @ ws" using lru_evict_prefix [of "ps @ qs" cap b] zs by auto
  then have "set zs \<subseteq> set qs" by auto
  with zs assms(1) show ?thesis
    by (simp add: lru_touch_def None lru_insert_def Let_def del: map_of_append)
next
  case (Some s)
  then have s: "s = b" using assms(3) by (auto simp del: map_of_append)
  have "filter (\<lambda>p. fst p \<noteq> k) ps = ps" using assms(2) by (intro filter_True) force
  with s show ?thesis
    by (auto simp: lru_touch_def Some simp del: map_of_append)
qed

lemma lru_run_batch:
  assumes "distinct ks" "length ks * b \<le> cap" "\<And>k. k \<in> set ks \<Longrightarrow> map_of xs k \<in> {None, Some b}"
    "distinct (map fst xs)"
  shows "\<exists>zs. snd (lru_run cap xs (map (\<lambda>k. (k, b)) ks)) = map (\<lambda>k. (k, b)) (rev ks) @ zs
     \<and> set zs \<subseteq> set xs"
  using assms
proof (induction ks rule: rev_induct)
  case Nil
  then show ?case by simp
next
  case (snoc k ks)
  let ?ps = "map (\<lambda>k. (k, b)) (rev ks)"
  obtain zs where zs: "snd (lru_run cap xs (map (\<lambda>k. (k, b)) ks)) = ?ps @ zs" "set zs \<subseteq> set xs"
    using snoc by auto
  have tot: "lru_bytes ?ps = length ks * b" by (simp add: lru_bytes_def map_replicate_const sum_list_replicate comp_def rev_map)
  have nin: "k \<notin> fst ` set ?ps" using snoc.prems(1) by auto
  have "map_of zs k \<in> {None, Some b}"
  proof (cases "map_of zs k")
    case (Some v)
    then have "map_of xs k = Some v"
      using zs(2) snoc.prems(4) by (metis map_of_SomeD map_of_is_SomeI subsetD)
    with snoc.prems(3) [of k] Some show ?thesis by auto
  qed simp
  moreover have "map_of ?ps k = None" using nin by (simp add: map_of_eq_None_iff image_image)
  ultimately have "map_of (?ps @ zs) k \<in> {None, Some b}" by (auto simp: map_add_def)
  with nin tot snoc.prems(2) obtain ws where
    "snd (lru_touch cap k b (?ps @ zs)) = (k, b) # ?ps @ ws" "set ws \<subseteq> set zs"
    using lru_touch_front [of ?ps b cap k zs] by auto
  with zs show ?case
    by (auto simp: lru_run_snoc Let_def)
qed

text \<open>Renaming keys injectively does not change the hits.\<close>

lemma lru_evict_map:
  "lru_evict cap b (map (\<lambda>(k, s). (f k, s)) xs) = map (\<lambda>(k, s). (f k, s)) (lru_evict cap b xs)"
proof (induction cap b xs rule: lru_evict.induct)
  case (1 cap b xs)
  have t: "lru_bytes (map (\<lambda>(k, s). (f k, s)) xs) = lru_bytes xs"
    by (simp add: lru_bytes_def comp_def case_prod_unfold)
  show ?case
  proof (cases "xs \<noteq> [] \<and> cap < lru_bytes xs + b")
    case True
    with 1 t show ?thesis
      by (simp add: lru_evict.simps [of cap b xs] lru_evict.simps [of cap b "map (\<lambda>(k, s). (f k, s)) xs"] map_butlast [symmetric])
  next
    case False
    with t show ?thesis
      by (auto simp: lru_evict.simps [of cap b xs] lru_evict.simps [of cap b "map (\<lambda>(k, s). (f k, s)) xs"])
  qed
qed

lemma map_of_map_inj:
  "inj_on f (insert k (fst ` set xs)) \<Longrightarrow> map_of (map (\<lambda>(k, s). (f k, s)) xs) (f k) = map_of xs k"
  by (induction xs) (auto simp: inj_on_def)

lemma lru_touch_map:
  assumes "inj_on f (insert k (fst ` set xs))"
  shows "lru_touch cap (f k) b (map (\<lambda>(k, s). (f k, s)) xs) =
    apsnd (map (\<lambda>(k, s). (f k, s))) (lru_touch cap k b xs)"
proof (cases "map_of xs k")
  case None
  then show ?thesis
    using map_of_map_inj [OF assms] by (simp add: lru_touch_def lru_insert_def Let_def lru_evict_map)
next
  case (Some s)
  have "filter (\<lambda>p. fst p \<noteq> f k) (map (\<lambda>(k, s). (f k, s)) xs) =
      map (\<lambda>(k, s). (f k, s)) (filter (\<lambda>p. fst p \<noteq> k) xs)"
    using assms by (induction xs) (auto simp: inj_on_def)
  then show ?thesis
    using Some map_of_map_inj [OF assms] by (simp add: lru_touch_def)
qed

lemma lru_touch_keys: "fst ` set (snd (lru_touch cap k b xs)) \<subseteq> insert k (fst ` set xs)"
  using lru_evict_subset [of cap b xs]
  by (auto simp: lru_touch_def lru_insert_def Let_def split: option.splits)

lemma lru_run_map:
  "inj_on f (fst ` set xs \<union> fst ` set rs) \<Longrightarrow>
   lru_run cap (map (\<lambda>(k, s). (f k, s)) xs) (map (\<lambda>(k, s). (f k, s)) rs) =
     apsnd (map (\<lambda>(k, s). (f k, s))) (lru_run cap xs rs)"
proof (induction cap xs rs rule: lru_run.induct)
  case (1 cap xs)
  then show ?case by simp
next
  case (2 cap xs k b rs)
  have inj: "inj_on f (insert k (fst ` set xs))"
    by (rule inj_on_subset [OF "2.prems"]) auto
  have "inj_on f (fst ` set (snd (lru_touch cap k b xs)) \<union> fst ` set rs)"
    using lru_touch_keys [of cap k b xs] by (intro inj_on_subset [OF "2.prems"]) auto
  with "2.IH" lru_touch_map [OF inj, of cap b] show ?case
    by (simp add: Let_def)
qed

section \<open>The contract of an implementation\<close>

text \<open>
  \<open>touch c r\<close> serves request \<open>r\<close> (\<open>None\<close>: the program aborts); \<open>alpha\<close> reads the abstract state,
  \<open>cap\<close> the byte limit; \<open>ok\<close> are the admissible requests.
\<close>

locale lru_impl =
  fixes touch :: "'c \<Rightarrow> 'r \<Rightarrow> (bool \<times> 'c) option"
    and alpha :: "'c \<Rightarrow> 'k lru"
    and cap :: "'c \<Rightarrow> nat"
    and invar :: "'c \<Rightarrow> bool"
    and ok :: "'r \<Rightarrow> bool"
    and keyof :: "'r \<Rightarrow> 'k"
    and szof :: "'r \<Rightarrow> nat"
  assumes touch_invar: "invar c \<Longrightarrow> ok r \<Longrightarrow> touch c r = Some (h, c') \<Longrightarrow> invar c'"
    and touch_refines: "invar c \<Longrightarrow> ok r \<Longrightarrow> touch c r = Some (h, c') \<Longrightarrow>
      lru_touch (cap c) (keyof r) (szof r) (alpha c) = (h, alpha c')"
    and touch_cap: "invar c \<Longrightarrow> ok r \<Longrightarrow> touch c r = Some (h, c') \<Longrightarrow> cap c' = cap c"
    and alpha_distinct: "invar c \<Longrightarrow> distinct (map fst (alpha c))"
begin

lemma run_refines:
  "invar c \<Longrightarrow> (\<And>r. r \<in> set rs \<Longrightarrow> ok r) \<Longrightarrow> run_trace touch c rs = Some (hs, c') \<Longrightarrow>
   lru_run (cap c) (alpha c) (map (\<lambda>r. (keyof r, szof r)) rs) = (hs, alpha c') \<and> invar c' \<and> cap c' = cap c"
proof (induction rs arbitrary: c hs)
  case Nil
  then show ?case by simp
next
  case (Cons r rs)
  obtain h c1 where t: "touch c r = Some (h, c1)" using Cons.prems(3) by (auto split: option.splits)
  then obtain hs1 where r1: "run_trace touch c1 rs = Some (hs1, c')" and hs: "hs = h # hs1"
    using Cons.prems(3) by (auto split: option.splits)
  have ok: "ok r" using Cons.prems(2) by simp
  have "lru_run (cap c1) (alpha c1) (map (\<lambda>r. (keyof r, szof r)) rs) = (hs1, alpha c') \<and> invar c' \<and> cap c' = cap c1"
    using Cons.IH [OF touch_invar [OF Cons.prems(1) ok t] _ r1] Cons.prems(2) by simp
  with touch_refines [OF Cons.prems(1) ok t] touch_cap [OF Cons.prems(1) ok t] hs
  show ?case by simp
qed

lemma run_bounded:
  "invar c \<Longrightarrow> (\<And>r. r \<in> set rs \<Longrightarrow> ok r) \<Longrightarrow> lru_bytes (alpha c) \<le> cap c \<Longrightarrow> run_trace touch c rs = Some (hs, c') \<Longrightarrow>
   lru_bytes (alpha c') \<le> cap c'"
  using run_refines [of c rs hs c'] lru_run_total [of "alpha c" "cap c" "map (\<lambda>r. (keyof r, szof r)) rs"] alpha_distinct [of c]
  by simp

lemma run_resident:
  assumes "invar c" "\<And>r. r \<in> set rs \<Longrightarrow> ok r" "run_trace touch c rs = Some (hs, c')"
    "distinct (map keyof rs)" "\<And>r. r \<in> set rs \<Longrightarrow> szof r = b" "length rs * b \<le> cap c"
    "\<And>r. r \<in> set rs \<Longrightarrow> map_of (alpha c) (keyof r) \<in> {None, Some b}" "r \<in> set rs"
  shows "map_of (alpha c') (keyof r) = Some b"
proof -
  have req: "map (\<lambda>r. (keyof r, szof r)) rs = map (\<lambda>k. (k, b)) (map keyof rs)"
    using assms(5) by simp
  obtain zs where zs: "alpha c' = map (\<lambda>k. (k, b)) (rev (map keyof rs)) @ zs"
    using run_refines [OF assms(1-3)] lru_run_batch [OF assms(4) _ _ alpha_distinct [OF assms(1)], of b "cap c"]
      assms(6,7) unfolding req by fastforce
  have "distinct (map fst (alpha c'))"
    using run_refines [OF assms(1-3)] alpha_distinct by blast
  moreover have "(keyof r, b) \<in> set (alpha c')" using zs assms(8) by auto
  ultimately show ?thesis by simp
qed

end

end
