(* ===== verification/Slice_Cache.thy ===== *)
theory Slice_Cache
  imports Cne_Prelude Lru_Spec
begin

unbundle bit_operations_syntax

text \<open>
  \<^verbatim>\<open>core/include/cne/cache.h\<close> and \<^verbatim>\<open>core/src/features/streaming/cache.cpp\<close>: the expert slice cache.
  The object's fields are the record \<open>slice_cache\<close>; the process memory its operations write
  (window slices, \<^verbatim>\<open>madvise\<close>) is the field \<open>mem\<close>, a byte per 64-bit address. \<^verbatim>\<open>abort()\<close> is the
  result \<open>None\<close>. The list iterator stored in an entry denotes the node that carries the entry's
  key in \<^verbatim>\<open>lru_\<close>, so erasing it removes that key. Three things the C++ leaves open are arguments: the
  fill backend \<^verbatim>\<open>Source::read\<close>, the order in which an \<^verbatim>\<open>unordered_set<int>\<close> enumerates the distinct
  experts of a batch, and the order in which the I/O lanes complete a batch of reads.
\<close>

section \<open>Data\<close>

type_synonym memory = "u64 \<Rightarrow> u8"

text \<open>\<^verbatim>\<open>read(dest, src_offset, bytes, ud)\<close>: success flag and the memory afterwards.\<close>

type_synonym source_read = "memory \<Rightarrow> u64 \<Rightarrow> u64 \<Rightarrow> u64 \<Rightarrow> bool \<times> memory"

record cache_stats =
  hits :: u64
  misses :: u64
  bytes_loaded :: u64
  evictions :: u64
  dedup_requests :: u64
  prefetched :: u64

record cache_entry =
  tensor :: string
  expert :: int
  slice_addr :: u64
  entry_bytes :: u64

record slice_cache =
  hard_cap_bytes :: u64
  stats :: cache_stats
  src_read :: "source_read option"
  cmap :: "u64 \<rightharpoonup> cache_entry"
  lru_list :: "u64 list"
  used_bytes :: u64
  shield :: "u64 set"
  verify_remaining :: u64
  mem :: memory

definition kShieldEntries :: nat where
  "kShieldEntries = 2048"

definition new_slice_cache :: "u64 \<Rightarrow> memory \<Rightarrow> slice_cache" where
  "new_slice_cache cap m =
     \<lparr>hard_cap_bytes = cap,
      stats = \<lparr>hits = 0, misses = 0, bytes_loaded = 0, evictions = 0, dedup_requests = 0, prefetched = 0\<rparr>,
      src_read = None, cmap = Map.empty, lru_list = [], used_bytes = 0, shield = {},
      verify_remaining = 0, mem = m\<rparr>"

definition set_source :: "slice_cache \<Rightarrow> source_read \<Rightarrow> slice_cache" where
  "set_source c r = c\<lparr>src_read := Some r\<rparr>"

definition set_verify_next :: "slice_cache \<Rightarrow> u64 \<Rightarrow> slice_cache" where
  "set_verify_next c n_fills = c\<lparr>verify_remaining := n_fills\<rparr>"

section \<open>Operations\<close>

definition kPage :: u64 where
  "kPage = 4096"

definition page_floor :: "u64 \<Rightarrow> u64" where
  "page_floor a = a AND NOT (kPage - 1)"

definition span_pages :: "u64 \<Rightarrow> u64 \<Rightarrow> u64" where
  "span_pages from bytes =
     (let start = page_floor from; e = (from + bytes + kPage - 1) AND NOT (kPage - 1) in e - start)"

fun fnv1a_loop :: "u64 \<Rightarrow> string \<Rightarrow> u64" where
  "fnv1a_loop h [] = h"
| "fnv1a_loop h (c # s) = fnv1a_loop ((h XOR of_char c) * 1099511628211) s"

definition fnv1a :: "string \<Rightarrow> u64" where
  "fnv1a s = fnv1a_loop 1469598103934665603 s"

definition key :: "string \<Rightarrow> int \<Rightarrow> u64" where
  "key t e = fnv1a t * 1000003 XOR ucast (word_of_int e :: u32)"

text \<open>\<^verbatim>\<open>memcpy\<close>, \<^verbatim>\<open>memcmp\<close> and \<^verbatim>\<open>madvise(MADV_DONTNEED)\<close> on private anonymous memory (the pages read as
  zero afterwards); \<open>a - lo < n\<close> on words says that \<open>a\<close> is in the \<open>n\<close> bytes from \<open>lo\<close>.\<close>

definition memcpy :: "memory \<Rightarrow> u64 \<Rightarrow> u64 \<Rightarrow> u64 \<Rightarrow> memory" where
  "memcpy m dest src n = (\<lambda>a. if a - dest < n then m (src + (a - dest)) else m a)"

definition memcmp_eq :: "memory \<Rightarrow> u64 \<Rightarrow> u64 \<Rightarrow> u64 \<Rightarrow> bool" where
  "memcmp_eq m a b n = list_all (\<lambda>i. m (a + of_nat i) = m (b + of_nat i)) [0 ..< unat n]"

definition madvise_dontneed :: "memory \<Rightarrow> u64 \<Rightarrow> u64 \<Rightarrow> memory" where
  "madvise_dontneed m addr len = (\<lambda>a. if a - addr < len then 0 else m a)"

text \<open>\<^verbatim>\<open>fill_slice\<close>: the result is \<open>None\<close> on \<^verbatim>\<open>abort()\<close>, else the returned flag and the object.\<close>

definition fill_slice ::
  "slice_cache \<Rightarrow> u64 \<Rightarrow> u64 option \<Rightarrow> u64 \<Rightarrow> u64 \<Rightarrow> (bool \<times> slice_cache) option" where
  "fill_slice c dest src src_off bytes =
     (case src of
        Some s \<Rightarrow>
          (let c = c\<lparr>mem := memcpy (mem c) dest s bytes\<rparr>
           in if verify_remaining c \<noteq> 0
              then (if memcmp_eq (mem c) dest s bytes
                    then Some (True, c\<lparr>verify_remaining := verify_remaining c - 1\<rparr>)
                    else None)
              else Some (True, c))
      | None \<Rightarrow>
          (case src_read c of
             Some read \<Rightarrow> (let (ok, m) = read (mem c) dest src_off bytes in Some (ok, c\<lparr>mem := m\<rparr>))
           | None \<Rightarrow> Some (False, c)))"

text \<open>Victim choice: the least recently used unshielded key, else the least recently used key.\<close>

definition choose_victim :: "slice_cache \<Rightarrow> u64 option" where
  "choose_victim c =
     (case find (\<lambda>k. k \<notin> shield c) (rev (lru_list c)) of
        Some k \<Rightarrow> Some k
      | None \<Rightarrow> if lru_list c = [] then None else Some (last (lru_list c)))"

definition evict_key :: "slice_cache \<Rightarrow> u64 \<Rightarrow> cache_entry \<Rightarrow> slice_cache" where
  "evict_key c victim_key e =
     c\<lparr>lru_list := removeAll victim_key (lru_list c),
       mem := madvise_dontneed (mem c) (page_floor (slice_addr e)) (span_pages (slice_addr e) (entry_bytes e)),
       used_bytes := used_bytes c - entry_bytes e,
       stats := (stats c)\<lparr>evictions := evictions (stats c) + 1\<rparr>,
       cmap := (cmap c)(victim_key := None)\<rparr>"

lemma choose_victim_mem: "choose_victim c = Some k \<Longrightarrow> k \<in> set (lru_list c)"
  by (auto simp: choose_victim_def find_Some_iff split: option.splits if_splits)
     (metis nth_mem set_rev length_rev)

lemma removeAll_shorter: "k \<in> set xs \<Longrightarrow> length (removeAll k xs) < length xs"
  by (simp add: length_removeAll_less)

text \<open>
  \<^verbatim>\<open>make_room_locked\<close>. Dereferencing the end iterator (a victim key without an entry) is undefined
  behaviour; the model ends there with \<open>None\<close>.
\<close>

function make_room_locked :: "slice_cache \<Rightarrow> u64 \<Rightarrow> slice_cache option" where
  "make_room_locked c bytes =
     (if used_bytes c + bytes > hard_cap_bytes c
      then (case choose_victim c of
              None \<Rightarrow> Some c
            | Some victim_key \<Rightarrow>
                (case cmap c victim_key of
                   None \<Rightarrow> None
                 | Some e \<Rightarrow> make_room_locked (evict_key c victim_key e) bytes))
      else Some c)"
  by pat_completeness auto
termination
  by (relation "measure (\<lambda>(c, b). length (lru_list c))")
     (auto simp: evict_key_def dest!: choose_victim_mem intro: removeAll_shorter)

declare make_room_locked.simps [simp del]

text \<open>The shield trim walks \<^verbatim>\<open>lru_\<close> from the back while the shield is larger than half its capacity.\<close>

fun trim_shield :: "u64 list \<Rightarrow> u64 set \<Rightarrow> u64 set" where
  "trim_shield [] S = S"
| "trim_shield (k # ks) S = (if card S > kShieldEntries div 2 then trim_shield ks (S - {k}) else S)"

definition commit_locked ::
  "slice_cache \<Rightarrow> u64 \<Rightarrow> string \<Rightarrow> int \<Rightarrow> u64 \<Rightarrow> u64 \<Rightarrow> slice_cache" where
  "commit_locked c k t e dest bytes =
     (let c = (if bytes \<le> hard_cap_bytes c
               then c\<lparr>lru_list := k # lru_list c,
                      cmap := (case cmap c k of
                                 None \<Rightarrow> (cmap c)(k \<mapsto> \<lparr>tensor = t, expert = e, slice_addr = dest, entry_bytes = bytes\<rparr>)
                               | Some _ \<Rightarrow> cmap c),
                      used_bytes := used_bytes c + bytes\<rparr>
               else c);
          c = c\<lparr>shield := insert k (shield c)\<rparr>
      in if card (shield c) > kShieldEntries
         then c\<lparr>shield := trim_shield (rev (lru_list c)) (shield c)\<rparr>
         else c)"

definition refresh_hit :: "slice_cache \<Rightarrow> u64 \<Rightarrow> slice_cache" where
  "refresh_hit c k =
     c\<lparr>lru_list := k # remove1 k (lru_list c), shield := insert k (shield c),
       stats := (stats c)\<lparr>hits := hits (stats c) + 1\<rparr>\<rparr>"

definition touch_locked ::
  "slice_cache \<Rightarrow> u64 \<Rightarrow> string \<Rightarrow> int \<Rightarrow> u64 \<Rightarrow> u64 option \<Rightarrow> u64 \<Rightarrow> u64 \<Rightarrow> (bool \<times> slice_cache) option" where
  "touch_locked c k t e dest src src_off bytes =
     (if cmap c k \<noteq> None then Some (True, refresh_hit c k)
      else case make_room_locked c bytes of
             None \<Rightarrow> None
           | Some c \<Rightarrow>
               (case fill_slice c dest src src_off bytes of
                  None \<Rightarrow> None
                | Some (False, c) \<Rightarrow> None
                | Some (True, c) \<Rightarrow>
                    let c = c\<lparr>stats := (stats c)\<lparr>misses := misses (stats c) + 1,
                                                 bytes_loaded := bytes_loaded (stats c) + bytes\<rparr>\<rparr>
                    in Some (False, commit_locked c k t e dest bytes)))"

definition touch :: "slice_cache \<Rightarrow> string \<Rightarrow> int \<Rightarrow> u64 \<Rightarrow> u64 \<Rightarrow> u64 \<Rightarrow> (bool \<times> slice_cache) option" where
  "touch c t e dest src bytes = touch_locked c (key t e) t e dest (Some src) 0 bytes"

definition touch_at :: "slice_cache \<Rightarrow> string \<Rightarrow> int \<Rightarrow> u64 \<Rightarrow> u64 \<Rightarrow> u64 \<Rightarrow> (bool \<times> slice_cache) option" where
  "touch_at c t e dest src_offset bytes = touch_locked c (key t e) t e dest None src_offset bytes"

text \<open>
  The batch operations. \<open>uniq\<close> is the enumeration of the \<^verbatim>\<open>unordered_set<int>\<close> built from the \<open>n\<close>
  requested experts; \<^verbatim>\<open>(size_t) e * bytes\<close> sign-extends the expert id.
\<close>

definition count_dedup :: "slice_cache \<Rightarrow> nat \<Rightarrow> nat \<Rightarrow> slice_cache" where
  "count_dedup c n n_uniq =
     c\<lparr>stats := (stats c)\<lparr>dedup_requests := dedup_requests (stats c) + word_of_int (int n - int n_uniq)\<rparr>\<rparr>"

fun touch_batch_loop ::
  "slice_cache \<Rightarrow> string \<Rightarrow> int list \<Rightarrow> u64 \<Rightarrow> u64 \<Rightarrow> u64 \<Rightarrow> nat \<Rightarrow> (nat \<times> slice_cache) option" where
  "touch_batch_loop c t [] dest_base src_base bytes n_miss = Some (n_miss, c)"
| "touch_batch_loop c t (e # es) dest_base src_base bytes n_miss =
     (case touch_locked c (key t e) t e (dest_base + word_of_int e * bytes)
             (Some (src_base + word_of_int e * bytes)) 0 bytes of
        None \<Rightarrow> None
      | Some (h, c) \<Rightarrow>
          touch_batch_loop c t es dest_base src_base bytes (if h then n_miss else n_miss + 1))"

definition touch_batch ::
  "(int list \<Rightarrow> int list) \<Rightarrow> slice_cache \<Rightarrow> string \<Rightarrow> int list \<Rightarrow> u64 \<Rightarrow> u64 \<Rightarrow> u64 \<Rightarrow> (nat \<times> slice_cache) option" where
  "touch_batch enum c t experts dest_base src_base bytes =
     (let uniq = enum experts
      in touch_batch_loop (count_dedup c (length experts) (length uniq)) t uniq dest_base src_base bytes 0)"

record miss =
  miss_k :: u64
  miss_expert :: int
  miss_dest :: u64
  miss_off :: u64

fun classify_misses ::
  "slice_cache \<Rightarrow> string \<Rightarrow> int list \<Rightarrow> u64 \<Rightarrow> u64 \<Rightarrow> u64 \<Rightarrow> (slice_cache \<times> miss list) option" where
  "classify_misses c t [] dest_base src_base bytes = Some (c, [])"
| "classify_misses c t (e # es) dest_base src_base bytes =
     (let k = key t e in
      if cmap c k \<noteq> None then classify_misses (refresh_hit c k) t es dest_base src_base bytes
      else case make_room_locked c bytes of
             None \<Rightarrow> None
           | Some c \<Rightarrow>
               (case classify_misses c t es dest_base src_base bytes of
                  None \<Rightarrow> None
                | Some (c, ms) \<Rightarrow>
                    Some (c, \<lparr>miss_k = k, miss_expert = e, miss_dest = dest_base + word_of_int e * bytes,
                              miss_off = src_base + word_of_int e * bytes\<rparr> # ms)))"

text \<open>The reads of a batch, in completion order; \<open>None\<close> when one of them fails.\<close>

fun fill_misses :: "source_read \<Rightarrow> u64 \<Rightarrow> miss list \<Rightarrow> memory \<Rightarrow> memory option" where
  "fill_misses read bytes [] m = Some m"
| "fill_misses read bytes (x # ms) m =
     (let (ok, m') = read m (miss_dest x) (miss_off x) bytes
      in if ok then fill_misses read bytes ms m' else None)"

fun commit_misses :: "slice_cache \<Rightarrow> string \<Rightarrow> u64 \<Rightarrow> miss list \<Rightarrow> slice_cache" where
  "commit_misses c t bytes [] = c"
| "commit_misses c t bytes (x # ms) =
     commit_misses (commit_locked c (miss_k x) t (miss_expert x) (miss_dest x) bytes) t bytes ms"

definition touch_batch_at ::
  "(int list \<Rightarrow> int list) \<Rightarrow> (miss list \<Rightarrow> miss list) \<Rightarrow> slice_cache \<Rightarrow> string \<Rightarrow> int list \<Rightarrow> u64 \<Rightarrow> u64 \<Rightarrow> u64
     \<Rightarrow> (nat \<times> slice_cache) option" where
  "touch_batch_at enum lanes c t experts dest_base src_base bytes =
     (let uniq = enum experts;
          c = count_dedup c (length experts) (length uniq)
      in case classify_misses c t uniq dest_base src_base bytes of
           None \<Rightarrow> None
         | Some (c, []) \<Rightarrow> Some (0, c)
         | Some (c, ms) \<Rightarrow>
             (case src_read c of
                None \<Rightarrow> None
              | Some read \<Rightarrow>
                  (case fill_misses read bytes (lanes ms) (mem c) of
                     None \<Rightarrow> None
                   | Some m \<Rightarrow>
                       let c = commit_misses (c\<lparr>mem := m\<rparr>) t bytes ms
                       in Some (length ms,
                            c\<lparr>stats := (stats c)\<lparr>misses := misses (stats c) + of_nat (length ms),
                               bytes_loaded := bytes_loaded (stats c) + of_nat (length ms) * bytes\<rparr>\<rparr>))))"

text \<open>
  \<^verbatim>\<open>prefetch_batch_at\<close> holds the lock in its first and third phase only, so the phases are separate
  steps between which demand operations of another thread may run.
\<close>

definition prefetch_absent :: "(int list \<Rightarrow> int list) \<Rightarrow> slice_cache \<Rightarrow> string \<Rightarrow> int list \<Rightarrow> int list" where
  "prefetch_absent enum c t experts = filter (\<lambda>e. cmap c (key t e) = None) (enum experts)"

definition prefetch_jobs :: "string \<Rightarrow> int list \<Rightarrow> u64 \<Rightarrow> u64 \<Rightarrow> u64 \<Rightarrow> miss list" where
  "prefetch_jobs t absent dest_base src_base bytes =
     map (\<lambda>e. \<lparr>miss_k = key t e, miss_expert = e, miss_dest = dest_base + word_of_int e * bytes,
               miss_off = src_base + word_of_int e * bytes\<rparr>) absent"

fun prefetch_read :: "source_read \<Rightarrow> u64 \<Rightarrow> miss list \<Rightarrow> memory \<Rightarrow> bool \<times> memory" where
  "prefetch_read read bytes [] m = (True, m)"
| "prefetch_read read bytes (x # ms) m =
     (let (ok, m') = read m (miss_dest x) (miss_off x) bytes; (oks, m'') = prefetch_read read bytes ms m'
      in (ok \<and> oks, m''))"

fun prefetch_commit :: "slice_cache \<Rightarrow> string \<Rightarrow> u64 \<Rightarrow> miss list \<Rightarrow> slice_cache option" where
  "prefetch_commit c t bytes [] = Some c"
| "prefetch_commit c t bytes (x # ms) =
     (if cmap c (miss_k x) \<noteq> None then prefetch_commit c t bytes ms
      else case make_room_locked c bytes of
             None \<Rightarrow> None
           | Some c \<Rightarrow>
               (let c = commit_locked c (miss_k x) t (miss_expert x) (miss_dest x) bytes
                in prefetch_commit (c\<lparr>stats := (stats c)\<lparr>prefetched := prefetched (stats c) + 1\<rparr>\<rparr>) t bytes ms))"

definition prefetch_batch_at ::
  "(int list \<Rightarrow> int list) \<Rightarrow> (miss list \<Rightarrow> miss list) \<Rightarrow> slice_cache \<Rightarrow> string \<Rightarrow> int list \<Rightarrow> u64 \<Rightarrow> u64 \<Rightarrow> u64
     \<Rightarrow> slice_cache option" where
  "prefetch_batch_at enum lanes c t experts dest_base src_base bytes =
     (case src_read c of
        None \<Rightarrow> Some c
      | Some read \<Rightarrow>
          (let absent = prefetch_absent enum c t experts
           in if absent = [] then Some c
              else let jobs = prefetch_jobs t absent dest_base src_base bytes;
                       (ok, m) = prefetch_read read bytes (lanes jobs) (mem c);
                       c = c\<lparr>mem := m\<rparr>
                   in if \<not> ok then Some c else prefetch_commit c t bytes jobs))"

section \<open>Invariant and abstraction\<close>

definition alpha :: "slice_cache \<Rightarrow> u64 lru" where
  "alpha c = map (\<lambda>k. (k, unat (entry_bytes (the (cmap c k))))) (lru_list c)"

text \<open>The shielded keys form a prefix (the recent part) of the recency list.\<close>

definition shield_split :: "u64 list \<Rightarrow> u64 set \<Rightarrow> bool" where
  "shield_split xs S \<longleftrightarrow> (\<exists>p q. xs = p @ q \<and> set p \<subseteq> S \<and> set q \<inter> S = {})"

definition cache_inv :: "slice_cache \<Rightarrow> bool" where
  "cache_inv c \<longleftrightarrow> distinct (lru_list c) \<and> dom (cmap c) = set (lru_list c)
     \<and> unat (used_bytes c) = lru_bytes (alpha c)
     \<and> shield_split (lru_list c) (shield c)"

lemma lru_bytes_butlast: "lru_bytes (butlast xs) \<le> lru_bytes xs"
  by (cases xs rule: rev_cases) simp_all

lemma removeAll_is_filter: "removeAll k xs = filter (\<lambda>x. x \<noteq> k) xs"
  by (induction xs) auto

lemma fst_alpha [simp]: "map fst (alpha c) = lru_list c"
  by (simp add: alpha_def comp_def)

lemma alpha_cong:
  "lru_list c = lru_list d \<Longrightarrow> cmap c = cmap d \<Longrightarrow> alpha c = alpha d"
  by (simp add: alpha_def)

lemma map_of_keyed: "map_of (map (\<lambda>k. (k, f k)) xs) k = (if k \<in> set xs then Some (f k) else None)"
  by (induction xs) auto

lemma cache_inv_resident: "cache_inv c \<Longrightarrow> k \<in> set (lru_list c) \<longleftrightarrow> (\<exists>e. cmap c k = Some e)"
  by (auto simp: cache_inv_def dom_def)

lemma map_of_alpha:
  "cache_inv c \<Longrightarrow> map_of (alpha c) k = map_option (\<lambda>e. unat (entry_bytes e)) (cmap c k)"
  using cache_inv_resident [of c k] by (cases "cmap c k") (auto simp: alpha_def map_of_keyed)

lemma shield_split_last: "shield_split xs S \<Longrightarrow> xs \<noteq> [] \<Longrightarrow>
  (case find (\<lambda>k. k \<notin> S) (rev xs) of Some k \<Rightarrow> k = last xs | None \<Rightarrow> True)"
proof -
  assume "shield_split xs S" and ne: "xs \<noteq> []"
  then obtain p q where xs: "xs = p @ q" "set p \<subseteq> S" "set q \<inter> S = {}" by (auto simp: shield_split_def)
  show ?thesis
  proof (cases q rule: rev_cases)
    case Nil
    with xs have "find (\<lambda>k. k \<notin> S) (rev xs) = None" by (auto simp: find_None_iff)
    then show ?thesis by simp
  next
    case (snoc q' y)
    with xs show ?thesis by auto
  qed
qed

lemma choose_victim_lru:
  "cache_inv c \<Longrightarrow> choose_victim c = (if lru_list c = [] then None else Some (last (lru_list c)))"
  using shield_split_last [of "lru_list c" "shield c"]
  by (auto simp: choose_victim_def cache_inv_def split: option.splits)

lemma removeAll_last: "distinct xs \<Longrightarrow> xs \<noteq> [] \<Longrightarrow> removeAll (last xs) xs = butlast xs"
  by (cases xs rule: rev_cases) auto

lemma shield_split_butlast: "shield_split xs S \<Longrightarrow> shield_split (butlast xs) S"
proof -
  assume "shield_split xs S"
  then obtain p q where xs: "xs = p @ q" "set p \<subseteq> S" "set q \<inter> S = {}" by (auto simp: shield_split_def)
  show ?thesis
  proof (cases q rule: rev_cases)
    case Nil
    with xs show ?thesis
      unfolding shield_split_def by (intro exI [of _ "butlast p"] exI [of _ "[]"]) (auto dest: in_set_butlastD)
  next
    case (snoc q' y)
    with xs show ?thesis
      unfolding shield_split_def by (intro exI [of _ p] exI [of _ q']) (auto simp: butlast_append)
  qed
qed

lemma shield_split_insert_fresh:
  "shield_split xs S \<Longrightarrow> k \<notin> set xs \<Longrightarrow> shield_split xs (insert k S)"
  unfolding shield_split_def by fastforce

lemma shield_split_filter:
  "shield_split xs S \<Longrightarrow> shield_split (k # removeAll k xs) (insert k S)"
proof -
  assume "shield_split xs S"
  then obtain p q where xs: "xs = p @ q" "set p \<subseteq> S" "set q \<inter> S = {}" by (auto simp: shield_split_def)
  then show ?thesis
    unfolding shield_split_def
    by (intro exI [of _ "k # removeAll k p"] exI [of _ "removeAll k q"]) auto
qed

lemma trim_shield_take: "\<exists>n. trim_shield ks S = S - set (take n ks)"
proof (induction ks arbitrary: S)
  case Nil
  then show ?case by simp
next
  case (Cons k ks)
  obtain n where "trim_shield ks (S - {k}) = (S - {k}) - set (take n ks)" using Cons by blast
  then have "trim_shield (k # ks) S = S - set (take (if card S > kShieldEntries div 2 then Suc n else 0) (k # ks))"
    by auto
  then show ?case by blast
qed

lemma shield_split_trim:
  assumes "shield_split xs S" "distinct xs"
  shows "shield_split xs (trim_shield (rev xs) S)"
proof -
  obtain n where n: "trim_shield (rev xs) S = S - set (take n (rev xs))" using trim_shield_take by blast
  define m where "m = length xs - n"
  have B: "set (take n (rev xs)) = set (drop m xs)" by (simp add: m_def take_rev)
  obtain p q where xs: "xs = p @ q" "set p \<subseteq> S" "set q \<inter> S = {}" using assms(1) by (auto simp: shield_split_def)
  have "set (take m p) \<inter> set (drop m xs) = {}"
    using set_take_disj_set_drop_if_distinct [OF assms(2), of m m] xs(1) by auto
  moreover have "set (drop m p) \<subseteq> set (drop m xs)" using xs(1) by auto
  ultimately show ?thesis
    unfolding n B shield_split_def using xs
    by (intro exI [of _ "take m p"] exI [of _ "drop m p @ q"])
       (auto dest: in_set_takeD)
qed


lemma evict_key_fields [simp]:
  "hard_cap_bytes (evict_key c k e) = hard_cap_bytes c" "src_read (evict_key c k e) = src_read c"
  "shield (evict_key c k e) = shield c" "verify_remaining (evict_key c k e) = verify_remaining c"
  by (simp_all add: evict_key_def)

lemma evict_last:
  assumes inv: "cache_inv c" and ne: "lru_list c \<noteq> []" and e: "cmap c (last (lru_list c)) = Some e"
  shows "alpha (evict_key c (last (lru_list c)) e) = butlast (alpha c)
    \<and> cache_inv (evict_key c (last (lru_list c)) e)"
proof -
  let ?k = "last (lru_list c)" and ?xs = "butlast (lru_list c)"
  let ?c = "evict_key c ?k e"
  have d: "distinct (lru_list c)" "dom (cmap c) = set (lru_list c)" "shield_split (lru_list c) (shield c)"
    and u: "unat (used_bytes c) = lru_bytes (alpha c)"
    using inv by (simp_all add: cache_inv_def)
  have xs: "lru_list c = ?xs @ [?k]" using ne by simp
  have lru: "lru_list ?c = ?xs" using d(1) ne by (simp add: evict_key_def removeAll_last)
  have nin: "?k \<notin> set ?xs" using d(1) xs by (metis distinct_append not_distinct_conv_prefix)
  have al: "alpha ?c = butlast (alpha c)"
  proof -
    have "alpha ?c = map (\<lambda>k. (k, unat (entry_bytes (the (cmap c k))))) ?xs"
      unfolding alpha_def lru using nin by (intro map_cong) (auto simp: evict_key_def)
    then show ?thesis by (simp add: alpha_def map_butlast)
  qed
  have "alpha c = butlast (alpha c) @ [(?k, unat (entry_bytes e))]"
  proof -
    have "alpha c = map (\<lambda>k. (k, unat (entry_bytes (the (cmap c k))))) (?xs @ [?k])"
      by (simp only: alpha_def xs [symmetric])
    then show ?thesis by (simp add: alpha_def map_butlast e)
  qed
  then have tot: "lru_bytes (alpha c) = lru_bytes (butlast (alpha c)) + unat (entry_bytes e)"
    by (metis lru_bytes_simps add.right_neutral snd_conv)
  then have "unat (used_bytes ?c) = lru_bytes (alpha ?c)"
    using u al by (simp add: evict_key_def unat_sub_if' )
  moreover have "dom (cmap ?c) = set ?xs"
    using d(2) nin arg_cong [OF xs, of set] by (auto simp: evict_key_def)
  moreover have "distinct ?xs" using d(1) by (rule distinct_butlast)
  ultimately show ?thesis
    using al lru shield_split_butlast [OF d(3)] by (simp add: cache_inv_def)
qed

lemma make_room_refines:
  "cache_inv c \<Longrightarrow> unat (used_bytes c) + unat bytes < 2 ^ 64 \<Longrightarrow>
   \<exists>c'. make_room_locked c bytes = Some c' \<and> cache_inv c'
     \<and> alpha c' = lru_evict (unat (hard_cap_bytes c)) (unat bytes) (alpha c)
     \<and> hard_cap_bytes c' = hard_cap_bytes c \<and> src_read c' = src_read c
     \<and> shield c' = shield c \<and> verify_remaining c' = verify_remaining c
     \<and> cmap c' \<subseteq>\<^sub>m cmap c"
proof (induction c bytes rule: make_room_locked.induct)
  case (1 c bytes)
  let ?cap = "unat (hard_cap_bytes c)" and ?b = "unat bytes"
  have u: "unat (used_bytes c) = lru_bytes (alpha c)" using "1.prems"(1) by (simp add: cache_inv_def)
  have guard: "used_bytes c + bytes > hard_cap_bytes c \<longleftrightarrow> ?cap < lru_bytes (alpha c) + ?b"
    using "1.prems"(2) u by (simp add: word_less_nat_alt unat_add_nowrap)
  have nil: "alpha c = [] \<longleftrightarrow> lru_list c = []" by (simp add: alpha_def)
  show ?case
  proof (cases "?cap < lru_bytes (alpha c) + ?b \<and> lru_list c \<noteq> []")
    case False
    then have "make_room_locked c bytes = Some c"
      using guard choose_victim_lru [OF "1.prems"(1)] by (auto simp: make_room_locked.simps [of c bytes])
    moreover have "lru_evict ?cap ?b (alpha c) = alpha c"
      using False nil by (subst lru_evict.simps) auto
    ultimately show ?thesis using "1.prems"(1) by simp
  next
    case True
    let ?k = "last (lru_list c)"
    obtain e where e: "cmap c ?k = Some e"
      using True cache_inv_resident [OF "1.prems"(1), of ?k] by auto
    let ?d = "evict_key c ?k e"
    have v: "choose_victim c = Some ?k" using True choose_victim_lru [OF "1.prems"(1)] by simp
    have mr: "make_room_locked c bytes = make_room_locked ?d bytes"
      using True guard v e by (simp add: make_room_locked.simps [of c bytes])
    have ev: "alpha ?d = butlast (alpha c)" "cache_inv ?d"
      using evict_last [OF "1.prems"(1) _ e] True by auto
    have "lru_bytes (alpha ?d) \<le> lru_bytes (alpha c)"
      unfolding ev(1) by (rule lru_bytes_butlast)
    then have nw: "unat (used_bytes ?d) + ?b < 2 ^ 64"
      using ev(2) u "1.prems"(2) by (simp add: cache_inv_def)
    have g: "used_bytes c + bytes > hard_cap_bytes c" using True guard by simp
    from "1.IH" [OF g v e ev(2) nw]
    obtain c' where c': "make_room_locked ?d bytes = Some c'" "cache_inv c'"
      "alpha c' = lru_evict (unat (hard_cap_bytes ?d)) ?b (alpha ?d)"
      "hard_cap_bytes c' = hard_cap_bytes ?d" "src_read c' = src_read ?d"
      "shield c' = shield ?d" "verify_remaining c' = verify_remaining ?d" "cmap c' \<subseteq>\<^sub>m cmap ?d"
      by blast
    have le: "cmap c' \<subseteq>\<^sub>m cmap c"
      using c'(8) by (rule map_le_trans) (auto simp: evict_key_def map_le_def)
    have "lru_evict ?cap ?b (alpha c) = alpha c'"
      using True nil c'(3) ev(1) lru_evict_step [of "alpha c" ?cap ?b] by simp
    then show ?thesis
      using c' mr le by (intro exI [of _ c']) simp
  qed
qed

lemma alpha_simps [simp]:
  "alpha (c\<lparr>stats := s\<rparr>) = alpha c" "alpha (c\<lparr>mem := m\<rparr>) = alpha c"
  "alpha (c\<lparr>verify_remaining := v\<rparr>) = alpha c" "alpha (c\<lparr>shield := S\<rparr>) = alpha c"
  by (simp_all add: alpha_def)

lemma cache_inv_simps [simp]:
  "cache_inv (c\<lparr>stats := s\<rparr>) = cache_inv c" "cache_inv (c\<lparr>mem := m\<rparr>) = cache_inv c"
  "cache_inv (c\<lparr>verify_remaining := v\<rparr>) = cache_inv c"
  by (simp_all add: cache_inv_def)

lemma commit_fields [simp]:
  "hard_cap_bytes (commit_locked c k t e d b) = hard_cap_bytes c"
  "src_read (commit_locked c k t e d b) = src_read c"
  "verify_remaining (commit_locked c k t e d b) = verify_remaining c"
  "mem (commit_locked c k t e d b) = mem c" "stats (commit_locked c k t e d b) = stats c"
  by (simp_all add: commit_locked_def Let_def)

lemma commit_cmap:
  "cmap c k = None \<Longrightarrow> cmap (commit_locked c k t e d b) =
     (if b \<le> hard_cap_bytes c
      then (cmap c)(k \<mapsto> \<lparr>tensor = t, expert = e, slice_addr = d, entry_bytes = b\<rparr>) else cmap c)"
  by (simp add: commit_locked_def Let_def)

lemma commit_lru:
  "lru_list (commit_locked c k t e d b) = (if b \<le> hard_cap_bytes c then k # lru_list c else lru_list c)"
  by (simp add: commit_locked_def Let_def)

lemma commit_refines:
  assumes inv: "cache_inv c" and k: "cmap c k = None" and nw: "unat (used_bytes c) + unat b < 2 ^ 64"
  shows "cache_inv (commit_locked c k t e d b)
    \<and> alpha (commit_locked c k t e d b) =
        (if unat b \<le> unat (hard_cap_bytes c) then (k, unat b) # alpha c else alpha c)"
proof -
  let ?c = "commit_locked c k t e d b"
  have nin: "k \<notin> set (lru_list c)" using cache_inv_resident [OF inv] k by auto
  have d: "distinct (lru_list c)" "dom (cmap c) = set (lru_list c)"
    "shield_split (lru_list c) (shield c)" "unat (used_bytes c) = lru_bytes (alpha c)"
    using inv by (simp_all add: cache_inv_def)
  have al: "alpha ?c = (if unat b \<le> unat (hard_cap_bytes c) then (k, unat b) # alpha c else alpha c)"
    using nin by (auto simp: alpha_def commit_lru commit_cmap [OF k] word_le_nat_alt)
  have u: "unat (used_bytes ?c) = lru_bytes (alpha ?c)"
    unfolding al using d(4) unat_add_nowrap [OF nw]
    by (simp add: commit_locked_def Let_def word_le_nat_alt)
  have dl: "distinct (lru_list ?c)" using d(1) nin by (simp add: commit_lru)
  have sp: "shield_split (lru_list ?c) (insert k (shield c))"
    using shield_split_filter [OF d(3), of k] shield_split_insert_fresh [OF d(3) nin]
      removeAll_id [OF nin]
    by (auto simp: commit_lru)
  have "shield_split (lru_list ?c) (shield ?c)"
    using sp shield_split_trim [OF sp dl] by (auto simp: commit_locked_def Let_def)
  then show ?thesis
    using al u dl d(2) by (simp add: cache_inv_def commit_lru commit_cmap [OF k])
qed

lemma refresh_refines:
  assumes inv: "cache_inv c" and k: "cmap c k = Some e"
  shows "cache_inv (refresh_hit c k)
    \<and> alpha (refresh_hit c k) = (k, unat (entry_bytes e)) # filter (\<lambda>p. fst p \<noteq> k) (alpha c)"
proof -
  let ?c = "refresh_hit c k"
  have d: "distinct (lru_list c)" "dom (cmap c) = set (lru_list c)"
    "shield_split (lru_list c) (shield c)" "unat (used_bytes c) = lru_bytes (alpha c)"
    using inv by (simp_all add: cache_inv_def)
  have mem: "k \<in> set (lru_list c)" using cache_inv_resident [OF inv] k by auto
  have lru: "lru_list ?c = k # removeAll k (lru_list c)"
    using d(1) by (simp add: refresh_hit_def distinct_remove1_removeAll)
  have al: "alpha ?c = (k, unat (entry_bytes e)) # filter (\<lambda>p. fst p \<noteq> k) (alpha c)"
    unfolding alpha_def lru using k by (simp add: refresh_hit_def filter_map comp_def removeAll_is_filter)
  have "map_of (alpha c) k = Some (unat (entry_bytes e))" using map_of_alpha [OF inv] k by simp
  then have "lru_bytes (alpha c) = lru_bytes (alpha ?c)"
    unfolding al using total_filter_split [of "alpha c" k] d(1) by simp
  moreover have "distinct (lru_list ?c)" "set (lru_list ?c) = set (lru_list c)"
    unfolding lru using d(1) mem by (auto simp: distinct_removeAll)
  moreover have "shield_split (lru_list ?c) (shield ?c)"
    unfolding lru using shield_split_filter [OF d(3)] by (simp add: refresh_hit_def)
  ultimately show ?thesis
    using al d by (simp add: cache_inv_def refresh_hit_def)
qed

section \<open>A touch refines the exact LRU specification\<close>

lemma fill_slice_frame:
  "fill_slice c dest src off b = Some (ok, c') \<Longrightarrow>
   \<exists>m v. c' = c\<lparr>mem := m, verify_remaining := v\<rparr>"
proof -
  assume "fill_slice c dest src off b = Some (ok, c')"
  then have "c' = c\<lparr>mem := mem c', verify_remaining := verify_remaining c'\<rparr>"
    by (auto simp: fill_slice_def Let_def split: option.splits if_splits prod.splits)
  then show ?thesis by blast
qed

lemma touch_locked_refines:
  assumes inv: "cache_inv c" and nw: "unat (used_bytes c) + unat b < 2 ^ 64"
    and t: "touch_locked c k t e dest src off b = Some (h, c')"
  shows "lru_touch (unat (hard_cap_bytes c)) k (unat b) (alpha c) = (h, alpha c')
    \<and> cache_inv c' \<and> hard_cap_bytes c' = hard_cap_bytes c"
proof (cases "cmap c k")
  case (Some e)
  then have "h" "c' = refresh_hit c k" using t by (auto simp: touch_locked_def)
  with refresh_refines [OF inv Some] map_of_alpha [OF inv, of k] Some show ?thesis
    by (auto simp: lru_touch_def refresh_hit_def)
next
  case None
  obtain c1 where c1: "make_room_locked c b = Some c1" "cache_inv c1"
    "alpha c1 = lru_evict (unat (hard_cap_bytes c)) (unat b) (alpha c)"
    "hard_cap_bytes c1 = hard_cap_bytes c" "cmap c1 \<subseteq>\<^sub>m cmap c"
    using make_room_refines [OF inv nw] by blast
  obtain c2 where f: "fill_slice c1 dest src off b = Some (True, c2)" and h: "\<not> h"
    and c': "c' = commit_locked (c2\<lparr>stats := (stats c2)\<lparr>misses := misses (stats c2) + 1,
               bytes_loaded := bytes_loaded (stats c2) + b\<rparr>\<rparr>) k t e dest b"
    using t None c1(1) by (auto simp: touch_locked_def Let_def split: option.splits prod.splits bool.splits)
  obtain m v where c2: "c2 = c1\<lparr>mem := m, verify_remaining := v\<rparr>" using fill_slice_frame [OF f] by blast
  have "lru_bytes (alpha c1) \<le> lru_bytes (alpha c)"
    unfolding c1(3) using lru_evict_prefix [of "alpha c"] by (metis le_add1 lru_bytes_simps(3))
  then have "unat (used_bytes c1) + unat b < 2 ^ 64"
    using nw inv c1(2) by (simp add: cache_inv_def)
  moreover have "cmap c1 k = None"
    using None c1(5) by (auto simp: map_le_def dom_def)
  ultimately show ?thesis
    unfolding c' c2 using commit_refines [of "c1\<lparr>mem := m, verify_remaining := v, stats := s\<rparr>" k b t e dest for s]
      c1 h None map_of_alpha [OF inv, of k]
    by (simp add: lru_touch_def lru_insert_def Let_def)
qed

text \<open>Requests are \<^verbatim>\<open>(tensor, expert, dest, src_offset, bytes)\<close>.\<close>

type_synonym request = "string \<times> int \<times> u64 \<times> u64 \<times> u64"

definition req_key :: "request \<Rightarrow> u64" where
  "req_key r = (case r of (t, e, _, _, _) \<Rightarrow> key t e)"

definition req_bytes :: "request \<Rightarrow> u64" where
  "req_bytes r = (case r of (_, _, _, _, b) \<Rightarrow> b)"

definition serve_at :: "slice_cache \<Rightarrow> request \<Rightarrow> (bool \<times> slice_cache) option" where
  "serve_at c r = (case r of (t, e, dest, off, b) \<Rightarrow> touch_at c t e dest off b)"

definition serve_mem :: "slice_cache \<Rightarrow> request \<Rightarrow> (bool \<times> slice_cache) option" where
  "serve_mem c r = (case r of (t, e, dest, src, b) \<Rightarrow> touch c t e dest src b)"

text \<open>Byte counts below \<open>2\<^sup>6\<^sup>3\<close>: no machine has more, and then \<^verbatim>\<open>used_ + bytes\<close> cannot wrap.\<close>

definition req_ok :: "request \<Rightarrow> bool" where
  "req_ok r \<longleftrightarrow> uint (req_bytes r) < 2 ^ 63"

definition bounded_inv :: "slice_cache \<Rightarrow> bool" where
  "bounded_inv c \<longleftrightarrow> cache_inv c \<and> uint (hard_cap_bytes c) < 2 ^ 63 \<and> used_bytes c \<le> hard_cap_bytes c"

lemma uint_unat_less: "uint (x :: u64) < 9223372036854775808 \<longleftrightarrow> unat x < 9223372036854775808"
proof -
  have "uint x = int (unat x)" by simp
  then show ?thesis by linarith
qed

lemma touch_locked_bounded:
  assumes inv: "bounded_inv c" and b: "uint b < 2 ^ 63"
    and t: "touch_locked c k t e dest src off b = Some (h, c')"
  shows "lru_touch (unat (hard_cap_bytes c)) k (unat b) (alpha c) = (h, alpha c')
    \<and> bounded_inv c' \<and> hard_cap_bytes c' = hard_cap_bytes c"
proof -
  have i: "cache_inv c" "unat (hard_cap_bytes c) < 2 ^ 63" "unat (used_bytes c) \<le> unat (hard_cap_bytes c)"
    using inv by (simp_all add: bounded_inv_def uint_unat_less word_le_nat_alt)
  then have "unat (used_bytes c) + unat b < 2 ^ 64" using b by (simp add: uint_unat_less)
  note r = touch_locked_refines [OF i(1) this t]
  have "lru_bytes (snd (lru_touch (unat (hard_cap_bytes c)) k (unat b) (alpha c))) \<le> unat (hard_cap_bytes c)"
    using lru_touch_total [of "alpha c" "unat (hard_cap_bytes c)" k "unat b"] i by (simp add: cache_inv_def)
  with r inv show ?thesis by (simp add: bounded_inv_def cache_inv_def word_le_nat_alt)
qed

lemma bounded_distinct: "bounded_inv c \<Longrightarrow> distinct (lru_list c)"
  by (simp add: bounded_inv_def cache_inv_def)

interpretation at: lru_impl serve_at alpha "\<lambda>c. unat (hard_cap_bytes c)" bounded_inv req_ok req_key "\<lambda>r. unat (req_bytes r)"
  by unfold_locales
     (auto simp: serve_at_def touch_at_def req_ok_def req_key_def req_bytes_def
        dest: touch_locked_bounded bounded_distinct split: prod.splits)

interpretation mcp: lru_impl serve_mem alpha "\<lambda>c. unat (hard_cap_bytes c)" bounded_inv req_ok req_key "\<lambda>r. unat (req_bytes r)"
  by unfold_locales
     (auto simp: serve_mem_def touch_def req_ok_def req_key_def req_bytes_def
        dest: touch_locked_bounded bounded_distinct split: prod.splits)

lemma bounded_inv_new: "uint cap < 2 ^ 63 \<Longrightarrow> bounded_inv (new_slice_cache cap m)"
  by (auto simp: bounded_inv_def cache_inv_def new_slice_cache_def alpha_def shield_split_def)

lemma alpha_new [simp]: "alpha (new_slice_cache cap m) = []"
  by (simp add: alpha_def new_slice_cache_def)

lemma new_cap [simp]: "hard_cap_bytes (new_slice_cache cap m) = cap"
  by (simp add: new_slice_cache_def)

text \<open>Setting the fill backend touches no other field.\<close>

lemma set_source_simps [simp]:
  "alpha (set_source c r) = alpha c" "hard_cap_bytes (set_source c r) = hard_cap_bytes c"
  "bounded_inv (set_source c r) = bounded_inv c" "cmap (set_source c r) = cmap c" "mem (set_source c r) = mem c"
  "lru_list (set_source c r) = lru_list c"
  by (simp_all add: set_source_def alpha_def bounded_inv_def cache_inv_def)
section \<open>Properties of the touch operations\<close>

lemma bounded_used: "bounded_inv c \<Longrightarrow> used_bytes c \<le> hard_cap_bytes c \<and> unat (used_bytes c) = lru_bytes (alpha c)"
  by (simp add: bounded_inv_def cache_inv_def)

text \<open>
  Claim C5. Every run of demand touches that the program completes behaves as an exact
  byte-bounded LRU list: the hit/miss answers and the final recency list are those of the
  specification, the accounted bytes are the bytes of the resident entries and never exceed the hard cap.
  (So the shield never changes which entry is evicted.)
\<close>

theorem serve_at_exact_lru:
  assumes "uint cap < 2 ^ 63" "list_all req_ok rs"
    "run_trace serve_at (set_source (new_slice_cache cap m) rd) rs = Some (hs, c)"
  shows "lru_run (unat cap) [] (map (\<lambda>r. (req_key r, unat (req_bytes r))) rs) = (hs, alpha c)
    \<and> unat (used_bytes c) = lru_bytes (alpha c) \<and> used_bytes c \<le> cap
    \<and> (\<forall>k. cmap c k \<noteq> None \<longleftrightarrow> k \<in> set (lru_list c))"
proof -
  let ?c = "set_source (new_slice_cache cap m) rd"
  have i: "bounded_inv ?c" using bounded_inv_new [OF assms(1)] by simp
  have r: "lru_run (unat cap) [] (map (\<lambda>r. (req_key r, unat (req_bytes r))) rs) = (hs, alpha c) \<and>
      bounded_inv c \<and> unat (hard_cap_bytes c) = unat cap"
    using at.run_refines [OF i _ assms(3)] assms(2) by (simp add: list_all_iff)
  then have "hard_cap_bytes c = cap" by (simp add: word_unat_eq_iff)
  with r bounded_used [of c] cache_inv_resident [of c] show ?thesis
    by (auto simp: bounded_inv_def)
qed

text \<open>A concrete run: a 3-byte cache, unit requests, the fourth distinct key evicts the first.\<close>

definition read_zero :: source_read where
  "read_zero m dest off n = (True, memcpy m dest off n)"

lemma serve_at_exact_lru_witness:
  "\<exists>c. run_trace serve_at (set_source (new_slice_cache 2 (\<lambda>_. 7)) read_zero)
      [(''t'', 0, 0, 0, 1), (''t'', 1, 4096, 1, 1), (''t'', 0, 0, 0, 1), (''t'', 2, 8192, 2, 1), (''t'', 1, 4096, 1, 1)] =
      Some ([False, False, True, False, False], c) \<and> used_bytes c \<le> 2"
proof -
  let ?rs = "[(''t'', 0, 0, 0, 1), (''t'', 1, 4096, 1, 1), (''t'', 0, 0, 0, 1), (''t'', 2, 8192, 2, 1), (''t'', 1, 4096, 1, 1)] :: request list"
  let ?c0 = "set_source (new_slice_cache 2 (\<lambda>_. 7)) read_zero"
  have "map_option fst (run_trace serve_at ?c0 ?rs) = Some [False, False, True, False, False]"
    by code_simp
  then obtain c where c: "run_trace serve_at ?c0 ?rs = Some ([False, False, True, False, False], c)"
    by auto
  have "used_bytes c \<le> 2"
    using serve_at_exact_lru [OF _ _ c] by (simp add: req_ok_def req_bytes_def)
  with c show ?thesis by blast
qed
end
