(* ===== verification/Slice_Batch.thy ===== *)
theory Slice_Batch
  imports Slice_Cache "HOL-Library.Sublist"
begin

unbundle bit_operations_syntax

text \<open>
  The batch operations of the slice cache: keys of one tensor are distinct, a batch that fits leaves
  every requested expert resident, and what \<^verbatim>\<open>touch_batch_at\<close> does to the byte accounting. The enumeration
  order of the \<^verbatim>\<open>unordered_set\<close> is an argument; \<open>enumerates\<close> is what the code relies on.
\<close>

definition enumerates :: "int list \<Rightarrow> int list \<Rightarrow> bool" where
  "enumerates uniq experts \<longleftrightarrow> distinct uniq \<and> set uniq = set experts"

definition int32 :: "int \<Rightarrow> bool" where
  "int32 e \<longleftrightarrow> - 2147483648 \<le> e \<and> e < 2147483648"

section \<open>Keys\<close>

lemma word_of_int_int32_inj:
  "int32 a \<Longrightarrow> int32 b \<Longrightarrow> (word_of_int a :: u32) = word_of_int b \<Longrightarrow> a = b"
proof -
  assume r: "int32 a" "int32 b" and w: "(word_of_int a :: u32) = word_of_int b"
  have "uint (word_of_int a :: u32) = uint (word_of_int b :: u32)" using w by simp
  then have "4294967296 dvd a - b" by (simp add: uint_word_of_int mod_eq_dvd_iff)
  moreover have "\<bar>a - b\<bar> < 4294967296" using r by (auto simp: int32_def)
  ultimately show ?thesis using dvd_imp_le_int [of "a - b" 4294967296] by fastforce
qed

lemma uint_ucast32: "uint (ucast (x :: u32) :: u64) = uint x"
  using uint_lt2p [of x] by (simp add: unsigned_ucast_eq take_bit_int_eq_self)

lemma nat_mult_le_uint: "int n * uint (b :: u64) \<le> uint (c :: u64) \<Longrightarrow> n * unat b \<le> unat c"
  by (metis of_nat_le_iff of_nat_mult uint_nat)

lemma key_inj: "int32 a \<Longrightarrow> int32 b \<Longrightarrow> key t a = key t b \<Longrightarrow> a = b"
proof -
  assume r: "int32 a" "int32 b" and k: "key t a = key t b"
  let ?h = "fnv1a t * 1000003"
  have "?h XOR (?h XOR ucast (word_of_int a :: u32)) = ?h XOR (?h XOR ucast (word_of_int b :: u32))"
    using k by (simp only: key_def)
  then have "(ucast (word_of_int a :: u32) :: u64) = ucast (word_of_int b :: u32)"
    by (simp only: xor.assoc [symmetric] xor_self_eq xor.left_neutral)
  then have "(word_of_int a :: u32) = word_of_int b"
    by (metis uint_ucast32 word_uint_eqI)
  with r show ?thesis by (rule word_of_int_int32_inj)
qed

lemma key_distinct: "distinct es \<Longrightarrow> list_all int32 es \<Longrightarrow> distinct (map (key t) es)"
  by (auto simp: distinct_map inj_on_def list_all_iff intro: key_inj)

section \<open>The one-by-one batch\<close>

definition batch_request :: "string \<Rightarrow> u64 \<Rightarrow> u64 \<Rightarrow> u64 \<Rightarrow> int \<Rightarrow> request" where
  "batch_request t dest_base src_base bytes e =
     (t, e, dest_base + word_of_int e * bytes, src_base + word_of_int e * bytes, bytes)"

lemma touch_batch_loop_run:
  "touch_batch_loop c t es dest_base src_base bytes n =
     map_option (\<lambda>(hs, c'). (n + length (filter Not hs), c'))
       (run_trace serve_mem c (map (batch_request t dest_base src_base bytes) es))"
proof (induction es arbitrary: c n)
  case Nil
  then show ?case by simp
next
  case (Cons e es)
  have "serve_mem c (batch_request t dest_base src_base bytes e) =
      touch_locked c (key t e) t e (dest_base + word_of_int e * bytes)
             (Some (src_base + word_of_int e * bytes)) 0 bytes"
    by (simp add: serve_mem_def batch_request_def touch_def)
  with Cons show ?case
    by (auto simp: option.map_comp comp_def split: option.splits prod.splits)
qed

lemma count_dedup_simps [simp]:
  "bounded_inv (count_dedup c n u) = bounded_inv c" "alpha (count_dedup c n u) = alpha c"
  "cmap (count_dedup c n u) = cmap c" "hard_cap_bytes (count_dedup c n u) = hard_cap_bytes c"
  "src_read (count_dedup c n u) = src_read c"
  by (simp_all add: count_dedup_def bounded_inv_def)

text \<open>The experts of a batch are of one tensor, so of one size: an entry already resident has that size.\<close>

definition uniform :: "slice_cache \<Rightarrow> string \<Rightarrow> u64 \<Rightarrow> int list \<Rightarrow> bool" where
  "uniform c t bytes es \<longleftrightarrow>
     list_all (\<lambda>e. case cmap c (key t e) of None \<Rightarrow> True | Some x \<Rightarrow> entry_bytes x = bytes) es"

definition resident :: "slice_cache \<Rightarrow> string \<Rightarrow> int \<Rightarrow> bool" where
  "resident c t e \<longleftrightarrow> cmap c (key t e) \<noteq> None"

lemma uniform_map_of:
  "cache_inv c \<Longrightarrow> uniform c t bytes es \<Longrightarrow> e \<in> set es \<Longrightarrow>
   map_of (alpha c) (key t e) \<in> {None, Some (unat bytes)}"
  using map_of_alpha [of c "key t e"]
  by (auto simp: uniform_def list_all_iff split: option.splits)

text \<open>
  \<^verbatim>\<open>touch_batch\<close>: when the distinct experts of the batch fit under the hard cap, then all of
  them are resident when the call returns, the cap is respected, and the returned number of misses is at
  most the number of distinct experts.
\<close>

theorem touch_batch_resident:
  assumes "bounded_inv c" "uint bytes < 2 ^ 63" "enumerates (enum experts) experts" "list_all int32 experts"
    "int (length (enum experts)) * uint bytes \<le> uint (hard_cap_bytes c)" "uniform c t bytes experts"
    "touch_batch enum c t experts dest_base src_base bytes = Some (n, c')"
  shows "list_all (resident c' t) experts \<and> bounded_inv c' \<and> used_bytes c' \<le> hard_cap_bytes c
    \<and> n \<le> length (enum experts)"
proof -
  let ?es = "enum experts" and ?c = "count_dedup c (length experts) (length (enum experts))"
  let ?rs = "map (batch_request t dest_base src_base bytes) ?es"
  obtain hs where r: "run_trace serve_mem ?c ?rs = Some (hs, c')" and n: "n = length (filter Not hs)"
    using assms(7) by (auto simp: touch_batch_def touch_batch_loop_run Let_def)
  have i: "bounded_inv ?c" using assms(1) by simp
  have ok: "\<And>r. r \<in> set ?rs \<Longrightarrow> req_ok r" and sz: "\<And>r. r \<in> set ?rs \<Longrightarrow> unat (req_bytes r) = unat bytes"
    using assms(2) by (auto simp: req_ok_def req_bytes_def batch_request_def)
  have ky: "map req_key ?rs = map (key t) ?es" by (simp add: req_key_def batch_request_def)
  have es: "distinct ?es" "set ?es = set experts" using assms(3) by (simp_all add: enumerates_def)
  have d: "distinct (map req_key ?rs)"
    unfolding ky using es assms(4) by (intro key_distinct) (simp_all add: list_all_iff)
  have fit: "length ?rs * unat bytes \<le> unat (hard_cap_bytes ?c)"
    using nat_mult_le_uint [OF assms(5)] by simp
  have old: "\<And>r. r \<in> set ?rs \<Longrightarrow> map_of (alpha ?c) (req_key r) \<in> {None, Some (unat bytes)}"
    using uniform_map_of [of c t bytes experts] assms(1,6) es(2)
    by (auto simp: req_key_def batch_request_def bounded_inv_def)
  have f: "lru_run (unat (hard_cap_bytes ?c)) (alpha ?c) (map (\<lambda>r. (req_key r, unat (req_bytes r))) ?rs) = (hs, alpha c')
      \<and> bounded_inv c' \<and> unat (hard_cap_bytes c') = unat (hard_cap_bytes ?c)"
    using mcp.run_refines [OF i ok r] .
  have "resident c' t e" if "e \<in> set experts" for e
  proof -
    have "batch_request t dest_base src_base bytes e \<in> set ?rs" using that es(2) by simp
    from mcp.run_resident [OF i ok r d sz fit old this] map_of_alpha [of c' "key t e"] f show ?thesis
      by (cases "cmap c' (key t e)") (auto simp: resident_def req_key_def batch_request_def bounded_inv_def)
  qed
  moreover have "length hs = length ?es"
    using f lru_run_length [of "unat (hard_cap_bytes ?c)" "alpha ?c" "map (\<lambda>r. (req_key r, unat (req_bytes r))) ?rs"] by simp
  ultimately show ?thesis
    using f bounded_used [of c'] n length_filter_le [of Not hs]
    by (auto simp: list_all_iff word_le_nat_alt)
qed

lemma touch_batch_resident_witness:
  "\<exists>n c'. touch_batch remdups (new_slice_cache 3 (\<lambda>_. 7)) ''t'' [5, 0, 5, 2] 0 4096 1 = Some (n, c')
     \<and> n = 3 \<and> list_all (resident c' ''t'') [5, 0, 5, 2]"
proof -
  let ?c = "new_slice_cache 3 (\<lambda>_. 7)"
  have "map_option fst (touch_batch remdups ?c ''t'' [5, 0, 5, 2] 0 4096 1) = Some 3" by code_simp
  then obtain c' where c': "touch_batch remdups ?c ''t'' [5, 0, 5, 2] 0 4096 1 = Some (3, c')" by auto
  have "uniform ?c ''t'' 1 [5, 0, 5, 2]" by (simp add: uniform_def new_slice_cache_def)
  then have "list_all (resident c' ''t'') [5, 0, 5, 2]"
    using touch_batch_resident [OF bounded_inv_new _ _ _ _ _ c'] by (auto simp: enumerates_def int32_def)
  with c' show ?thesis by blast
qed

section \<open>The overlapped batch\<close>

text \<open>
  Classification: the invariant is kept, every requested expert is afterwards resident or listed as a
  miss, and once one miss is listed there is room for one slice (or nothing is resident).
\<close>

definition room_inv :: "slice_cache \<Rightarrow> u64 \<Rightarrow> bool" where
  "room_inv c b \<longleftrightarrow> cache_inv c \<and> unat (used_bytes c) + unat b < 2 ^ 64"

lemma count_dedup_room [simp]:
  "room_inv (count_dedup c n u) b = room_inv c b" "cache_inv (count_dedup c n u) = cache_inv c"
  "used_bytes (count_dedup c n u) = used_bytes c"
  by (simp_all add: room_inv_def count_dedup_def)

lemma refresh_room:
  assumes "room_inv c b" "cmap c k = Some e"
  shows "room_inv (refresh_hit c k) b" "cmap (refresh_hit c k) = cmap c"
    "hard_cap_bytes (refresh_hit c k) = hard_cap_bytes c" "src_read (refresh_hit c k) = src_read c"
    "used_bytes (refresh_hit c k) = used_bytes c"
  using assms refresh_refines [of c k e] by (auto simp: room_inv_def refresh_hit_def)

lemma make_room_room:
  assumes "room_inv c b" "make_room_locked c b = Some c'"
  shows "room_inv c' b \<and> cmap c' \<subseteq>\<^sub>m cmap c \<and> hard_cap_bytes c' = hard_cap_bytes c \<and> src_read c' = src_read c
    \<and> alpha c' = lru_evict (unat (hard_cap_bytes c)) (unat b) (alpha c)
    \<and> (used_bytes c' = 0 \<or> unat (used_bytes c') + unat b \<le> unat (hard_cap_bytes c))"
proof -
  let ?cap = "unat (hard_cap_bytes c)"
  have i: "cache_inv c" "unat (used_bytes c) + unat b < 2 ^ 64" using assms(1) by (simp_all add: room_inv_def)
  from make_room_refines [OF i] assms(2)
  have r: "cache_inv c'" "alpha c' = lru_evict ?cap (unat b) (alpha c)" "cmap c' \<subseteq>\<^sub>m cmap c"
    "hard_cap_bytes c' = hard_cap_bytes c" "src_read c' = src_read c" by auto
  have u: "unat (used_bytes c') = lru_bytes (alpha c')" "unat (used_bytes c) = lru_bytes (alpha c)"
    using r(1) i(1) by (simp_all add: cache_inv_def)
  have "lru_bytes (alpha c') \<le> lru_bytes (alpha c)"
    unfolding r(2) using lru_evict_prefix [of "alpha c" ?cap "unat b"] by (metis le_add1 lru_bytes_simps(3))
  then have "room_inv c' b" using r i u by (simp add: room_inv_def)
  moreover have "used_bytes c' = 0 \<or> unat (used_bytes c') + unat b \<le> ?cap"
    using lru_evict_room [of ?cap "unat b" "alpha c"] u r(2) by (auto simp: unat_eq_0)
  ultimately show ?thesis using r by simp
qed

lemma subseq_distinct: "subseq xs ys \<Longrightarrow> distinct ys \<Longrightarrow> distinct xs"
  by (induction rule: list_emb.induct) (auto dest: list_emb_set)

lemma classify_misses_frame:
  "classify_misses c t es db sb b = Some (c', ms) \<Longrightarrow> room_inv c b \<Longrightarrow>
   room_inv c' b \<and> cmap c' \<subseteq>\<^sub>m cmap c \<and> hard_cap_bytes c' = hard_cap_bytes c \<and> src_read c' = src_read c
   \<and> (\<forall>x \<in> set ms. cmap c' (miss_k x) = None)
   \<and> (if ms = [] then used_bytes c' = used_bytes c
       else used_bytes c' = 0 \<or> unat (used_bytes c') + unat b \<le> unat (hard_cap_bytes c))
   \<and> (\<exists>es'. map miss_k ms = map (key t) es' \<and> subseq es' es)"
proof (induction es arbitrary: c ms)
  case Nil
  then show ?case by auto
next
  case (Cons e es)
  show ?case
  proof (cases "cmap c (key t e)")
    case (Some x)
    note r = refresh_room [OF Cons.prems(2) Some]
    from Cons.IH [of "refresh_hit c (key t e)" ms] Cons.prems Some r show ?thesis
      by (auto simp: Let_def)
  next
    case None
    obtain c1 ms1 where c1: "make_room_locked c b = Some c1"
      and cl: "classify_misses c1 t es db sb b = Some (c', ms1)"
      and ms: "map miss_k ms = key t e # map miss_k ms1" "ms \<noteq> []"
      using Cons.prems(1) None by (auto simp: Let_def split: option.splits prod.splits)
    note r = make_room_room [OF Cons.prems(2) c1]
    from r Cons.IH [OF cl]
    have ih: "room_inv c' b" "cmap c' \<subseteq>\<^sub>m cmap c1" "hard_cap_bytes c' = hard_cap_bytes c1" "src_read c' = src_read c1"
      "\<forall>x \<in> set ms1. cmap c' (miss_k x) = None" "\<exists>es'. map miss_k ms1 = map (key t) es' \<and> subseq es' es"
      "if ms1 = [] then used_bytes c' = used_bytes c1
       else used_bytes c' = 0 \<or> unat (used_bytes c') + unat b \<le> unat (hard_cap_bytes c1)"
      by auto
    have le: "cmap c' \<subseteq>\<^sub>m cmap c" using ih(2) r map_le_trans by blast
    then have "cmap c' (key t e) = None" using None by (auto simp: map_le_def dom_def)
    then have "\<forall>k \<in> set (map miss_k ms). cmap c' k = None"
      unfolding ms(1) using ih(5) by simp
    then have none: "\<forall>x \<in> set ms. cmap c' (miss_k x) = None" by simp
    have "used_bytes c' = 0 \<or> unat (used_bytes c') + unat b \<le> unat (hard_cap_bytes c)"
      using ih(7) r by (auto split: if_splits)
    moreover have "\<exists>es'. map miss_k ms = map (key t) es' \<and> subseq es' (e # es)"
      using ih(6) ms(1) by (metis list.simps(9) subseq_Cons2)
    ultimately show ?thesis using ih r le none ms(2) by simp
  qed
qed

lemma classify_misses_resident:
  "classify_misses c t es db sb b = Some (c', ms) \<Longrightarrow> room_inv c b \<Longrightarrow>
   alpha c = ps @ qs \<Longrightarrow> distinct (map (key t) es) \<Longrightarrow> key t ` set es \<inter> fst ` set ps = {} \<Longrightarrow>
   lru_bytes ps + length es * unat b \<le> unat (hard_cap_bytes c) \<Longrightarrow> uniform c t b es \<Longrightarrow>
   fst ` set ps \<union> key t ` set es \<subseteq> dom (cmap c') \<union> miss_k ` set ms"
proof (induction es arbitrary: c ms ps qs)
  case Nil
  then have "fst ` set ps \<subseteq> fst ` set (alpha c)" by auto
  also have "\<dots> = set (lru_list c)" by (metis fst_alpha list.set_map)
  finally show ?case using Nil by (auto simp: room_inv_def cache_inv_def)
next
  case (Cons e es)
  let ?cap = "unat (hard_cap_bytes c)" and ?k = "key t e"
  have i: "cache_inv c" using Cons.prems(2) by (simp add: room_inv_def)
  have room: "lru_bytes ps + unat b \<le> ?cap" and nin: "?k \<notin> fst ` set ps"
    using Cons.prems(5,6) by auto
  show ?case
  proof (cases "cmap c ?k")
    case (Some x)
    let ?c = "refresh_hit c ?k"
    note r = refresh_room [OF Cons.prems(2) Some]
    have cl: "classify_misses ?c t es db sb b = Some (c', ms)" using Cons.prems(1) Some by (simp add: Let_def)
    have sz: "entry_bytes x = b" using Cons.prems(7) Some by (simp add: uniform_def)
    have "filter (\<lambda>p. fst p \<noteq> ?k) ps = ps" using nin by (intro filter_True) force
    then have al: "alpha ?c = ((?k, unat b) # ps) @ filter (\<lambda>p. fst p \<noteq> ?k) qs"
      using refresh_refines [OF i Some] Cons.prems(3) sz by simp
    have un: "uniform ?c t b es" using Cons.prems(7) r(2) by (simp add: uniform_def)
    show ?thesis
      using Cons.IH [OF cl r(1) al _ _ _ un] Cons.prems(4,5,6) r(3) by auto
  next
    case None
    obtain c1 ms1 where c1: "make_room_locked c b = Some c1"
      and cl: "classify_misses c1 t es db sb b = Some (c', ms1)"
      and ms: "miss_k ` set ms = insert ?k (miss_k ` set ms1)"
      using Cons.prems(1) None by (auto simp: Let_def split: option.splits prod.splits)
    note r = make_room_room [OF Cons.prems(2) c1]
    obtain zs where al: "alpha c1 = ps @ zs"
      using r Cons.prems(3) lru_evict_keeps [OF room, of qs] by auto
    have un: "uniform c1 t b es"
      using Cons.prems(7) r by (auto simp: uniform_def list_all_iff map_le_def dom_def split: option.splits)
    have "fst ` set ps \<union> key t ` set es \<subseteq> dom (cmap c') \<union> miss_k ` set ms1"
      using Cons.IH [OF cl _ al _ _ _ un] Cons.prems(4,5,6) r by auto
    then show ?thesis unfolding ms by auto
  qed
qed

lemma commit_misses_spec:
  "cache_inv c \<Longrightarrow> distinct (map miss_k ms) \<Longrightarrow> (\<forall>x \<in> set ms. cmap c (miss_k x) = None) \<Longrightarrow>
   unat (used_bytes c) + length ms * unat b < 2 ^ 64 \<Longrightarrow> b \<le> hard_cap_bytes c \<Longrightarrow>
   cache_inv (commit_misses c t b ms) \<and> hard_cap_bytes (commit_misses c t b ms) = hard_cap_bytes c
   \<and> dom (cmap (commit_misses c t b ms)) = dom (cmap c) \<union> miss_k ` set ms
   \<and> unat (used_bytes (commit_misses c t b ms)) = unat (used_bytes c) + length ms * unat b"
proof (induction ms arbitrary: c)
  case Nil
  then show ?case by simp
next
  case (Cons x ms)
  let ?c = "commit_locked c (miss_k x) t (miss_expert x) (miss_dest x) b"
  have none: "cmap c (miss_k x) = None" and nw: "unat (used_bytes c) + unat b < 2 ^ 64"
    using Cons.prems by auto
  have r: "cache_inv ?c" "alpha ?c = (miss_k x, unat b) # alpha c"
    using commit_refines [OF Cons.prems(1) none nw] Cons.prems(5) by (auto simp: word_le_nat_alt)
  then have u: "unat (used_bytes ?c) = unat (used_bytes c) + unat b"
    using Cons.prems(1) by (simp add: cache_inv_def)
  have "\<forall>y \<in> set ms. cmap ?c (miss_k y) = None"
    using Cons.prems(2,3,5) by (auto simp: commit_cmap [OF none] rev_image_eqI)
  moreover have "dom (cmap ?c) = insert (miss_k x) (dom (cmap c))"
    using Cons.prems(5) by (simp add: commit_cmap [OF none] dom_fun_upd)
  ultimately show ?case
    using Cons.IH [of ?c] r(1) u Cons.prems by simp
qed

text \<open>
  The invariant of demand serving: a batch may leave the accounting above the cap, by less than the cap when the
  batch fits, so the bound that every batch restores is twice the cap.
\<close>

definition serving_inv :: "slice_cache \<Rightarrow> bool" where
  "serving_inv c \<longleftrightarrow> cache_inv c \<and> uint (hard_cap_bytes c) < 2 ^ 62 \<and> uint (used_bytes c) \<le> 2 * uint (hard_cap_bytes c)"

lemma serving_inv_nat:
  "serving_inv c \<longleftrightarrow> cache_inv c \<and> unat (hard_cap_bytes c) < 4611686018427387904 \<and> unat (used_bytes c) \<le> 2 * unat (hard_cap_bytes c)"
proof -
  have "uint (hard_cap_bytes c) < 4611686018427387904 \<longleftrightarrow> unat (hard_cap_bytes c) < 4611686018427387904"
    "uint (used_bytes c) \<le> 2 * uint (hard_cap_bytes c) \<longleftrightarrow> unat (used_bytes c) \<le> 2 * unat (hard_cap_bytes c)"
    unfolding unat_eq_nat_uint using uint_ge_0 [of "hard_cap_bytes c"] uint_ge_0 [of "used_bytes c"] by linarith+
  then show ?thesis by (simp add: serving_inv_def)
qed

lemma serving_inv_simps [simp]:
  "serving_inv (count_dedup c n u) = serving_inv c" "serving_inv (set_source c r) = serving_inv c"
  "serving_inv (c\<lparr>stats := s\<rparr>) = serving_inv c" "serving_inv (c\<lparr>mem := m\<rparr>) = serving_inv c"
  by (simp_all add: serving_inv_def count_dedup_def set_source_def cache_inv_def alpha_def)

lemma serving_inv_new: "uint cap < 2 ^ 62 \<Longrightarrow> serving_inv (new_slice_cache cap m)"
  using bounded_inv_new [of cap m] by (simp add: serving_inv_def bounded_inv_def new_slice_cache_def)

lemma batch_room:
  assumes "serving_inv c" "es \<noteq> []" "int (length es) * uint bytes \<le> uint (hard_cap_bytes c)"
  shows "room_inv c bytes \<and> unat bytes \<le> unat (hard_cap_bytes c)"
proof -
  have "1 * unat bytes \<le> length es * unat bytes" using assms(2) by (intro mult_le_mono1) (simp add: Suc_leI)
  then have "unat bytes \<le> unat (hard_cap_bytes c)" using nat_mult_le_uint [OF assms(3)] by linarith
  with assms(1) show ?thesis by (simp add: room_inv_def serving_inv_nat)
qed

text \<open>The outcome of a batch as its phases produce it.\<close>

lemma touch_batch_at_cases:
  assumes "touch_batch_at enum lanes c t experts db sb bytes = Some (n, c')"
  obtains (hits) c1 where "classify_misses (count_dedup c (length experts) (length (enum experts))) t (enum experts) db sb bytes = Some (c1, [])"
      "n = 0" "c' = c1"
  | (misses) c1 ms rd m s where "classify_misses (count_dedup c (length experts) (length (enum experts))) t (enum experts) db sb bytes = Some (c1, ms)"
      "ms \<noteq> []" "n = length ms" "src_read c1 = Some rd" "fill_misses rd bytes (lanes ms) (mem c1) = Some m"
      "c' = (commit_misses (c1\<lparr>mem := m\<rparr>) t bytes ms)\<lparr>stats := s\<rparr>"
  using assms by (auto simp: touch_batch_at_def Let_def split: option.splits prod.splits list.splits)

lemma batch_misses:
  assumes "classify_misses c t es db sb b = Some (c', ms)" "room_inv c b" "distinct es" "list_all int32 es"
  shows "distinct (map miss_k ms)" "length ms \<le> length es"
proof -
  obtain es' where es': "map miss_k ms = map (key t) es'" "subseq es' es"
    using classify_misses_frame [OF assms(1,2)] by blast
  show "distinct (map miss_k ms)"
    unfolding es'(1) using subseq_map [OF es'(2), of "key t"] key_distinct [OF assms(3), of t] assms(4)
    by (metis list_all_iff subseq_distinct)
  show "length ms \<le> length es"
    using list_emb_length [OF es'(2)] es'(1) by (metis length_map)
qed

lemma touch_batch_at_serves:
  assumes "serving_inv c" "enumerates (enum experts) experts" "list_all int32 experts"
    "int (length (enum experts)) * uint bytes \<le> uint (hard_cap_bytes c)" "uniform c t bytes experts"
    "touch_batch_at enum lanes c t experts dest_base src_base bytes = Some (n, c')"
  shows "list_all (resident c' t) experts \<and> cache_inv c' \<and> hard_cap_bytes c' = hard_cap_bytes c \<and> n \<le> length (enum experts)
    \<and> (if n = 0 then used_bytes c' = used_bytes c
        else unat (used_bytes c') \<le> unat (hard_cap_bytes c) + (n - 1) * unat bytes)"
proof (cases "enum experts = []")
  case True
  then have "experts = []" using assms(2) by (simp add: enumerates_def)
  then show ?thesis using True assms(1,6) by (auto simp: touch_batch_at_def Let_def serving_inv_def)
next
  case False
  let ?es = "enum experts" and ?c = "count_dedup c (length experts) (length (enum experts))"
  have es: "distinct ?es" "set ?es = set experts" using assms(2) by (simp_all add: enumerates_def)
  have i32: "list_all int32 ?es" using assms(3) es(2) by (simp add: list_all_iff)
  have room: "room_inv ?c bytes" "unat bytes \<le> unat (hard_cap_bytes c)" using batch_room [OF assms(1) False assms(4)] by simp_all
  have fit: "length ?es * unat bytes \<le> unat (hard_cap_bytes c)" using nat_mult_le_uint [OF assms(4)] .
  have un: "uniform ?c t bytes ?es" using assms(5) es(2) by (simp add: uniform_def list_all_iff)
  have dk: "distinct (map (key t) ?es)" using key_distinct [OF es(1), of t] i32 by (simp add: list_all_iff)
  have cov: "key t ` set experts \<subseteq> dom (cmap c1) \<union> miss_k ` set ms"
    if "classify_misses ?c t ?es dest_base src_base bytes = Some (c1, ms)" for c1 ms
    using classify_misses_resident [OF that room(1), of "[]"] dk fit un es(2) by simp
  show ?thesis
    using assms(6)
  proof (cases rule: touch_batch_at_cases)
    case (hits c1)
    with classify_misses_frame [OF hits(1) room(1)] cov [OF hits(1)] show ?thesis
      by (auto simp: list_all_iff resident_def room_inv_def)
  next
    case (misses c1 ms rd m s)
    note fr = classify_misses_frame [OF misses(1) room(1)] and bm = batch_misses [OF misses(1) room(1) es(1) i32]
    have mb: "length ms * unat bytes \<le> unat (hard_cap_bytes c)" using fit bm(2) by (meson le_trans mult_le_mono1)
    have one: "length ms * unat bytes = (n - 1) * unat bytes + unat bytes" using misses(2,3) by (cases ms) simp_all
    have ub: "used_bytes c1 = 0 \<or> unat (used_bytes c1) + unat bytes \<le> unat (hard_cap_bytes c)"
      using fr misses(2) by simp
    have cap: "unat (hard_cap_bytes c) < 2 ^ 62" using assms(1) by (simp add: serving_inv_nat)
    have "unat (used_bytes c1) + length ms * unat bytes < 2 ^ 64" using mb cap ub by auto
    moreover have "bytes \<le> hard_cap_bytes c1" using fr room(2) by (simp add: word_le_nat_alt)
    ultimately have cm: "cache_inv c'" "dom (cmap c') = dom (cmap c1) \<union> miss_k ` set ms" "hard_cap_bytes c' = hard_cap_bytes c"
      "unat (used_bytes c') = unat (used_bytes c1) + length ms * unat bytes"
      using commit_misses_spec [of "c1\<lparr>mem := m\<rparr>" ms bytes t] bm(1) fr misses(6) by (simp_all add: room_inv_def)
    have "list_all (resident c' t) experts"
      using cov [OF misses(1)] unfolding cm(2) [symmetric] by (auto simp: list_all_iff resident_def)
    moreover have "unat (used_bytes c') \<le> unat (hard_cap_bytes c) + (n - 1) * unat bytes"
      using cm(4) ub one mb by auto
    ultimately show ?thesis
      using cm(1,3) bm(2) misses(2,3) by simp
  qed
qed

text \<open>A batch only fails when a read fails.\<close>

lemma classify_misses_total: "room_inv c b \<Longrightarrow> \<exists>r. classify_misses c t es db sb b = Some r"
proof (induction es arbitrary: c)
  case Nil
  then show ?case by simp
next
  case (Cons e es)
  show ?case
  proof (cases "cmap c (key t e)")
    case (Some x)
    with Cons.IH [OF refresh_room(1) [OF Cons.prems Some]] show ?thesis by (simp add: Let_def)
  next
    case None
    obtain c1 where c1: "make_room_locked c b = Some c1"
      using make_room_refines [of c b] Cons.prems by (auto simp: room_inv_def)
    then obtain r where "classify_misses c1 t es db sb b = Some r"
      using Cons.IH [of c1] make_room_room [OF Cons.prems c1] by blast
    with None c1 show ?thesis by (cases r) (simp add: Let_def)
  qed
qed

definition reads_ok :: "source_read \<Rightarrow> u64 \<Rightarrow> u64 \<Rightarrow> u64 \<Rightarrow> int list \<Rightarrow> bool" where
  "reads_ok rd db sb b es \<longleftrightarrow> (\<forall>m. \<forall>e \<in> set es. fst (rd m (db + word_of_int e * b) (sb + word_of_int e * b) b))"

lemma classify_misses_jobs:
  "classify_misses c t es db sb b = Some (c', ms) \<Longrightarrow>
   \<forall>x \<in> set ms. \<exists>e \<in> set es. miss_dest x = db + word_of_int e * b \<and> miss_off x = sb + word_of_int e * b"
proof (induction es arbitrary: c ms)
  case Nil
  then show ?case by simp
next
  case (Cons e es)
  show ?case
  proof (cases "cmap c (key t e)")
    case None
    then show ?thesis using Cons by (auto simp: Let_def split: option.splits prod.splits) blast+
  next
    case (Some x)
    then show ?thesis using Cons by (fastforce simp: Let_def)
  qed
qed

lemma fill_misses_total:
  "\<forall>x \<in> set ms. \<forall>m. fst (rd m (miss_dest x) (miss_off x) b) \<Longrightarrow> \<exists>m'. fill_misses rd b ms m = Some m'"
  by (induction ms arbitrary: m) (auto simp: split_beta)

lemma touch_batch_at_returns:
  assumes "serving_inv c" "int (length (enum experts)) * uint bytes \<le> uint (hard_cap_bytes c)" "enumerates (enum experts) experts"
    "src_read c = Some rd" "reads_ok rd db sb bytes experts" "\<And>ms. set (lanes ms) = set ms"
  shows "\<exists>r. touch_batch_at enum lanes c t experts db sb bytes = Some r"
proof (cases "enum experts = []")
  case True
  then show ?thesis by (simp add: touch_batch_at_def)
next
  case False
  let ?c = "count_dedup c (length experts) (length (enum experts))"
  have room: "room_inv ?c bytes" using batch_room [OF assms(1) False assms(2)] by simp
  obtain c1 ms where cl: "classify_misses ?c t (enum experts) db sb bytes = Some (c1, ms)"
    using classify_misses_total [OF room] by fastforce
  have src: "src_read c1 = Some rd" using classify_misses_frame [OF cl room] assms(4) by simp
  have "\<forall>x \<in> set (lanes ms). \<forall>m. fst (rd m (miss_dest x) (miss_off x) bytes)"
  proof (intro ballI allI)
    fix x m assume "x \<in> set (lanes ms)"
    then obtain e where "e \<in> set experts" "miss_dest x = db + word_of_int e * bytes" "miss_off x = sb + word_of_int e * bytes"
      using classify_misses_jobs [OF cl] assms(3,6) by (auto simp: enumerates_def)
    then show "fst (rd m (miss_dest x) (miss_off x) bytes)" using assms(5) by (simp add: reads_ok_def)
  qed
  from fill_misses_total [of "lanes ms" rd bytes] this obtain m where "fill_misses rd bytes (lanes ms) (mem c1) = Some m" by blast
  then show ?thesis using cl src by (cases ms) (simp_all add: touch_batch_at_def Let_def)
qed

lemma touch_batch_at_serving_inv:
  assumes "serving_inv c" "enumerates (enum experts) experts" "list_all int32 experts"
    "int (length (enum experts)) * uint bytes \<le> uint (hard_cap_bytes c)" "uniform c t bytes experts"
    "touch_batch_at enum lanes c t experts dest_base src_base bytes = Some (n, c')"
  shows "serving_inv c'"
proof -
  note r = touch_batch_at_serves [OF assms]
  have "(n - 1) * unat bytes \<le> unat (hard_cap_bytes c)"
    using nat_mult_le_uint [OF assms(4)] r by (meson diff_le_self le_trans mult_le_mono1)
  with r assms(1) show ?thesis
    by (auto simp: serving_inv_nat split: if_splits)
qed

text \<open>
  Claim C7. \<^verbatim>\<open>touch_batch_at\<close>: when the distinct experts of the batch fit under the hard cap, all of
  them are resident when the call returns, whatever order the lanes complete in; the accounting is
  exact; a batch without misses leaves it as it was, one with \<open>n\<close> misses leaves it at most \<open>(n - 1) * bytes\<close> above the
  cap; and the invariant is kept, so the statement applies to every batch of a run.
\<close>

theorem touch_batch_at_resident:
  assumes "serving_inv c" "enumerates (enum experts) experts" "list_all int32 experts"
    "int (length (enum experts)) * uint bytes \<le> uint (hard_cap_bytes c)" "uniform c t bytes experts"
    "touch_batch_at enum lanes c t experts dest_base src_base bytes = Some (n, c')"
  shows "list_all (resident c' t) experts \<and> serving_inv c' \<and> n \<le> length (enum experts)
    \<and> (if n = 0 then used_bytes c' = used_bytes c
        else unat (used_bytes c') \<le> unat (hard_cap_bytes c) + (n - 1) * unat bytes)"
  using touch_batch_at_serves [OF assms] touch_batch_at_serving_inv [OF assms] by blast

lemma touch_batch_at_resident_witness:
  "\<exists>c'. touch_batch_at remdups rev (set_source (new_slice_cache 3 (\<lambda>_. 7)) read_zero) ''t'' [5, 0, 5, 2] 0 4096 1 = Some (3, c')
     \<and> list_all (resident c' ''t'') [5, 0, 5, 2]"
proof -
  let ?c = "set_source (new_slice_cache 3 (\<lambda>_. 7)) read_zero"
  have "map_option fst (touch_batch_at remdups rev ?c ''t'' [5, 0, 5, 2] 0 4096 1) = Some 3" by code_simp
  then obtain c' where c': "touch_batch_at remdups rev ?c ''t'' [5, 0, 5, 2] 0 4096 1 = Some (3, c')" by auto
  have "uniform ?c ''t'' 1 [5, 0, 5, 2]" by (simp add: uniform_def new_slice_cache_def)
  moreover have "serving_inv ?c" using serving_inv_new [of 3] by simp
  ultimately have "list_all (resident c' ''t'') [5, 0, 5, 2]"
    using touch_batch_at_resident [OF _ _ _ _ _ c'] by (auto simp: enumerates_def int32_def)
  with c' show ?thesis by blast
qed

text \<open>
  The hard cap is not a bound for \<^verbatim>\<open>touch_batch_at\<close>: room is made once per miss before any of
  them is accounted, so on a full 4-byte cache a batch of four one-byte misses ends with 7 bytes
  accounted although \<^verbatim>\<open>cache.h\<close> states that the cap is never exceeded.
\<close>

theorem touch_batch_at_overshoot:
  "\<exists>c1 c2. touch_batch_at remdups id (set_source (new_slice_cache 4 (\<lambda>_. 7)) read_zero) ''t'' [0, 1, 2, 3] 0 0 1 = Some (4, c1)
     \<and> used_bytes c1 = 4 \<and> touch_batch_at remdups id c1 ''t'' [4, 5, 6, 7] 0 0 1 = Some (4, c2)
     \<and> used_bytes c2 = 7 \<and> hard_cap_bytes c2 = 4"
proof -
  let ?run = "Option.bind (touch_batch_at remdups id (set_source (new_slice_cache 4 (\<lambda>_. 7)) read_zero) ''t'' [0, 1, 2, 3] 0 0 1)
      (\<lambda>(n, c1). map_option (\<lambda>(m, c2). (n, used_bytes c1, m, used_bytes c2, hard_cap_bytes c2))
         (touch_batch_at remdups id c1 ''t'' [4, 5, 6, 7] 0 0 1))"
  have "?run = Some (4, 4, 4, 7, 4)" by code_simp
  then show ?thesis by (auto simp: bind_eq_Some_conv)
qed

end
