(* ===== verification/Slice_Integrity.thy ===== *)
theory Slice_Integrity
  imports Slice_Batch "HOL-Library.Multiset"
begin

unbundle bit_operations_syntax

text \<open>
  What the window memory holds. A layout gives every key its slice (address, file offset, size); the
  fill backend is faithful to a file when a successful read puts exactly the file's bytes in the
  destination range. On a layout whose page spans keep clear of the other slices, every resident entry
  of the cache reads as the file's bytes; without that separation an eviction wipes a neighbour.
\<close>

section \<open>Layouts, faithful backends and the integrity invariant\<close>

record slice =
  sl_dest :: u64
  sl_off :: u64
  sl_bytes :: u64

type_synonym layout = "u64 \<Rightarrow> slice"

definition in_range :: "u64 \<Rightarrow> u64 \<Rightarrow> u64 \<Rightarrow> bool" where
  "in_range lo n a \<longleftrightarrow> a - lo < n"

definition in_slice :: "slice \<Rightarrow> u64 \<Rightarrow> bool" where
  "in_slice s a \<longleftrightarrow> in_range (sl_dest s) (sl_bytes s) a"

definition in_pages :: "slice \<Rightarrow> u64 \<Rightarrow> bool" where
  "in_pages s a \<longleftrightarrow> in_range (page_floor (sl_dest s)) (span_pages (sl_dest s) (sl_bytes s)) a"

definition separated :: "layout \<Rightarrow> u64 set \<Rightarrow> bool" where
  "separated lay K \<longleftrightarrow>
     (\<forall>k \<in> K. \<forall>k' \<in> K. k \<noteq> k' \<longrightarrow> (\<forall>a. in_slice (lay k) a \<or> in_pages (lay k) a \<longrightarrow> \<not> in_slice (lay k') a))"

definition faithful :: "(u64 \<Rightarrow> u8) \<Rightarrow> source_read \<Rightarrow> bool" where
  "faithful file read \<longleftrightarrow>
     (\<forall>m dest off n. (\<forall>a. \<not> in_range dest n a \<longrightarrow> snd (read m dest off n) a = m a)
        \<and> (fst (read m dest off n) \<longrightarrow> (\<forall>a. in_range dest n a \<longrightarrow> snd (read m dest off n) a = file (off + (a - dest)))))"

definition holds_file :: "(u64 \<Rightarrow> u8) \<Rightarrow> slice \<Rightarrow> memory \<Rightarrow> bool" where
  "holds_file file s m \<longleftrightarrow> (\<forall>a. in_slice s a \<longrightarrow> m a = file (sl_off s + (a - sl_dest s)))"

definition integrity :: "(u64 \<Rightarrow> u8) \<Rightarrow> layout \<Rightarrow> u64 set \<Rightarrow> slice_cache \<Rightarrow> bool" where
  "integrity file lay K c \<longleftrightarrow>
     (\<forall>k x. cmap c k = Some x \<longrightarrow> k \<in> K \<and> slice_addr x = sl_dest (lay k) \<and> entry_bytes x = sl_bytes (lay k)
        \<and> holds_file file (lay k) (mem c))"

definition follows :: "layout \<Rightarrow> u64 set \<Rightarrow> request \<Rightarrow> bool" where
  "follows lay K r = (case r of (t, e, dest, off, b) \<Rightarrow>
     key t e \<in> K \<and> lay (key t e) = \<lparr>sl_dest = dest, sl_off = off, sl_bytes = b\<rparr> \<and> uint b < 2 ^ 63)"

section \<open>Preservation\<close>

lemma holds_file_other:
  assumes "holds_file file s m" "\<And>a. in_slice s a \<Longrightarrow> m' a = m a"
  shows "holds_file file s m'"
  using assms by (simp add: holds_file_def)

lemma faithful_fill:
  "faithful file rd \<Longrightarrow> rd m dest off n = (ok, m') \<Longrightarrow>
   (\<forall>a. \<not> in_range dest n a \<longrightarrow> m' a = m a) \<and> (ok \<longrightarrow> (\<forall>a. in_range dest n a \<longrightarrow> m' a = file (off + (a - dest))))"
  unfolding faithful_def by (metis fst_conv snd_conv)

lemma evict_integrity:
  assumes sep: "separated lay K" and int: "integrity file lay K c" and e: "cmap c k = Some e"
  shows "integrity file lay K (evict_key c k e)"
  unfolding integrity_def
proof (intro allI impI)
  fix k' x assume "cmap (evict_key c k e) k' = Some x"
  then have k': "k' \<noteq> k" "cmap c k' = Some x" by (auto simp: evict_key_def split: if_splits)
  from int e k' have i: "k \<in> K" "slice_addr e = sl_dest (lay k)" "entry_bytes e = sl_bytes (lay k)"
    "k' \<in> K" "slice_addr x = sl_dest (lay k')" "entry_bytes x = sl_bytes (lay k')"
    "holds_file file (lay k') (mem c)"
    by (auto simp: integrity_def)
  have "mem (evict_key c k e) a = mem c a" if "in_slice (lay k') a" for a
  proof -
    have "\<not> in_pages (lay k) a" using sep i(1,4) k'(1) that by (auto simp: separated_def)
    then show ?thesis using i(2,3) by (simp add: evict_key_def madvise_dontneed_def in_pages_def in_range_def)
  qed
  with i holds_file_other show "k' \<in> K \<and> slice_addr x = sl_dest (lay k') \<and> entry_bytes x = sl_bytes (lay k')
      \<and> holds_file file (lay k') (mem (evict_key c k e))" by blast
qed

lemma make_room_integrity:
  "make_room_locked c b = Some c' \<Longrightarrow> separated lay K \<Longrightarrow> integrity file lay K c \<Longrightarrow> integrity file lay K c'"
proof (induction c b rule: make_room_locked.induct)
  case (1 c b)
  then show ?case
    using evict_integrity [OF "1.prems"(2,3)]
    by (auto simp: make_room_locked.simps [of c b] split: if_splits option.splits)
qed

lemma make_room_src: "make_room_locked c b = Some c' \<Longrightarrow> src_read c' = src_read c"
proof (induction c b rule: make_room_locked.induct)
  case (1 c b)
  then show ?case by (auto simp: make_room_locked.simps [of c b] split: if_splits option.splits)
qed

text \<open>A successful read of \<open>k\<close>'s slice keeps the other entries and makes \<open>k\<close>'s slice hold the file.\<close>

lemma read_integrity:
  assumes sep: "separated lay K" and int: "integrity file lay K c" and f: "faithful file rd" and k: "k \<in> K"
    and none: "cmap c k = None" and r: "rd (mem c) (sl_dest (lay k)) (sl_off (lay k)) (sl_bytes (lay k)) = (ok, m)"
  shows "integrity file lay K (c\<lparr>mem := m\<rparr>) \<and> (ok \<longrightarrow> holds_file file (lay k) m)"
proof -
  have out: "m a = mem c a" if "\<not> in_slice (lay k) a" for a
    using faithful_fill [OF f r] that by (simp add: in_slice_def)
  have "holds_file file (lay k') m" if k': "cmap c k' = Some x" for k' x
  proof -
    have "k' \<noteq> k" "k' \<in> K" "holds_file file (lay k') (mem c)" using k' none int by (auto simp: integrity_def)
    moreover from this have "\<not> in_slice (lay k) a" if "in_slice (lay k') a" for a
      using sep k that by (auto simp: separated_def)
    ultimately show ?thesis using out by (simp add: holds_file_def)
  qed
  moreover have "ok \<longrightarrow> holds_file file (lay k) m"
    using faithful_fill [OF f r] by (simp add: holds_file_def in_slice_def)
  ultimately show ?thesis using int by (simp add: integrity_def)
qed

lemma commit_integrity:
  assumes "integrity file lay K c" "cmap c k = None" "k \<in> K" "holds_file file (lay k) (mem c)"
    "lay k = \<lparr>sl_dest = dest, sl_off = off, sl_bytes = b\<rparr>"
  shows "integrity file lay K (commit_locked c k t e dest b)"
  using assms by (auto simp: integrity_def commit_cmap)

lemma integrity_stats [simp]:
  "integrity file lay K (c\<lparr>stats := s\<rparr>) = integrity file lay K c"
  "integrity file lay K (c\<lparr>mem := m, stats := s\<rparr>) = integrity file lay K (c\<lparr>mem := m\<rparr>)"
  by (simp_all add: integrity_def)

lemma make_room_absent:
  "make_room_locked c b = Some c' \<Longrightarrow> cmap c k = None \<Longrightarrow> cmap c' k = None"
proof (induction c b rule: make_room_locked.induct)
  case (1 c b)
  then show ?case
    by (auto simp: make_room_locked.simps [of c b] evict_key_def split: if_splits option.splits)
qed

lemma touch_at_integrity:
  assumes sep: "separated lay K" and int: "integrity file lay K c" and src: "src_read c = Some rd"
    and f: "faithful file rd" and r: "follows lay K r" and t: "serve_at c r = Some (h, c')"
  shows "integrity file lay K c' \<and> src_read c' = Some rd"
proof -
  obtain t e dest off b where rr: "r = (t, e, dest, off, b)" by (cases r)
  let ?k = "key t e"
  have k: "?k \<in> K" "lay ?k = \<lparr>sl_dest = dest, sl_off = off, sl_bytes = b\<rparr>"
    using r rr by (simp_all add: follows_def)
  have tl: "touch_locked c ?k t e dest None off b = Some (h, c')"
    using t rr by (simp add: serve_at_def touch_at_def)
  show ?thesis
  proof (cases "cmap c ?k")
    case (Some x)
    then have "c' = refresh_hit c ?k" using tl by (simp add: touch_locked_def)
    with int src show ?thesis by (simp add: integrity_def refresh_hit_def)
  next
    case None
    obtain c1 where c1: "make_room_locked c b = Some c1"
      using tl None by (auto simp: touch_locked_def split: option.splits)
    have s1: "src_read c1 = Some rd" using make_room_src [OF c1] src by simp
    have i1: "integrity file lay K c1" using make_room_integrity [OF c1 sep int] .
    have n1: "cmap c1 ?k = None" using make_room_absent [OF c1 None] .
    obtain ok m where rd: "rd (mem c1) dest off b = (ok, m)" by fastforce
    then have ok: "ok" and c': "c' = commit_locked (c1\<lparr>mem := m, stats := (stats c1)\<lparr>misses := misses (stats c1) + 1,
                                bytes_loaded := bytes_loaded (stats c1) + b\<rparr>\<rparr>) ?k t e dest b"
      using tl None c1 s1
      by (auto simp: touch_locked_def fill_slice_def Let_def split: option.splits prod.splits bool.splits)
    have "integrity file lay K (c1\<lparr>mem := m\<rparr>) \<and> (ok \<longrightarrow> holds_file file (lay ?k) m)"
      using read_integrity [OF sep i1 f k(1) n1, of ok m] rd k(2) by simp
    then show ?thesis
      unfolding c' using ok n1 k s1 by (simp add: commit_integrity [where off = off])
  qed
qed

lemma run_integrity:
  "separated lay K \<Longrightarrow> integrity file lay K c \<Longrightarrow> src_read c = Some rd \<Longrightarrow> faithful file rd \<Longrightarrow>
   list_all (follows lay K) rs \<Longrightarrow> run_trace serve_at c rs = Some (hs, c') \<Longrightarrow> integrity file lay K c'"
proof (induction rs arbitrary: c hs)
  case Nil
  then show ?case by simp
next
  case (Cons r rs)
  obtain h c1 hs1 where t: "serve_at c r = Some (h, c1)" and r1: "run_trace serve_at c1 rs = Some (hs1, c')"
    using Cons.prems(6) by (auto split: option.splits)
  from touch_at_integrity [OF Cons.prems(1-4) _ t] Cons.prems(5) Cons.IH [OF Cons.prems(1) _ _ Cons.prems(4) _ r1]
  show ?case using Cons.prems(5) by simp
qed

section \<open>Page alignment gives separation\<close>

lemma page_floor_aligned: "d AND 4095 = 0 \<Longrightarrow> page_floor d = d"
  by (simp add: page_floor_def kPage_def bit_eq_iff bit_simps) blast

lemma page_ceil_aligned:
  assumes "(x :: u64) AND 4095 = 0"
  shows "(x + 4096 - 1) AND NOT (4096 - 1) = x"
proof -
  have "x + 4096 - 1 = x + 4095" by simp
  also have "\<dots> = x OR 4095" using assms by (rule disjunctive_add_eq_or)
  finally have "(x + 4096 - 1) AND NOT (4096 - 1) = (x OR 4095) AND NOT 4095" by simp
  also have "\<dots> = x AND NOT 4095" by (simp add: bit.conj_disj_distrib2)
  also have "\<dots> = x" using page_floor_aligned [OF assms] by (simp add: page_floor_def kPage_def)
  finally show ?thesis .
qed

definition aligned :: "slice \<Rightarrow> bool" where
  "aligned s \<longleftrightarrow> sl_dest s AND 4095 = 0 \<and> (sl_dest s + sl_bytes s) AND 4095 = 0"

definition disjoint_slices :: "layout \<Rightarrow> u64 set \<Rightarrow> bool" where
  "disjoint_slices lay K \<longleftrightarrow>
     (\<forall>k \<in> K. \<forall>k' \<in> K. k \<noteq> k' \<longrightarrow> (\<forall>a. in_slice (lay k) a \<longrightarrow> \<not> in_slice (lay k') a))"

lemma span_aligned:
  assumes "d AND 4095 = 0" "(d + b) AND 4095 = 0"
  shows "span_pages d b = b"
  unfolding span_pages_def Let_def kPage_def page_ceil_aligned [OF assms(2)] page_floor_aligned [OF assms(1)]
  by simp

lemma aligned_pages: "aligned s \<Longrightarrow> in_pages s = in_slice s"
  by (simp add: fun_eq_iff in_pages_def in_slice_def aligned_def page_floor_aligned span_aligned)

lemma aligned_separated:
  "(\<forall>k \<in> K. aligned (lay k)) \<Longrightarrow> disjoint_slices lay K \<Longrightarrow> separated lay K"
  by (auto simp: separated_def disjoint_slices_def aligned_pages)

text \<open>
  Claim C6. In a page-aligned layout of disjoint slices, over a backend that reads the file
  faithfully, every completed sequence of demand touches leaves each resident slice holding exactly the
  file's bytes, in spite of the page-granular \<^verbatim>\<open>madvise\<close> of the evictions in between.
\<close>

theorem resident_slices_hold_file:
  assumes "\<forall>k \<in> K. aligned (lay k)" "disjoint_slices lay K" "faithful file rd" "list_all (follows lay K) rs"
    "run_trace serve_at (set_source (new_slice_cache cap m) rd) rs = Some (hs, c)"
  shows "\<forall>k x. cmap c k = Some x \<longrightarrow> slice_addr x = sl_dest (lay k) \<and> entry_bytes x = sl_bytes (lay k)
     \<and> holds_file file (lay k) (mem c)"
proof -
  have "integrity file lay K (set_source (new_slice_cache cap m) rd)"
    by (simp add: integrity_def new_slice_cache_def)
  moreover have "src_read (set_source (new_slice_cache cap m) rd) = Some rd" by (simp add: set_source_def)
  ultimately have "integrity file lay K c"
    using run_integrity [OF aligned_separated [OF assms(1,2)] _ _ assms(3,4,5)] by blast
  then show ?thesis by (auto simp: integrity_def)
qed

definition read_file :: "(u64 \<Rightarrow> u8) \<Rightarrow> source_read" where
  "read_file file m dest off n = (True, \<lambda>a. if a - dest < n then file (off + (a - dest)) else m a)"

lemma faithful_read_file: "faithful file (read_file file)"
  by (simp add: faithful_def read_file_def in_range_def)

text \<open>Three page-sized slices in a cache of two pages: the third touch evicts the first.\<close>

definition demo_layout :: layout where
  "demo_layout k =
     (if k = key ''t'' 0 then \<lparr>sl_dest = 0, sl_off = 0, sl_bytes = 4096\<rparr>
      else if k = key ''t'' 1 then \<lparr>sl_dest = 4096, sl_off = 4096, sl_bytes = 4096\<rparr>
      else \<lparr>sl_dest = 8192, sl_off = 8192, sl_bytes = 4096\<rparr>)"

definition demo_requests :: "request list" where
  "demo_requests = [(''t'', 0, 0, 0, 4096), (''t'', 1, 4096, 4096, 4096), (''t'', 2, 8192, 8192, 4096)]"

lemma demo_keys: "key ''t'' 0 \<noteq> key ''t'' 1" "key ''t'' 2 \<noteq> key ''t'' 0" "key ''t'' 2 \<noteq> key ''t'' 1"
  by code_simp+

lemma demo_disjoint: "disjoint_slices demo_layout {key ''t'' 0, key ''t'' 1, key ''t'' 2}"
proof -
  have far: "x < 4096 \<Longrightarrow> \<not> x - 4096 < 4096" "x < 4096 \<Longrightarrow> \<not> x - 8192 < 4096" for x :: u64
    by (auto simp: word_less_def uint_sub_if' add_nonneg_nonneg not_less)
  have "a - 4096 - 4096 = a - 8192" for a :: u64 by simp
  with far [of "_ :: u64"] far [of "_ - 4096"] show ?thesis
    using demo_keys by (auto simp: disjoint_slices_def demo_layout_def in_slice_def in_range_def)
qed

lemma resident_slices_hold_file_witness:
  "\<exists>hs c. run_trace serve_at (set_source (new_slice_cache 8192 (\<lambda>_. 0)) (read_file (\<lambda>a. ucast a + 1))) demo_requests = Some (hs, c)
     \<and> cmap c (key ''t'' 1) \<noteq> None \<and> holds_file (\<lambda>a. ucast a + 1) (demo_layout (key ''t'' 1)) (mem c)"
proof -
  let ?file = "\<lambda>a :: u64. ucast a + 1 :: u8" and ?K = "{key ''t'' 0, key ''t'' 1, key ''t'' 2}"
  let ?run = "run_trace serve_at (set_source (new_slice_cache 8192 (\<lambda>_. 0)) (read_file ?file)) demo_requests"
  have "map_option (\<lambda>(hs, c). cmap c (key ''t'' 1) = None) ?run = Some False" by code_simp
  then obtain hs c where r: "?run = Some (hs, c)" and n: "cmap c (key ''t'' 1) \<noteq> None" by auto
  have "\<forall>k \<in> ?K. aligned (demo_layout k)" by (auto simp: demo_layout_def aligned_def)
  moreover have "list_all (follows demo_layout ?K) demo_requests"
    using demo_keys by (simp add: demo_requests_def follows_def demo_layout_def)
  ultimately have "holds_file ?file (demo_layout (key ''t'' 1)) (mem c)"
    using resident_slices_hold_file [OF _ demo_disjoint faithful_read_file _ r] n by blast
  with r n show ?thesis by blast
qed

section \<open>The overlapped batch keeps the integrity invariant\<close>

text \<open>The experts of a tensor lie in the layout at \<^verbatim>\<open>base + e * bytes\<close>.\<close>

definition batch_layout :: "layout \<Rightarrow> u64 set \<Rightarrow> string \<Rightarrow> u64 \<Rightarrow> u64 \<Rightarrow> u64 \<Rightarrow> int list \<Rightarrow> bool" where
  "batch_layout lay K t dest_base src_base bytes es \<longleftrightarrow>
     list_all (\<lambda>e. key t e \<in> K \<and> lay (key t e) =
        \<lparr>sl_dest = dest_base + word_of_int e * bytes, sl_off = src_base + word_of_int e * bytes, sl_bytes = bytes\<rparr>) es"

definition miss_in :: "layout \<Rightarrow> u64 set \<Rightarrow> u64 \<Rightarrow> miss \<Rightarrow> bool" where
  "miss_in lay K bytes x \<longleftrightarrow>
     miss_k x \<in> K \<and> lay (miss_k x) = \<lparr>sl_dest = miss_dest x, sl_off = miss_off x, sl_bytes = bytes\<rparr>"

lemma classify_misses_layout:
  "classify_misses c t es db sb b = Some (c', ms) \<Longrightarrow> separated lay K \<Longrightarrow> integrity file lay K c \<Longrightarrow>
   batch_layout lay K t db sb b es \<Longrightarrow> integrity file lay K c' \<and> list_all (miss_in lay K b) ms"
proof (induction es arbitrary: c ms)
  case Nil
  then show ?case by simp
next
  case (Cons e es)
  show ?case
  proof (cases "cmap c (key t e)")
    case (Some x)
    have "integrity file lay K (refresh_hit c (key t e))"
      using Cons.prems(3) by (simp add: integrity_def refresh_hit_def)
    with Cons Some show ?thesis by (simp add: Let_def batch_layout_def)
  next
    case None
    then obtain c1 ms1 where c1: "make_room_locked c b = Some c1"
      and cl: "classify_misses c1 t es db sb b = Some (c', ms1)"
      and ms: "ms = \<lparr>miss_k = key t e, miss_expert = e, miss_dest = db + word_of_int e * b,
                      miss_off = sb + word_of_int e * b\<rparr> # ms1"
      using Cons.prems(1) by (auto simp: Let_def split: option.splits prod.splits)
    from Cons.IH [OF cl Cons.prems(2) make_room_integrity [OF c1 Cons.prems(2,3)]] Cons.prems(4) ms show ?thesis
      by (simp add: batch_layout_def miss_in_def)
  qed
qed

text \<open>Filling a set of distinct absent slices, in any order.\<close>

lemma fill_misses_hold:
  "fill_misses rd b xs m = Some m' \<Longrightarrow> separated lay K \<Longrightarrow> faithful file rd \<Longrightarrow> distinct (map miss_k xs) \<Longrightarrow>
   list_all (miss_in lay K b) xs \<Longrightarrow> S \<subseteq> K \<Longrightarrow> S \<inter> miss_k ` set xs = {} \<Longrightarrow> \<forall>k \<in> S. holds_file file (lay k) m \<Longrightarrow>
   \<forall>k \<in> S \<union> miss_k ` set xs. holds_file file (lay k) m'"
proof (induction xs arbitrary: m S)
  case Nil
  then show ?case by simp
next
  case (Cons x xs)
  let ?k = "miss_k x"
  have lay: "?k \<in> K" "lay ?k = \<lparr>sl_dest = miss_dest x, sl_off = miss_off x, sl_bytes = b\<rparr>"
    using Cons.prems(5) by (simp_all add: miss_in_def)
  obtain m1 where rd: "rd m (miss_dest x) (miss_off x) b = (True, m1)" and f: "fill_misses rd b xs m1 = Some m'"
    using Cons.prems(1) by (auto simp: Let_def split: prod.splits if_splits)
  note ff = faithful_fill [OF Cons.prems(3) rd]
  have "holds_file file (lay k) m1" if "k \<in> S" for k
  proof (rule holds_file_other)
    show "holds_file file (lay k) m" using that Cons.prems(8) by simp
    fix a assume a: "in_slice (lay k) a"
    have "k \<noteq> ?k" "k \<in> K" using that Cons.prems(6,7) by auto
    with Cons.prems(2) lay(1) a have "\<not> in_slice (lay ?k) a" by (auto simp: separated_def)
    with ff lay(2) show "m1 a = m a" by (simp add: in_slice_def)
  qed
  moreover have "holds_file file (lay ?k) m1" using ff lay(2) by (simp add: holds_file_def in_slice_def)
  ultimately show ?case
    using Cons.IH [OF f Cons.prems(2,3), of "insert ?k S"] Cons.prems(4-7) lay(1) by auto
qed

lemma commit_misses_integrity:
  "integrity file lay K c \<Longrightarrow> distinct (map miss_k xs) \<Longrightarrow> list_all (miss_in lay K b) xs \<Longrightarrow>
   \<forall>x \<in> set xs. cmap c (miss_k x) = None \<and> holds_file file (lay (miss_k x)) (mem c) \<Longrightarrow>
   integrity file lay K (commit_misses c t b xs)"
proof (induction xs arbitrary: c)
  case Nil
  then show ?case by simp
next
  case (Cons x xs)
  let ?c = "commit_locked c (miss_k x) t (miss_expert x) (miss_dest x) b"
  have x: "cmap c (miss_k x) = None" "holds_file file (lay (miss_k x)) (mem c)" "miss_in lay K b x"
    using Cons.prems by simp_all
  have "integrity file lay K ?c"
    using commit_integrity [OF Cons.prems(1) x(1) _ x(2)] x(3) by (simp add: miss_in_def)
  moreover have "\<forall>y \<in> set xs. cmap ?c (miss_k y) = None \<and> holds_file file (lay (miss_k y)) (mem ?c)"
    using Cons.prems(2,4) by (auto simp: commit_cmap [OF x(1)] rev_image_eqI)
  ultimately show ?case using Cons by simp
qed

lemma commit_misses_src [simp]: "src_read (commit_misses c t b ms) = src_read c"
  by (induction ms arbitrary: c) (simp_all add: commit_locked_def Let_def)

lemma touch_batch_at_holds:
  assumes "separated lay K" "faithful file rd" "src_read c = Some rd" "integrity file lay K c" "serving_inv c"
    "enumerates (enum experts) experts" "list_all int32 experts"
    "int (length (enum experts)) * uint bytes \<le> uint (hard_cap_bytes c)"
    "\<And>ms. mset (lanes ms) = mset ms" "batch_layout lay K t dest_base src_base bytes experts"
    "touch_batch_at enum lanes c t experts dest_base src_base bytes = Some (n, c')"
  shows "integrity file lay K c' \<and> src_read c' = Some rd"
proof (cases "enum experts = []")
  case True
  then show ?thesis using assms(3,4,11) by (auto simp: touch_batch_at_def Let_def count_dedup_def)
next
  case False
  let ?es = "enum experts" and ?c = "count_dedup c (length experts) (length (enum experts))"
  have i: "room_inv ?c bytes" "integrity file lay K ?c"
    using batch_room [OF assms(5) False assms(8)] assms(4) by (simp_all add: count_dedup_def room_inv_def)
  have es: "distinct ?es" "set ?es = set experts" using assms(6) by (simp_all add: enumerates_def)
  have i32: "list_all int32 ?es" and bl: "batch_layout lay K t dest_base src_base bytes ?es"
    using assms(7,10) es(2) by (simp_all add: batch_layout_def list_all_iff)
  show ?thesis
    using assms(11)
  proof (cases rule: touch_batch_at_cases)
    case (hits c1)
    with classify_misses_frame [OF hits(1) i(1)] classify_misses_layout [OF hits(1) assms(1) i(2) bl] assms(3)
    show ?thesis by simp
  next
    case (misses c1 ms rd' m s)
    note fr = classify_misses_frame [OF misses(1) i(1)] and ly = classify_misses_layout [OF misses(1) assms(1) i(2) bl]
      and d = batch_misses(1) [OF misses(1) i(1) es(1) i32]
    have rd: "src_read c1 = Some rd" "rd' = rd" using fr misses(4) assms(3) by simp_all
    have ln: "set (lanes ms) = set ms" using assms(9) [of ms] by (metis set_mset_mset)
    have dl: "distinct (map miss_k (lanes ms))"
      using d assms(9) [of ms] by (metis mset_map mset_eq_imp_distinct_iff)
    have hold: "\<forall>k \<in> dom (cmap c1) \<union> miss_k ` set ms. holds_file file (lay k) m"
      using fill_misses_hold [OF misses(5) [unfolded rd(2)] assms(1,2) dl, of "dom (cmap c1)"] ly fr ln
      by (fastforce simp: list_all_iff integrity_def dom_def)
    then have "integrity file lay K (c1\<lparr>mem := m\<rparr>)" using ly by (auto simp: integrity_def dom_def)
    then show ?thesis
      unfolding misses(6) integrity_stats using commit_misses_integrity [OF _ d] ly fr hold rd(1) by simp
  qed
qed

text \<open>
  \<^verbatim>\<open>touch_batch_at\<close> keeps every resident slice equal to the file, for any
  completion order of the lanes: the batch's own evictions and reads never disturb another resident slice.
\<close>

theorem touch_batch_at_integrity:
  assumes "separated lay K" "faithful file rd" "src_read c = Some rd" "integrity file lay K c" "serving_inv c"
    "enumerates (enum experts) experts" "list_all int32 experts"
    "int (length (enum experts)) * uint bytes \<le> uint (hard_cap_bytes c)"
    "\<And>ms. mset (lanes ms) = mset ms" "batch_layout lay K t dest_base src_base bytes experts"
    "touch_batch_at enum lanes c t experts dest_base src_base bytes = Some (n, c')"
  shows "integrity file lay K c'"
  using touch_batch_at_holds [OF assms] by simp

lemma touch_batch_at_integrity_witness:
  "\<exists>c'. touch_batch_at remdups rev (set_source (new_slice_cache 12288 (\<lambda>_. 0)) (read_file (\<lambda>a. ucast a + 1)))
      ''t'' [0, 1, 2] 0 0 4096 = Some (3, c')
     \<and> integrity (\<lambda>a. ucast a + 1) demo_layout {key ''t'' 0, key ''t'' 1, key ''t'' 2} c'"
proof -
  let ?file = "\<lambda>a :: u64. ucast a + 1 :: u8" and ?K = "{key ''t'' 0, key ''t'' 1, key ''t'' 2}"
  let ?c = "set_source (new_slice_cache 12288 (\<lambda>_. 0)) (read_file ?file)"
  have "map_option fst (touch_batch_at remdups rev ?c ''t'' [0, 1, 2] 0 0 4096) = Some 3" by code_simp
  then obtain c' where c': "touch_batch_at remdups rev ?c ''t'' [0, 1, 2] 0 0 4096 = Some (3, c')" by auto
  have sep: "separated demo_layout ?K"
    by (rule aligned_separated [OF _ demo_disjoint]) (auto simp: demo_layout_def aligned_def)
  have st: "src_read ?c = Some (read_file ?file)" "integrity ?file demo_layout ?K ?c"
    by (simp_all add: set_source_def integrity_def new_slice_cache_def)
  have bi: "serving_inv ?c" using serving_inv_new [of 12288] by simp
  have "batch_layout demo_layout ?K ''t'' 0 0 4096 [0, 1, 2]"
    using demo_keys by (simp add: batch_layout_def demo_layout_def)
  then have "integrity ?file demo_layout ?K c'"
    using touch_batch_at_integrity [OF sep faithful_read_file st bi _ _ _ _ _ c']
    by (simp add: enumerates_def int32_def)
  with c' show ?thesis by blast
qed

section \<open>Where integrity fails\<close>

text \<open>
  Slices that are not page aligned: two one-byte slices share a page, and evicting the
  first one (\<^verbatim>\<open>madvise\<close> of the rounded span) zeroes the second, which stays resident and would be a hit.
\<close>

theorem unaligned_eviction_wipes_neighbour:
  "map_option (\<lambda>(hs, c). (hs, cmap c (key ''t'' 1) = None, mem c 1))
     (run_trace serve_at (set_source (new_slice_cache 2 (\<lambda>_. 0)) (read_file (\<lambda>_. 9)))
        [(''t'', 0, 0, 0, 1), (''t'', 1, 1, 1, 1), (''t'', 2, 8192, 2, 1)])
   = Some ([False, False, False], False, 0)"
  by code_simp


end
