(* ===== verification/Direct_Io.thy ===== *)
theory Direct_Io
  imports Slice_Integrity
begin

unbundle bit_operations_syntax

text \<open>
  \<^verbatim>\<open>core/include/cne/direct_io.h\<close> and \<^verbatim>\<open>core/src/features/streaming/direct_io.cpp\<close>: aligned reads that fail closed. The kern
  is an argument: its answer to the \<open>i\<close>-th \<^verbatim>\<open>pread(fd, _, len, off)\<close> is \<open>kern i len off\<close>, and \<^verbatim>\<open>open(path, flags)\<close> answers
  with a descriptor or an error number. A read that is interrupted for ever does not return (\<open>None\<close>).
\<close>

section \<open>Data\<close>

datatype pread_answer = Interrupted | Read_error | Data "u8 list"

type_synonym kernel = "nat \<Rightarrow> u64 \<Rightarrow> u64 \<Rightarrow> pread_answer"

datatype errno = EINVAL | ENOTSUP | EOPNOTSUPP | Other_errno

record direct_file =
  fd :: int
  direct :: bool

definition new_direct_file :: direct_file where
  "new_direct_file = \<lparr>fd = -1, direct = False\<rparr>"

section \<open>Operations\<close>

definition kAlign :: u64 where
  "kAlign = 4096"

definition is_aligned :: "u64 \<Rightarrow> bool" where
  "is_aligned v \<longleftrightarrow> v mod kAlign = 0"

definition file_close :: "direct_file \<Rightarrow> direct_file" where
  "file_close d = (if fd d \<ge> 0 then d\<lparr>fd := -1\<rparr> else d)"

definition valid :: "direct_file \<Rightarrow> bool" where
  "valid d \<longleftrightarrow> fd d \<ge> 0"

text \<open>\<open>sys_open True\<close> is the call with \<^verbatim>\<open>O_DIRECT\<close>; a non-negative descriptor is \<open>Inr\<close>.\<close>

definition open_read :: "(bool \<Rightarrow> errno + nat) \<Rightarrow> direct_file \<Rightarrow> bool \<times> direct_file" where
  "open_read sys_open d =
     (let d = file_close d in
      case sys_open True of
        Inr n \<Rightarrow> (True, d\<lparr>fd := int n, direct := True\<rparr>)
      | Inl e \<Rightarrow>
          (let d = d\<lparr>fd := -1\<rparr> in
           if e \<noteq> EINVAL \<and> e \<noteq> ENOTSUP \<and> e \<noteq> EOPNOTSUPP then (False, d)
           else case sys_open False of
                  Inr n \<Rightarrow> (True, d\<lparr>fd := int n, direct := False\<rparr>)
                | Inl _ \<Rightarrow> (False, d)))"

definition write_bytes :: "memory \<Rightarrow> u64 \<Rightarrow> u8 list \<Rightarrow> memory" where
  "write_bytes m a bs = (\<lambda>x. if unat (x - a) < length bs then bs ! unat (x - a) else m x)"

text \<open>The loop of \<^verbatim>\<open>read_aligned\<close>; \<open>i\<close> counts the calls made.\<close>

partial_function (option) read_loop ::
  "kernel \<Rightarrow> nat \<Rightarrow> memory \<Rightarrow> u64 \<Rightarrow> u64 \<Rightarrow> u64 \<Rightarrow> u64 \<Rightarrow> (bool \<times> memory) option" where
  "read_loop kern i m dest bytes offset dn =
     (if dn < bytes
      then (case kern i (bytes - dn) (offset + dn) of
              Interrupted \<Rightarrow> read_loop kern (i + 1) m dest bytes offset dn
            | Read_error \<Rightarrow> Some (False, m)
            | Data bs \<Rightarrow>
                if bs = [] then Some (False, m)
                else read_loop kern (i + 1) (write_bytes m (dest + dn) bs) dest bytes offset (dn + of_nat (length bs)))
      else Some (True, m))"

definition read_aligned ::
  "kernel \<Rightarrow> direct_file \<Rightarrow> memory \<Rightarrow> u64 \<Rightarrow> u64 \<Rightarrow> u64 \<Rightarrow> (bool \<times> memory) option" where
  "read_aligned kern d m dest bytes offset =
     (if \<not> valid d \<or> dest = 0 then Some (False, m)
      else if \<not> is_aligned offset \<or> \<not> is_aligned bytes \<or> \<not> is_aligned dest then Some (False, m)
      else read_loop kern 0 m dest bytes offset 0)"

section \<open>What the code relies on\<close>

text \<open>
  POSIX \<^verbatim>\<open>pread\<close> on a file with contents \<open>file\<close>: data is never longer than asked and is the file's bytes from the
  given offset; and signals stop interrupting from some call on.
\<close>

definition pread_ok :: "(u64 \<Rightarrow> u8) \<Rightarrow> kernel \<Rightarrow> bool" where
  "pread_ok file kern \<longleftrightarrow>
     (\<forall>i len off bs. kern i len off = Data bs \<longrightarrow> length bs \<le> unat len
        \<and> (\<forall>j < length bs. bs ! j = file (off + of_nat j)))"

definition eventually_quiet :: "kernel \<Rightarrow> bool" where
  "eventually_quiet kern \<longleftrightarrow> (\<exists>n. \<forall>i \<ge> n. \<forall>len off. kern i len off \<noteq> Interrupted)"

section \<open>The loop returns\<close>

lemma data_progress:
  assumes "pread_ok file kern" "dn < bytes" "kern i (bytes - dn) (offset + dn) = Data bs"
  shows "unat (dn + of_nat (length bs)) = unat dn + length bs \<and> unat dn + length bs \<le> unat bytes"
proof -
  have le: "length bs \<le> unat (bytes - dn)" using assms(1,3) by (auto simp: pread_ok_def)
  have "unat (bytes - dn) = unat bytes - unat dn" using assms(2) by (simp add: unat_sub)
  moreover have "unat dn < unat bytes" using assms(2) by (simp add: word_less_nat_alt)
  ultimately have b: "unat dn + length bs \<le> unat bytes" using le by linarith
  moreover have "unat bytes < 18446744073709551616" by (rule unat_lt64)
  ultimately have "length bs < 18446744073709551616" "unat dn + length bs < 18446744073709551616"
    by linarith+
  then show ?thesis using b by (simp add: unat_word_ariths unat_of_nat)
qed

lemma read_loop_quiet:
  assumes k: "pread_ok file kern" and q: "\<And>i len off. n \<le> i \<Longrightarrow> kern i len off \<noteq> Interrupted"
  shows "n \<le> i \<Longrightarrow> \<exists>r. read_loop kern i m dest bytes offset dn = Some r"
proof (induction "unat bytes - unat dn" arbitrary: i m dn rule: less_induct)
  case less
  show ?case
  proof (cases "dn < bytes")
    case True
    show ?thesis
    proof (cases "kern i (bytes - dn) (offset + dn)")
      case (Data bs)
      show ?thesis
      proof (cases "bs = []")
        case False
        have "unat bytes - unat (dn + of_nat (length bs)) < unat bytes - unat dn"
        proof -
          have "0 < length bs" using False by simp
          then show ?thesis using data_progress [OF k True Data] by linarith
        qed
        from less.hyps [OF this, of "i + 1"] less.prems True Data False show ?thesis
          by (subst read_loop.simps) simp
      qed (use True Data in \<open>subst read_loop.simps, auto\<close>)
    qed (use True q less.prems in \<open>subst read_loop.simps, auto\<close>)+
  qed (subst read_loop.simps, auto)
qed

lemma read_loop_total:
  assumes k: "pread_ok file kern" and q: "eventually_quiet kern"
  shows "\<exists>r. read_loop kern i m dest bytes offset dn = Some r"
proof -
  obtain n where n: "\<And>i len off. n \<le> i \<Longrightarrow> kern i len off \<noteq> Interrupted"
    using q by (auto simp: eventually_quiet_def)
  show ?thesis
  proof (induction "n - i" arbitrary: i m dn)
    case 0
    then show ?case using read_loop_quiet [OF k n, of i] by simp
  next
    case (Suc j)
    then have j: "j = n - (i + 1)" by simp
    show ?case
      using Suc.hyps(1) [OF j] by (subst read_loop.simps) (auto split: pread_answer.splits)
  qed
qed

section \<open>What the loop writes\<close>

lemma in_chunk:
  fixes y d :: u64
  assumes "unat d + n < 18446744073709551616"
  shows "unat (y - d) < n \<longleftrightarrow> unat d \<le> unat y \<and> unat y < unat d + n"
proof -
  have "unat (y - d) = (if unat d \<le> unat y then unat y - unat d else unat y + 18446744073709551616 - unat d)"
    by (simp add: unat_sub_if')
  then show ?thesis using assms by auto
qed

definition filled :: "(u64 \<Rightarrow> u8) \<Rightarrow> memory \<Rightarrow> u64 \<Rightarrow> u64 \<Rightarrow> nat \<Rightarrow> bool" where
  "filled file m dest offset n \<longleftrightarrow> (\<forall>x. unat (x - dest) < n \<longrightarrow> m x = file (offset + (x - dest)))"

lemma write_chunk:
  assumes k: "pread_ok file kern" and d: "dn < bytes" and a: "kern i (bytes - dn) (offset + dn) = Data bs"
  shows "filled file m dest offset (unat dn) \<Longrightarrow>
      filled file (write_bytes m (dest + dn) bs) dest offset (unat (dn + of_nat (length bs)))"
    and "\<not> unat (x - dest) < unat bytes \<Longrightarrow> write_bytes m (dest + dn) bs x = m x"
proof -
  note p = data_progress [OF k d a]
  have lt: "unat dn + length bs < 18446744073709551616"
    using p le_less_trans [OF _ unat_lt64 [of bytes]] by blast
  have ch: "unat (x - (dest + dn)) < length bs \<longleftrightarrow> unat dn \<le> unat (x - dest) \<and> unat (x - dest) < unat dn + length bs" for x
    using in_chunk [OF lt, of "x - dest"] by (simp add: diff_diff_eq)
  show "write_bytes m (dest + dn) bs x = m x" if "\<not> unat (x - dest) < unat bytes"
    using that ch [of x] p by (simp add: write_bytes_def)
  have bs: "bs ! j = file (offset + dn + of_nat j)" if "j < length bs" for j
    using k a that by (auto simp: pread_ok_def)
  have "offset + dn + of_nat (unat (x - (dest + dn))) = offset + (x - dest)" for x by simp
  with bs ch p show "filled file (write_bytes m (dest + dn) bs) dest offset (unat (dn + of_nat (length bs)))"
    if "filled file m dest offset (unat dn)"
    using that unfolding filled_def write_bytes_def by (metis not_less)
qed

definition loop_post ::
  "(u64 \<Rightarrow> u8) \<Rightarrow> kernel \<Rightarrow> memory \<Rightarrow> u64 \<Rightarrow> u64 \<Rightarrow> u64 \<Rightarrow> u64 \<Rightarrow> bool \<times> memory \<Rightarrow> bool" where
  "loop_post file kern m dest bytes offset dn r \<longleftrightarrow> pread_ok file kern \<longrightarrow>
     (\<forall>x. \<not> unat (x - dest) < unat bytes \<longrightarrow> snd r x = m x)
     \<and> (fst r \<longrightarrow> filled file m dest offset (unat dn) \<longrightarrow> filled file (snd r) dest offset (unat bytes))"

lemma loop_post_done: "\<not> dn < bytes \<Longrightarrow> loop_post file kern m dest bytes offset dn (True, m)"
  by (auto simp: loop_post_def filled_def word_less_nat_alt)

lemma loop_post_fail: "loop_post file kern m dest bytes offset dn (False, m)"
  by (simp add: loop_post_def)

lemma loop_post_chunk:
  assumes "dn < bytes" "kern i (bytes - dn) (offset + dn) = Data bs"
    "loop_post file kern (write_bytes m (dest + dn) bs) dest bytes offset (dn + of_nat (length bs)) r"
  shows "loop_post file kern m dest bytes offset dn r"
  using write_chunk [of _ kern dn bytes i offset bs] assms unfolding loop_post_def by metis

lemma read_loop_post:
  assumes "read_loop kern i m dest bytes offset dn = Some r"
  shows "loop_post file kern m dest bytes offset dn r"
proof (rule read_loop.raw_induct [where P = "\<lambda>kern i m dest bytes offset dn r. loop_post file kern m dest bytes offset dn r", OF _ assms])
  fix self :: "kernel \<Rightarrow> nat \<Rightarrow> memory \<Rightarrow> u64 \<Rightarrow> u64 \<Rightarrow> u64 \<Rightarrow> u64 \<Rightarrow> (bool \<times> memory) option"
    and kern :: kernel and i m dest bytes offset dn r
  assume ih: "\<And>kern i m dest bytes offset dn r. self kern i m dest bytes offset dn = Some r \<Longrightarrow>
      loop_post file kern m dest bytes offset dn r"
    and e: "(if dn < bytes then case kern i (bytes - dn) (offset + dn) of
           Interrupted \<Rightarrow> self kern (i + 1) m dest bytes offset dn
         | Read_error \<Rightarrow> Some (False, m)
         | Data bs \<Rightarrow> if bs = [] then Some (False, m)
             else self kern (i + 1) (write_bytes m (dest + dn) bs) dest bytes offset (dn + of_nat (length bs))
       else Some (True, m)) = Some r"
  show "loop_post file kern m dest bytes offset dn r"
  proof (cases "dn < bytes")
    case True
    then show ?thesis
      using e ih loop_post_fail loop_post_chunk [OF True]
      by (cases "kern i (bytes - dn) (offset + dn)") (auto split: if_splits)
  qed (use e loop_post_done in auto)
qed

section \<open>Properties\<close>

lemma read_aligned_correct_aux:
  assumes "pread_ok file kern" "eventually_quiet kern"
  shows "\<exists>ok m'. read_aligned kern d m dest bytes offset = Some (ok, m')
    \<and> (\<forall>x. \<not> in_range dest bytes x \<longrightarrow> m' x = m x)
    \<and> (ok \<longrightarrow> valid d \<and> is_aligned offset \<and> is_aligned bytes \<and> is_aligned dest
         \<and> (\<forall>x. in_range dest bytes x \<longrightarrow> m' x = file (offset + (x - dest))))
    \<and> (\<not> valid d \<or> dest = 0 \<or> \<not> is_aligned offset \<or> \<not> is_aligned bytes \<or> \<not> is_aligned dest \<longrightarrow> \<not> ok \<and> m' = m)"
proof (cases "\<not> valid d \<or> dest = 0 \<or> \<not> is_aligned offset \<or> \<not> is_aligned bytes \<or> \<not> is_aligned dest")
  case True
  then show ?thesis by (intro exI [of _ False] exI [of _ m]) (auto simp: read_aligned_def)
next
  case False
  then have r: "read_aligned kern d m dest bytes offset = read_loop kern 0 m dest bytes offset 0"
    by (simp add: read_aligned_def)
  obtain ok m' where l: "read_loop kern 0 m dest bytes offset 0 = Some (ok, m')"
    using read_loop_total [OF assms] by fastforce
  have "loop_post file kern m dest bytes offset 0 (ok, m')" by (rule read_loop_post [OF l])
  then have "(\<forall>x. \<not> in_range dest bytes x \<longrightarrow> m' x = m x)"
    "ok \<longrightarrow> (\<forall>x. in_range dest bytes x \<longrightarrow> m' x = file (offset + (x - dest)))"
    using assms(1) by (simp_all add: loop_post_def filled_def in_range_def word_less_nat_alt)
  with False r l show ?thesis by auto
qed

text \<open>
  Claim C16. \<^verbatim>\<open>read_aligned\<close> always returns (unless signals interrupt it for ever); on success the destination holds exactly the
  file's bytes of the requested range, on every outcome memory outside the destination is untouched,
  and a closed file, a null destination or a misaligned argument is rejected before any read.
\<close>

theorem read_aligned_correct:
  assumes "pread_ok file kern" "eventually_quiet kern"
  shows "\<exists>ok m'. read_aligned kern d m dest bytes offset = Some (ok, m')
    \<and> (\<forall>x. \<not> in_range dest bytes x \<longrightarrow> m' x = m x)
    \<and> (ok \<longrightarrow> valid d \<and> is_aligned offset \<and> is_aligned bytes \<and> is_aligned dest
         \<and> (\<forall>x. in_range dest bytes x \<longrightarrow> m' x = file (offset + (x - dest))))
    \<and> (\<not> valid d \<or> dest = 0 \<or> \<not> is_aligned offset \<or> \<not> is_aligned bytes \<or> \<not> is_aligned dest \<longrightarrow> \<not> ok \<and> m' = m)"
  using read_aligned_correct_aux [OF assms] .

text \<open>A kernel that delivers one byte per call and interrupts the first call.\<close>

definition demo_kernel :: "(u64 \<Rightarrow> u8) \<Rightarrow> kernel" where
  "demo_kernel file i len off = (if i = 0 then Interrupted else if len = 0 then Data [] else Data [file off])"

lemma demo_kernel_ok: "pread_ok file (demo_kernel file)" "eventually_quiet (demo_kernel file)"
proof -
  have "0 < unat len" if "len \<noteq> 0" for len :: u64 using that by (simp add: unat_gt_0)
  then show "pread_ok file (demo_kernel file)" by (auto simp: pread_ok_def demo_kernel_def Suc_le_eq split: if_splits)
  show "eventually_quiet (demo_kernel file)"
    unfolding eventually_quiet_def by (intro exI [of _ 1]) (auto simp: demo_kernel_def)
qed

theorem read_aligned_correct_witness:
  "\<exists>ok m'. read_aligned (demo_kernel (\<lambda>a. ucast a)) \<lparr>fd = 3, direct = True\<rparr> (\<lambda>_. 0) 8192 4096 12288 = Some (ok, m')
     \<and> (\<forall>x. \<not> in_range 8192 4096 x \<longrightarrow> m' x = 0)"
  using read_aligned_correct [OF demo_kernel_ok, of "\<lambda>a. ucast a" "\<lparr>fd = 3, direct = True\<rparr>" "\<lambda>_. 0" 8192 4096 12288]
  by blast

text \<open>The fill backend the streaming layer installs: \<^verbatim>\<open>read_aligned\<close> on the model file.\<close>

definition direct_source :: "kernel \<Rightarrow> direct_file \<Rightarrow> source_read" where
  "direct_source kern d m dest off n =
     (case read_aligned kern d m dest n off of Some r \<Rightarrow> r | None \<Rightarrow> (False, m))"

lemma direct_source_faithful_aux:
  assumes "pread_ok file kern" "eventually_quiet kern"
  shows "faithful file (direct_source kern d)"
  unfolding faithful_def
proof (intro allI)
  fix m dest off n
  show "(\<forall>a. \<not> in_range dest n a \<longrightarrow> snd (direct_source kern d m dest off n) a = m a) \<and>
      (fst (direct_source kern d m dest off n) \<longrightarrow>
         (\<forall>a. in_range dest n a \<longrightarrow> snd (direct_source kern d m dest off n) a = file (off + (a - dest))))"
    using read_aligned_correct_aux [OF assms, of d m dest n off] by (auto simp: direct_source_def)
qed

text \<open>
  Aligned direct reads are a faithful fill backend for the slice cache, so the integrity
  theorems of the cache apply to it.
\<close>

theorem direct_source_faithful:
  assumes "pread_ok file kern" "eventually_quiet kern"
  shows "faithful file (direct_source kern d)"
  using assms by (rule direct_source_faithful_aux)

theorem direct_source_faithful_witness: "faithful (\<lambda>a. ucast a) (direct_source (demo_kernel (\<lambda>a. ucast a)) new_direct_file)"
  by (rule direct_source_faithful [OF demo_kernel_ok])

text \<open>A kernel that neither fails nor reports the end of the file makes every aligned read on an open file succeed.\<close>

definition kernel_serves :: "kernel \<Rightarrow> bool" where
  "kernel_serves kern \<longleftrightarrow> (\<forall>i len off. len \<noteq> 0 \<longrightarrow> kern i len off \<noteq> Read_error \<and> kern i len off \<noteq> Data [])"

definition reads_aligned :: "source_read \<Rightarrow> bool" where
  "reads_aligned rd \<longleftrightarrow> (\<forall>m dest off n. dest \<noteq> 0 \<longrightarrow> is_aligned dest \<longrightarrow> is_aligned off \<longrightarrow> is_aligned n \<longrightarrow> fst (rd m dest off n))"

lemma read_loop_served:
  assumes "read_loop kern i m dest bytes offset dn = Some r" "kernel_serves kern"
  shows "fst r"
proof -
  have "kernel_serves kern \<longrightarrow> fst r"
  proof (rule read_loop.raw_induct [where P = "\<lambda>kern i m dest bytes offset dn r. kernel_serves kern \<longrightarrow> fst r", OF _ assms(1)])
    fix self :: "kernel \<Rightarrow> nat \<Rightarrow> memory \<Rightarrow> u64 \<Rightarrow> u64 \<Rightarrow> u64 \<Rightarrow> u64 \<Rightarrow> (bool \<times> memory) option"
      and kern :: kernel and i m dest bytes offset dn r
    assume ih: "\<And>kern i m dest bytes offset dn r. self kern i m dest bytes offset dn = Some r \<Longrightarrow> kernel_serves kern \<longrightarrow> fst r"
      and e: "(if dn < bytes then case kern i (bytes - dn) (offset + dn) of
             Interrupted \<Rightarrow> self kern (i + 1) m dest bytes offset dn
           | Read_error \<Rightarrow> Some (False, m)
           | Data bs \<Rightarrow> if bs = [] then Some (False, m)
               else self kern (i + 1) (write_bytes m (dest + dn) bs) dest bytes offset (dn + of_nat (length bs))
         else Some (True, m)) = Some r"
    show "kernel_serves kern \<longrightarrow> fst r"
    proof
      assume k: "kernel_serves kern"
      then have "kern i (bytes - dn) (offset + dn) \<noteq> Read_error \<and> kern i (bytes - dn) (offset + dn) \<noteq> Data []" if "dn < bytes"
        using that unfolding kernel_serves_def by (metis eq_iff_diff_eq_0 less_irrefl)
      with e ih k show "fst r"
        by (cases "kern i (bytes - dn) (offset + dn)") (auto split: if_splits)
    qed
  qed
  then show ?thesis using assms(2) by blast
qed

lemma direct_source_reads:
  assumes "pread_ok file kern" "eventually_quiet kern" "kernel_serves kern" "valid d"
  shows "reads_aligned (direct_source kern d)"
  unfolding reads_aligned_def
proof (intro allI impI)
  fix m dest off n assume a: "dest \<noteq> 0" "is_aligned dest" "is_aligned off" "is_aligned n"
  obtain r where "read_loop kern 0 m dest n off 0 = Some r" using read_loop_total [OF assms(1,2)] by blast
  with read_loop_served [OF this assms(3)] a assms(4) show "fst (direct_source kern d m dest off n)"
    by (simp add: direct_source_def read_aligned_def)
qed

end
