(* ===== verification/Io_Scheduler.thy ===== *)
theory Io_Scheduler
  imports Cne_Prelude "HOL-Library.Multiset"
begin

text \<open>
  \<^verbatim>\<open>core/include/cne/io_scheduler.h\<close> and \<^verbatim>\<open>core/src/features/streaming/io_scheduler.cpp\<close>: the lane pool. The members of
  the class are the record \<open>sched\<close>, with the program point of every worker and of the caller of \<^verbatim>\<open>run\<close>; each rule of \<open>sched_step\<close> is
  one critical section under \<^verbatim>\<open>mu_\<close> (or the execution of a job, outside it), so every interleaving of the threads is a
  sequence of steps. A condition variable with a predicate lets its waiter pass when the predicate
  holds. \<open>completed\<close> is a ghost log: which jobs ended, with what result. A job that throws counts as one that returned false.
\<close>

section \<open>State\<close>

datatype worker = Waiting | Executing nat | Executed nat bool | Exited

datatype caller = Not_running | Blocked | Returned bool

record sched =
  count :: nat
  next_job :: nat
  pending :: u32
  failed :: bool
  shutdown :: bool
  workers :: "worker list"
  caller_at :: caller
  completed :: "(nat \<times> bool) list"

text \<open>The constructor: at least one lane.\<close>

definition new_sched :: "int \<Rightarrow> sched" where
  "new_sched lanes = \<lparr>count = 0, next_job = 0, pending = 0, failed = False, shutdown = False,
     workers = replicate (nat (if lanes < 1 then 1 else lanes)) Waiting, caller_at = Not_running, completed = []\<rparr>"

section \<open>Operations\<close>

text \<open>\<^verbatim>\<open>run\<close>: a call with no job returns at once; else the job is published, and the caller blocks.\<close>

definition run_begin :: "nat \<Rightarrow> sched \<Rightarrow> sched" where
  "run_begin n s =
     (if n = 0 then s\<lparr>caller_at := Returned True\<rparr>
      else s\<lparr>count := n, next_job := 0, pending := of_nat n, failed := False, caller_at := Blocked, completed := []\<rparr>)"

definition run_end :: "sched \<Rightarrow> sched" where
  "run_end s = s\<lparr>caller_at := Returned (\<not> failed s)\<rparr>"

definition claim :: "nat \<Rightarrow> sched \<Rightarrow> sched" where
  "claim w s = s\<lparr>workers := (workers s)[w := Executing (next_job s)], next_job := next_job s + 1\<rparr>"

definition execute :: "nat \<Rightarrow> nat \<Rightarrow> bool \<Rightarrow> sched \<Rightarrow> sched" where
  "execute w i ok s = s\<lparr>workers := (workers s)[w := Executed i ok]\<rparr>"

definition finish :: "nat \<Rightarrow> nat \<Rightarrow> bool \<Rightarrow> sched \<Rightarrow> sched" where
  "finish w i ok s =
     s\<lparr>workers := (workers s)[w := Waiting], failed := (failed s \<or> \<not> ok), pending := pending s - 1,
       completed := completed s @ [(i, ok)]\<rparr>"

inductive sched_step :: "sched \<Rightarrow> sched \<Rightarrow> bool" where
  run_begin: "caller_at s \<noteq> Blocked \<Longrightarrow> sched_step s (run_begin n s)"
| run_end: "caller_at s = Blocked \<Longrightarrow> pending s = 0 \<Longrightarrow> sched_step s (run_end s)"
| claim: "w < length (workers s) \<Longrightarrow> workers s ! w = Waiting \<Longrightarrow> \<not> shutdown s \<Longrightarrow> next_job s < count s
    \<Longrightarrow> sched_step s (claim w s)"
| execute: "w < length (workers s) \<Longrightarrow> workers s ! w = Executing i \<Longrightarrow> sched_step s (execute w i ok s)"
| finish: "w < length (workers s) \<Longrightarrow> workers s ! w = Executed i ok \<Longrightarrow> sched_step s (finish w i ok s)"
| shut: "caller_at s \<noteq> Blocked \<Longrightarrow> sched_step s (s\<lparr>shutdown := True\<rparr>)"
| exit: "w < length (workers s) \<Longrightarrow> workers s ! w = Waiting \<Longrightarrow> shutdown s
    \<Longrightarrow> sched_step s (s\<lparr>workers := (workers s)[w := Exited]\<rparr>)"

inductive_cases sched_stepE: "sched_step s s'"

text \<open>Reachable states, when no call passes more jobs than the 32-bit counter \<^verbatim>\<open>pending_\<close> can hold.\<close>

inductive reach :: "int \<Rightarrow> sched \<Rightarrow> bool" for lanes where
  init: "reach lanes (new_sched lanes)"
| step: "reach lanes s \<Longrightarrow> sched_step s s' \<Longrightarrow> count s' < 4294967296 \<Longrightarrow> reach lanes s'"

section \<open>The invariant\<close>

text \<open>The job a worker holds.\<close>

fun held :: "worker \<Rightarrow> nat list" where
  "held (Executing i) = [i]"
| "held (Executed i ok) = [i]"
| "held _ = []"

definition active :: "sched \<Rightarrow> nat list" where
  "active s = concat (map held (workers s))"

definition sched_inv :: "sched \<Rightarrow> bool" where
  "sched_inv s \<longleftrightarrow>
     next_job s \<le> count s \<and> count s < 4294967296
     \<and> mset (map fst (completed s)) + mset (active s) = mset [0 ..< next_job s]
     \<and> length (completed s) + unat (pending s) = count s
     \<and> (failed s \<longleftrightarrow> \<not> list_all snd (completed s))
     \<and> (caller_at s \<noteq> Blocked \<longrightarrow> pending s = 0)"

lemma concat_update:
  "w < length xs \<Longrightarrow> mset (concat (map held (xs[w := y]))) + mset (held (xs ! w)) = mset (concat (map held xs)) + mset (held y)"
proof (induction xs arbitrary: w)
  case (Cons x xs)
  then show ?case by (cases w) (auto simp: ac_simps)
qed simp

lemma active_update:
  "w < length (workers s) \<Longrightarrow> workers s ! w = x \<Longrightarrow>
   mset (active (s\<lparr>workers := (workers s)[w := y]\<rparr>)) + mset (held x) = mset (active s) + mset (held y)"
  using concat_update [of w "workers s" y] by (simp add: active_def)

lemma active_fields [simp]:
  "active (s\<lparr>count := a\<rparr>) = active s" "active (s\<lparr>next_job := a\<rparr>) = active s" "active (s\<lparr>pending := p\<rparr>) = active s"
  "active (s\<lparr>failed := f\<rparr>) = active s" "active (s\<lparr>shutdown := f\<rparr>) = active s" "active (s\<lparr>caller_at := c\<rparr>) = active s"
  "active (s\<lparr>completed := l\<rparr>) = active s"
  by (simp_all add: active_def)

text \<open>When nothing is pending, every published job is completed and no worker holds one.\<close>

lemma inv_drained:
  assumes "sched_inv s" "pending s = 0"
  shows "active s = [] \<and> next_job s = count s \<and> mset (map fst (completed s)) = mset [0 ..< count s]"
proof -
  have m: "mset (map fst (completed s)) + mset (active s) = mset [0 ..< next_job s]" and n: "next_job s \<le> count s"
    and l: "length (completed s) = count s"
    using assms by (simp_all add: sched_inv_def)
  have "length (completed s) + length (active s) = next_job s"
    using arg_cong [OF m, of size] by simp
  with n l have "length (active s) = 0" "next_job s = count s" by linarith+
  with m show ?thesis by simp
qed

lemma step_inv:
  assumes "sched_step s s'" "sched_inv s" "count s' < 4294967296"
  shows "sched_inv s'"
  using assms(1)
proof (cases rule: sched_step.cases)
  case (run_begin n)
  then have "active s = []" using inv_drained [OF assms(2)] assms(2) by (simp add: sched_inv_def)
  with run_begin assms show ?thesis
    by (auto simp: run_begin_def sched_inv_def active_def unat_of_nat)
next
  case run_end
  with assms(2) show ?thesis by (simp add: run_end_def sched_inv_def)
next
  case (claim w)
  with assms(2) active_update [OF claim(2,3), of "Executing (next_job s)"] show ?thesis
    by (simp add: claim_def sched_inv_def)
next
  case (execute w i ok)
  with assms(2) active_update [OF execute(2,3), of "Executed i ok"] show ?thesis
    by (simp add: execute_def sched_inv_def)
next
  case (finish w i ok)
  have m: "mset (map fst (completed s)) + mset (active s) = mset [0 ..< next_job s]"
    and c: "length (completed s) + unat (pending s) = count s" "next_job s \<le> count s"
    using assms(2) by (simp_all add: sched_inv_def)
  have a: "mset (active s) = mset (active (s\<lparr>workers := (workers s)[w := Waiting]\<rparr>)) + {#i#}"
    using active_update [OF finish(2,3), of Waiting] by simp
  have "pending s \<noteq> 0" using inv_drained [OF assms(2)] a by auto
  then have "unat (pending s - 1) = unat (pending s) - 1" "unat (pending s) > 0"
    by (simp_all add: unat_minus_one unat_gt_0)
  then show ?thesis
    using finish assms(2,3) a c m by (auto simp: finish_def sched_inv_def)
next
  case shut
  with assms(2) show ?thesis by (auto simp: sched_inv_def)
next
  case (exit w)
  with assms(2) active_update [OF exit(2,3), of Exited] show ?thesis
    by (simp add: sched_inv_def)
qed

lemma reach_inv: "reach lanes s \<Longrightarrow> sched_inv s"
proof (induction rule: reach.induct)
  case init
  have "concat (map held (replicate n Waiting)) = []" for n by (induction n) simp_all
  then show ?case by (simp add: sched_inv_def new_sched_def active_def)
next
  case (step s s')
  then show ?case using step_inv by blast
qed

text \<open>While nobody destroys the pool its workers stay in their loop.\<close>

definition pool_inv :: "sched \<Rightarrow> bool" where
  "pool_inv s \<longleftrightarrow> workers s \<noteq> [] \<and> (Exited \<in> set (workers s) \<longrightarrow> shutdown s)"

lemma set_update_subset: "x \<in> set (xs[i := y]) \<Longrightarrow> x = y \<or> x \<in> set xs"
  using set_update_subset_insert [of xs i y] by auto

lemma step_pool: "sched_step s s' \<Longrightarrow> pool_inv s \<Longrightarrow> pool_inv s'"
  by (cases rule: sched_step.cases, assumption)
     (auto simp: pool_inv_def run_begin_def run_end_def claim_def execute_def finish_def dest!: set_update_subset)

lemma reach_pool: "reach lanes s \<Longrightarrow> pool_inv s"
proof (induction rule: reach.induct)
  case init
  then show ?case by (auto simp: pool_inv_def new_sched_def)
next
  case (step s s')
  then show ?case using step_pool by blast
qed

section \<open>Properties\<close>

text \<open>
  Claim C14. When \<^verbatim>\<open>run\<close> returns, every job has been executed exactly once, no lane still holds one, and the
  result is the conjunction of the jobs' results, under every interleaving of the lanes and over any history of
  earlier runs.
\<close>

theorem run_returns_all_jobs:
  assumes "reach lanes s" "caller_at s = Blocked" "sched_step s s'" "caller_at s' = Returned b"
  shows "mset (map fst (completed s')) = mset [0 ..< count s'] \<and> active s' = []
    \<and> b = list_all snd (completed s')"
proof -
  have inv: "sched_inv s" using assms(1) by (rule reach_inv)
  have s': "s' = run_end s" "pending s = 0"
    using assms(3,2,4) by (cases rule: sched_step.cases; simp add: claim_def execute_def finish_def)+
  with inv_drained [OF inv] inv assms(4) show ?thesis
    by (auto simp: run_end_def sched_inv_def)
qed

text \<open>One lane, two jobs, the second fails.\<close>

definition demo_sched :: sched where
  "demo_sched = finish 0 1 False (execute 0 1 False (claim 0 (finish 0 0 True (execute 0 0 True (claim 0 (run_begin 2 (new_sched 1)))))))"

lemma reach_demo: "reach 1 demo_sched"
proof -
  note d = run_begin_def new_sched_def claim_def execute_def finish_def
  let ?s1 = "run_begin 2 (new_sched 1)"
  let ?s2 = "claim 0 ?s1" let ?s3 = "execute 0 0 True ?s2" let ?s4 = "finish 0 0 True ?s3"
  let ?s5 = "claim 0 ?s4" let ?s6 = "execute 0 1 False ?s5"
  have r1: "reach 1 ?s1" by (rule reach.step [OF reach.init]) (rule sched_step.run_begin, simp_all add: d)
  have r2: "reach 1 ?s2" by (rule reach.step [OF r1]) (rule sched_step.claim, simp_all add: d)
  have r3: "reach 1 ?s3" by (rule reach.step [OF r2]) (rule sched_step.execute, simp_all add: d)
  have r4: "reach 1 ?s4" by (rule reach.step [OF r3]) (rule sched_step.finish, simp_all add: d)
  have r5: "reach 1 ?s5" by (rule reach.step [OF r4]) (rule sched_step.claim, simp_all add: d)
  have r6: "reach 1 ?s6" by (rule reach.step [OF r5]) (rule sched_step.execute, simp_all add: d)
  show ?thesis unfolding demo_sched_def
    by (rule reach.step [OF r6]) (rule sched_step.finish, simp_all add: d)
qed

theorem run_returns_all_jobs_witness:
  "sched_step demo_sched (run_end demo_sched) \<and> caller_at (run_end demo_sched) = Returned False
   \<and> mset (map fst (completed (run_end demo_sched))) = mset [0 ..< 2]"
proof -
  have f: "caller_at demo_sched = Blocked" "caller_at (run_end demo_sched) = Returned False" "pending demo_sched = 0"
    "count (run_end demo_sched) = 2"
    by (simp_all add: demo_sched_def run_end_def run_begin_def new_sched_def claim_def execute_def finish_def)
  then have st: "sched_step demo_sched (run_end demo_sched)" by (simp add: sched_step.run_end)
  show ?thesis using run_returns_all_jobs [OF reach_demo f(1) st f(2)] st f by simp
qed

text \<open>Steps left: three for a job not yet claimed, two for one being executed, one for one executed.\<close>

fun steps_left :: "worker \<Rightarrow> nat" where
  "steps_left (Executing i) = 2"
| "steps_left (Executed i ok) = 1"
| "steps_left _ = 0"

definition work :: "sched \<Rightarrow> nat" where
  "work s = 3 * (count s - next_job s) + sum_list (map steps_left (workers s))"

lemma work_update:
  "w < length xs \<Longrightarrow> sum_list (map steps_left (xs[w := y])) + steps_left (xs ! w) = sum_list (map steps_left xs) + steps_left y"
proof (induction xs arbitrary: w)
  case (Cons x xs)
  then show ?case by (cases w) auto
qed simp

lemma blocked_step:
  assumes "sched_step s s'" "caller_at s = Blocked" "\<not> shutdown s"
  shows "caller_at s' \<noteq> Blocked \<or> work s' < work s"
  using assms(1)
proof (cases rule: sched_step.cases)
  case (claim w)
  then obtain k where "count s = Suc (next_job s + k)" using less_imp_Suc_add by blast
  with claim work_update [OF claim(2), of "Executing (next_job s)"] show ?thesis
    by (simp add: claim_def work_def)
next
  case (execute w i ok)
  with work_update [OF execute(2), of "Executed i ok"] show ?thesis by (simp add: execute_def work_def)
next
  case (finish w i ok)
  with work_update [OF finish(2), of Waiting] show ?thesis by (simp add: finish_def work_def)
qed (use assms in \<open>simp_all add: run_end_def\<close>)

lemma blocked_progress:
  assumes "sched_inv s" "pool_inv s" "caller_at s = Blocked" "\<not> shutdown s"
  shows "\<exists>s'. sched_step s s'"
proof (cases "pending s = 0")
  case True
  then show ?thesis using assms(3) run_end by blast
next
  case False
  show ?thesis
  proof (cases "workers s ! 0")
    case Waiting
    show ?thesis
    proof (cases "active s = []")
      case True
      with assms(1) have "length (completed s) = next_job s" by (metis sched_inv_def add_0_right mset_eq_length length_map length_upt mset.simps(1) diff_zero)
      with assms(1) False have "next_job s < count s" by (auto simp: sched_inv_def unat_gt_0 [symmetric])
      with Waiting assms(2,4) claim [of 0 s] show ?thesis by (auto simp: pool_inv_def)
    next
      case False
      then obtain w where "w < length (workers s)" "held (workers s ! w) \<noteq> []"
        by (auto simp: active_def in_set_conv_nth)
      then show ?thesis using execute [of w s] finish [of w s] by (cases "workers s ! w") auto
    qed
  next
    case Exited
    then show ?thesis using assms(2,4) by (metis pool_inv_def length_greater_0_conv nth_mem)
  qed (use assms(2) execute [of 0 s] finish [of 0 s] in \<open>auto simp: pool_inv_def\<close>)
qed

lemma work_bound: "sched_inv s \<Longrightarrow> work s \<le> 3 * count s"
proof -
  assume inv: "sched_inv s"
  then have m: "mset (map fst (completed s)) + mset (active s) = mset [0 ..< next_job s]" by (simp add: sched_inv_def)
  have "length (completed s) + length (active s) = next_job s" using arg_cong [OF m, of size] by simp
  moreover have "sum_list (map steps_left xs) \<le> 2 * length (concat (map held xs))" for xs
  proof (induction xs)
    case (Cons x xs)
    then show ?case by (cases x) auto
  qed simp
  from this [of "workers s"] have "sum_list (map steps_left (workers s)) \<le> 2 * length (active s)"
    by (simp only: active_def)
  moreover have "next_job s \<le> count s" using inv by (simp add: sched_inv_def)
  ultimately show ?thesis unfolding work_def by linarith
qed



text \<open>\<^verbatim>\<open>pending_\<close> has 32 bits: a call with \<open>2\<^sup>3\<^sup>2\<close> jobs returns success at once, with none executed.\<close>

lemma run_count_truncated:
  "let s = run_begin 4294967296 (new_sched 4) in
     sched_step s (run_end s) \<and> caller_at (run_end s) = Returned True \<and> completed (run_end s) = []"
  by (simp add: Let_def run_begin_def run_end_def new_sched_def sched_step.simps)

end
