(* ===== verification/Lru_Sim.thy ===== *)
theory Lru_Sim
  imports Slice_Batch
begin

text \<open>
  \<^verbatim>\<open>tools/lru-sim.cpp\<close>: the offline simulator that replays a recorded trace against exact-LRU caches. Modelled: the keys, the
  \<^verbatim>\<open>touch\<close> closure and the replay loop over the recorded touches. The trace file is read
  in \<open>Lru_Trace\<close>; the report is not modelled.
\<close>

section \<open>Data and operations\<close>

type_synonym sim_key = "u32 \<times> int"

record sim_touch =
  tc_step :: int
  tc_t :: u32
  tc_ids :: "int list"

record sim =
  sim_cap :: u64
  order :: "sim_key list"
  sim_cache :: "sim_key \<rightharpoonup> u64"
  sim_used :: u64
  sim_hits :: u64
  sim_misses :: u64
  miss_bytes :: u64
  sim_evictions :: u64

definition new_sim :: "u64 \<Rightarrow> sim" where
  "new_sim cap = \<lparr>sim_cap = cap, order = [], sim_cache = Map.empty, sim_used = 0, sim_hits = 0, sim_misses = 0,
     miss_bytes = 0, sim_evictions = 0\<rparr>"

text \<open>The eviction loop; erasing the end iterator (a key in \<^verbatim>\<open>order\<close> that is not in \<^verbatim>\<open>cache\<close>) is undefined behaviour, \<open>None\<close>.\<close>

function sim_evict :: "sim \<Rightarrow> u64 \<Rightarrow> sim option" where
  "sim_evict s b =
     (if sim_used s + b > sim_cap s \<and> order s \<noteq> []
      then (case sim_cache s (last (order s)) of
              None \<Rightarrow> None
            | Some v \<Rightarrow> sim_evict (s\<lparr>order := butlast (order s), sim_used := sim_used s - v,
                                   sim_cache := (sim_cache s)(last (order s) := None),
                                   sim_evictions := sim_evictions s + 1\<rparr>) b)
      else Some s)"
  by pat_completeness auto
termination
  by (relation "measure (\<lambda>(s, b). length (order s))") auto

declare sim_evict.simps [simp del]

definition sim_touch_key :: "sim \<Rightarrow> sim_key \<Rightarrow> u64 \<Rightarrow> (bool \<times> sim) option" where
  "sim_touch_key s k b =
     (if sim_cache s k \<noteq> None
      then Some (True, s\<lparr>sim_hits := sim_hits s + 1, order := k # remove1 k (order s)\<rparr>)
      else case sim_evict (s\<lparr>sim_misses := sim_misses s + 1, miss_bytes := miss_bytes s + b\<rparr>) b of
             None \<Rightarrow> None
           | Some s \<Rightarrow>
               Some (False, if b \<le> sim_cap s
                            then s\<lparr>order := k # order s, sim_cache := (sim_cache s)(k \<mapsto> b), sim_used := sim_used s + b\<rparr>
                            else s))"

text \<open>The replay of the whole trace, as the sequence of its single touches.\<close>

definition trace_requests :: "u64 list \<Rightarrow> sim_touch list \<Rightarrow> (sim_key \<times> u64) list" where
  "trace_requests slice_bytes touches =
     concat (map (\<lambda>tc. map (\<lambda>e. ((tc_t tc, e), slice_bytes ! unat (tc_t tc))) (tc_ids tc)) touches)"

definition sim_serve :: "sim \<Rightarrow> sim_key \<times> u64 \<Rightarrow> (bool \<times> sim) option" where
  "sim_serve s r = sim_touch_key s (fst r) (snd r)"

definition sim_replay :: "u64 \<Rightarrow> u64 list \<Rightarrow> sim_touch list \<Rightarrow> (bool list \<times> sim) option" where
  "sim_replay cap slice_bytes touches = run_trace sim_serve (new_sim cap) (trace_requests slice_bytes touches)"

section \<open>The simulator refines the LRU specification\<close>

definition sim_alpha :: "sim \<Rightarrow> sim_key lru" where
  "sim_alpha s = map (\<lambda>k. (k, unat (the (sim_cache s k)))) (order s)"

definition sim_inv :: "sim \<Rightarrow> bool" where
  "sim_inv s \<longleftrightarrow> distinct (order s) \<and> dom (sim_cache s) = set (order s)
     \<and> unat (sim_used s) = lru_bytes (sim_alpha s) \<and> sim_used s \<le> sim_cap s \<and> uint (sim_cap s) < 2 ^ 63"

lemma fst_sim_alpha [simp]: "map fst (sim_alpha s) = order s"
  by (simp add: sim_alpha_def comp_def)

lemma map_of_sim_alpha: "sim_inv s \<Longrightarrow> map_of (sim_alpha s) k = map_option unat (sim_cache s k)"
  by (cases "sim_cache s k") (auto simp: sim_alpha_def map_of_keyed sim_inv_def)

lemma sim_stats [simp]:
  "sim_alpha (s\<lparr>sim_misses := a, miss_bytes := b\<rparr>) = sim_alpha s" "sim_inv (s\<lparr>sim_misses := a, miss_bytes := b\<rparr>) = sim_inv s"
  by (simp_all add: sim_alpha_def sim_inv_def)

lemma keyed_last: "xs \<noteq> [] \<Longrightarrow> map (\<lambda>k. (k, f k)) xs = butlast (map (\<lambda>k. (k, f k)) xs) @ [(last xs, f (last xs))]"
  by (cases xs rule: rev_cases) (simp_all add: butlast_append)

lemma sim_evict_last:
  assumes inv: "sim_inv s" and ne: "order s \<noteq> []" and v: "sim_cache s (last (order s)) = Some v"
  defines "s' \<equiv> s\<lparr>order := butlast (order s), sim_used := sim_used s - v,
                  sim_cache := (sim_cache s)(last (order s) := None), sim_evictions := sim_evictions s + 1\<rparr>"
  shows "sim_alpha s' = butlast (sim_alpha s) \<and> sim_inv s' \<and> sim_cap s' = sim_cap s"
proof -
  let ?k = "last (order s)" and ?xs = "butlast (order s)"
  have d: "distinct (order s)" "dom (sim_cache s) = set (order s)" "unat (sim_used s) = lru_bytes (sim_alpha s)"
    and cap: "sim_used s \<le> sim_cap s" "uint (sim_cap s) < 2 ^ 63"
    using inv by (simp_all add: sim_inv_def)
  have xs: "order s = ?xs @ [?k]" using ne by simp
  then have nin: "?k \<notin> set ?xs" using d(1) by (metis distinct_append not_distinct_conv_prefix)
  have al: "sim_alpha s' = butlast (sim_alpha s)"
  proof -
    have "sim_alpha s' = map (\<lambda>k. (k, unat (the (sim_cache s k)))) ?xs"
      unfolding sim_alpha_def s'_def using nin by (intro map_cong) auto
    then show ?thesis by (simp add: sim_alpha_def map_butlast)
  qed
  have "sim_alpha s = butlast (sim_alpha s) @ [(?k, unat v)]"
    using keyed_last [OF ne, of "\<lambda>k. unat (the (sim_cache s k))"] v by (simp add: sim_alpha_def)
  then have tot: "lru_bytes (sim_alpha s) = lru_bytes (butlast (sim_alpha s)) + unat v"
    by (metis lru_bytes_simps add.right_neutral snd_conv)
  then have vle: "v \<le> sim_used s" using d(3) by (simp add: word_le_nat_alt)
  then have "unat (sim_used s - v) = lru_bytes (sim_alpha s')" using d(3) tot al by (simp add: unat_sub)
  moreover have "sim_used s - v \<le> sim_cap s"
    using vle cap(1) by (simp add: word_le_nat_alt unat_sub)
  moreover have "dom ((sim_cache s)(?k := None)) = set ?xs"
    using d(2) nin arg_cong [OF xs, of set] by auto
  ultimately show ?thesis
    using al distinct_butlast [OF d(1)] cap(2) by (simp add: sim_inv_def s'_def)
qed

lemma sim_evict_refines:
  "sim_inv s \<Longrightarrow> uint b < 9223372036854775808 \<Longrightarrow>
   \<exists>s'. sim_evict s b = Some s' \<and> sim_inv s' \<and> sim_cap s' = sim_cap s
     \<and> sim_alpha s' = lru_evict (unat (sim_cap s)) (unat b) (sim_alpha s)"
proof (induction s b rule: sim_evict.induct)
  case (1 s b)
  let ?cap = "unat (sim_cap s)" and ?b = "unat b"
  have u: "unat (sim_used s) = lru_bytes (sim_alpha s)" "unat (sim_used s) \<le> ?cap" "?cap < 9223372036854775808"
    using "1.prems"(1) uint_unat_less [of "sim_cap s"] by (simp_all add: sim_inv_def word_le_nat_alt)
  have "unat (sim_used s) + ?b < 2 ^ 64" using u uint_unat_less [of b] "1.prems"(2) by simp
  then have guard: "sim_used s + b > sim_cap s \<longleftrightarrow> ?cap < lru_bytes (sim_alpha s) + ?b"
    using u(1) by (simp add: word_less_nat_alt unat_add_nowrap)
  have nil: "sim_alpha s = [] \<longleftrightarrow> order s = []" by (simp add: sim_alpha_def)
  show ?case
  proof (cases "?cap < lru_bytes (sim_alpha s) + ?b \<and> order s \<noteq> []")
    case False
    then have "sim_evict s b = Some s" using guard by (subst sim_evict.simps) auto
    moreover have "lru_evict ?cap ?b (sim_alpha s) = sim_alpha s"
      using False nil by (subst lru_evict.simps) auto
    ultimately show ?thesis using "1.prems"(1) by simp
  next
    case True
    have "last (order s) \<in> dom (sim_cache s)" using "1.prems"(1) True by (simp add: sim_inv_def)
    then obtain v where v: "sim_cache s (last (order s)) = Some v" by blast
    let ?s = "s\<lparr>order := butlast (order s), sim_used := sim_used s - v,
                sim_cache := (sim_cache s)(last (order s) := None), sim_evictions := sim_evictions s + 1\<rparr>"
    have ev: "sim_alpha ?s = butlast (sim_alpha s)" "sim_inv ?s" "sim_cap ?s = sim_cap s"
      using sim_evict_last [OF "1.prems"(1) _ v] True by auto
    have g: "sim_used s + b > sim_cap s \<and> order s \<noteq> []" using True guard by simp
    have st: "sim_evict s b = sim_evict ?s b" using g v by (subst sim_evict.simps) simp
    from "1.IH" [OF g v ev(2) "1.prems"(2)]
    obtain s' where s': "sim_evict ?s b = Some s'" "sim_inv s'" "sim_cap s' = sim_cap ?s"
      "sim_alpha s' = lru_evict (unat (sim_cap ?s)) ?b (sim_alpha ?s)" by blast
    have "lru_evict ?cap ?b (sim_alpha s) = sim_alpha s'"
      using True nil s'(4) ev lru_evict_step [of "sim_alpha s" ?cap ?b] by simp
    with s' st ev(3) show ?thesis by (intro exI [of _ s']) simp
  qed
qed

lemma sim_hit_refines:
  assumes inv: "sim_inv s" and k: "sim_cache s k = Some v"
  defines "s' \<equiv> s\<lparr>sim_hits := sim_hits s + 1, order := k # remove1 k (order s)\<rparr>"
  shows "sim_inv s' \<and> sim_alpha s' = (k, unat v) # filter (\<lambda>p. fst p \<noteq> k) (sim_alpha s)"
proof -
  have d: "distinct (order s)" "dom (sim_cache s) = set (order s)" "unat (sim_used s) = lru_bytes (sim_alpha s)"
    using inv by (simp_all add: sim_inv_def)
  have o: "order s' = k # filter (\<lambda>x. x \<noteq> k) (order s)"
    using d(1) by (simp add: s'_def distinct_remove1_removeAll removeAll_is_filter)
  have al: "sim_alpha s' = (k, unat v) # filter (\<lambda>p. fst p \<noteq> k) (sim_alpha s)"
    unfolding sim_alpha_def o using k by (simp add: s'_def filter_map comp_def)
  have "map_of (sim_alpha s) k = Some (unat v)" using map_of_sim_alpha [OF inv] k by simp
  then have "lru_bytes (sim_alpha s) = lru_bytes (sim_alpha s')"
    unfolding al using total_filter_split [of "sim_alpha s" k] d(1) by simp
  moreover have "distinct (order s')" "set (order s') = set (order s)" unfolding o using d(1,2) k by auto
  ultimately show ?thesis using al d inv by (simp add: sim_inv_def s'_def)
qed

lemma sim_touch_refines:
  assumes inv: "sim_inv s" and b: "uint b < 9223372036854775808" and t: "sim_touch_key s k b = Some (h, s')"
  shows "lru_touch (unat (sim_cap s)) k (unat b) (sim_alpha s) = (h, sim_alpha s') \<and> sim_inv s' \<and> sim_cap s' = sim_cap s"
proof (cases "sim_cache s k")
  case (Some v)
  then have "h" "s' = s\<lparr>sim_hits := sim_hits s + 1, order := k # remove1 k (order s)\<rparr>"
    using t by (auto simp: sim_touch_key_def)
  with sim_hit_refines [OF inv Some] map_of_sim_alpha [OF inv, of k] Some show ?thesis
    by (auto simp: lru_touch_def)
next
  case None
  let ?s0 = "s\<lparr>sim_misses := sim_misses s + 1, miss_bytes := miss_bytes s + b\<rparr>" and ?cap = "unat (sim_cap s)"
  obtain s1 where s1: "sim_evict ?s0 b = Some s1" "sim_inv s1" "sim_cap s1 = sim_cap s"
    "sim_alpha s1 = lru_evict ?cap (unat b) (sim_alpha s)"
    using sim_evict_refines [of ?s0 b] inv b by auto
  have nin: "k \<notin> set (order s1)"
  proof -
    have "set (order s1) = fst ` set (sim_alpha s1)" by (metis fst_sim_alpha list.set_map)
    also have "\<dots> \<subseteq> fst ` set (sim_alpha s)" unfolding s1(4) using lru_evict_subset by blast
    also have "\<dots> = set (order s)" by (metis fst_sim_alpha list.set_map)
    finally show ?thesis using None inv by (auto simp: sim_inv_def)
  qed
  show ?thesis
  proof (cases "b \<le> sim_cap s")
    case True
    then have h: "\<not> h" and s': "s' = s1\<lparr>order := k # order s1, sim_cache := (sim_cache s1)(k \<mapsto> b), sim_used := sim_used s1 + b\<rparr>"
      using t None s1(1,3) by (auto simp: sim_touch_key_def)
    have al: "sim_alpha s' = (k, unat b) # sim_alpha s1" using nin by (auto simp: s' sim_alpha_def)
    have i1: "distinct (order s1)" "dom (sim_cache s1) = set (order s1)" "unat (sim_used s1) = lru_bytes (sim_alpha s1)"
      "unat (sim_used s1) \<le> ?cap" "?cap < 9223372036854775808"
      using s1(2,3) uint_unat_less [of "sim_cap s1"] by (simp_all add: sim_inv_def word_le_nat_alt)
    have room: "lru_bytes (sim_alpha s1) + unat b \<le> ?cap"
      using lru_evict_room [of ?cap "unat b" "sim_alpha s"] s1(4) True by (auto simp: word_le_nat_alt)
    then have "unat (sim_used s1) + unat b < 2 ^ 64" using i1 by simp
    then have u: "unat (sim_used s1 + b) = lru_bytes (sim_alpha s1) + unat b"
      using i1(3) by (simp add: unat_add_nowrap)
    have "sim_inv s'"
      using al u room i1 nin s1(2,3) by (simp add: s' sim_inv_def word_le_nat_alt)
    then show ?thesis
      using h al s1 True map_of_sim_alpha [OF inv, of k] None
      by (simp add: s' lru_touch_def lru_insert_def Let_def word_le_nat_alt)
  next
    case False
    then have "\<not> h" "s' = s1" using t None s1(1,3) by (auto simp: sim_touch_key_def)
    with s1 False map_of_sim_alpha [OF inv, of k] None show ?thesis
      by (simp add: lru_touch_def lru_insert_def Let_def word_le_nat_alt)
  qed
qed

lemma sim_distinct: "sim_inv s \<Longrightarrow> distinct (order s)"
  by (simp add: sim_inv_def)

interpretation sim: lru_impl sim_serve sim_alpha "\<lambda>s. unat (sim_cap s)" sim_inv
    "\<lambda>r. uint (snd r) < 9223372036854775808" fst "\<lambda>r. unat (snd r)"
  by unfold_locales (auto simp: sim_serve_def dest: sim_touch_refines sim_distinct)

section \<open>The simulator predicts the cache\<close>

lemma sim_touch_total: "sim_inv s \<Longrightarrow> uint b < 9223372036854775808 \<Longrightarrow> \<exists>h s'. sim_touch_key s k b = Some (h, s')"
  using sim_evict_refines [of "s\<lparr>sim_misses := sim_misses s + 1, miss_bytes := miss_bytes s + b\<rparr>" b]
  by (auto simp: sim_touch_key_def)

lemma sim_run_total:
  "sim_inv s \<Longrightarrow> (\<And>r. r \<in> set rs \<Longrightarrow> uint (snd r) < 9223372036854775808) \<Longrightarrow>
   \<exists>hs s'. run_trace sim_serve s rs = Some (hs, s')"
proof (induction rs arbitrary: s)
  case (Cons r rs)
  have b: "uint (snd r) < 9223372036854775808" using Cons.prems(2) by simp
  obtain h s1 where t: "sim_touch_key s (fst r) (snd r) = Some (h, s1)"
    using sim_touch_total [OF Cons.prems(1) b] by blast
  have "sim_inv s1" using sim_touch_refines [OF Cons.prems(1) b t] by simp
  with Cons.IH [of s1] Cons.prems(2) obtain hs s2 where "run_trace sim_serve s1 rs = Some (hs, s2)" by auto
  with t show ?case by (simp add: sim_serve_def [of s r])
qed simp

lemma sim_inv_new: "uint cap < 9223372036854775808 \<Longrightarrow> sim_inv (new_sim cap)"
  by (simp add: sim_inv_def new_sim_def sim_alpha_def)

text \<open>A recorded touch and the cache request it stands for: the trace names tensors by index.\<close>

definition corresponds :: "(u32 \<Rightarrow> string) \<Rightarrow> sim_key \<times> u64 \<Rightarrow> request \<Rightarrow> bool" where
  "corresponds names x r \<longleftrightarrow> req_key r = key (names (fst (fst x))) (snd (fst x)) \<and> req_bytes r = snd x"

definition sim_key_of :: "(u32 \<Rightarrow> string) \<Rightarrow> sim_key \<Rightarrow> u64" where
  "sim_key_of names k = key (names (fst k)) (snd k)"



end
