(* ===== verification/Gguf.thy ===== *)
theory Gguf
  imports Cne_Prelude
begin

unbundle bit_operations_syntax

text \<open>
  \<^verbatim>\<open>core/include/cne/gguf.h\<close> and \<^verbatim>\<open>core/src/gguf/gguf.cpp\<close>: the metadata reader. The file is a byte
  list and the \<^verbatim>\<open>FILE*\<close> position a natural number; \<^verbatim>\<open>fread\<close> is all or nothing as \<^verbatim>\<open>read_exact\<close> uses it and
  \<^verbatim>\<open>fseek\<close> past the end succeeds. \<^verbatim>\<open>fail(msg)\<close> is \<open>Inl (Fail msg)\<close>: an outer \<^verbatim>\<open>fail\<close> overwrites the message
  of an inner one, as the member \<^verbatim>\<open>error_\<close> is overwritten. The object a failed \<^verbatim>\<open>open\<close> leaves behind is not kept: its
  callers only read \<^verbatim>\<open>error()\<close>.
\<close>

section \<open>Data\<close>

datatype gguf_error = Fail string | Length_error | Out_of_fuel

definition kGgufMagic :: u32 where
  "kGgufMagic = 0x46554747"

definition kMaxNameLen :: u64 where
  "kMaxNameLen = 1048576"

text \<open>The codes of \<^verbatim>\<open>enum ValueType\<close>.\<close>

definition V_UINT8 :: u32 where
  "V_UINT8 = 0"
definition V_INT8 :: u32 where
  "V_INT8 = 1"
definition V_UINT16 :: u32 where
  "V_UINT16 = 2"
definition V_INT16 :: u32 where
  "V_INT16 = 3"
definition V_UINT32 :: u32 where
  "V_UINT32 = 4"
definition V_INT32 :: u32 where
  "V_INT32 = 5"
definition V_FLOAT32 :: u32 where
  "V_FLOAT32 = 6"
definition V_BOOL :: u32 where
  "V_BOOL = 7"
definition V_STRING :: u32 where
  "V_STRING = 8"
definition V_ARRAY :: u32 where
  "V_ARRAY = 9"
definition V_UINT64 :: u32 where
  "V_UINT64 = 10"
definition V_INT64 :: u32 where
  "V_INT64 = 11"
definition V_FLOAT64 :: u32 where
  "V_FLOAT64 = 12"

lemmas v_defs = V_UINT8_def V_INT8_def V_UINT16_def V_INT16_def V_UINT32_def V_INT32_def V_FLOAT32_def
  V_BOOL_def V_STRING_def V_ARRAY_def V_UINT64_def V_INT64_def V_FLOAT64_def

definition scalar_size :: "u32 \<Rightarrow> nat" where
  "scalar_size t =
     (if t = V_UINT8 \<or> t = V_INT8 \<or> t = V_BOOL then 1
      else if t = V_UINT16 \<or> t = V_INT16 then 2
      else if t = V_UINT32 \<or> t = V_INT32 \<or> t = V_FLOAT32 then 4
      else if t = V_UINT64 \<or> t = V_INT64 \<or> t = V_FLOAT64 then 8
      else 0)"

definition align_up :: "u64 \<Rightarrow> u64 \<Rightarrow> u64" where
  "align_up v a = (if a \<noteq> 0 then (v + a - 1) div a * a else v)"

text \<open>A floating-point value is kept as the bits it is read from; the \<^verbatim>\<open>float\<close> to \<^verbatim>\<open>double\<close> conversion is exact.\<close>

datatype float_bits = F32 u32 | F64 u64

record raw_tensor =
  rt_name :: string
  rt_dims :: "u64 list"
  ggml_type :: u32
  rel_offset :: u64
  offset_field_pos :: u64

record gguf_reader =
  version :: u32
  data_offset :: u64
  meta_end :: u64
  kv_end :: u64
  io_alignment :: u64
  kv_u :: "string \<rightharpoonup> u64"
  kv_i :: "string \<rightharpoonup> u64"
  kv_f :: "string \<rightharpoonup> float_bits"
  kv_s :: "string \<rightharpoonup> string"
  kv_b :: "string \<rightharpoonup> bool"
  kv_pos :: "string \<rightharpoonup> u64"
  raw_tensors :: "raw_tensor list"

definition new_gguf_reader :: gguf_reader where
  "new_gguf_reader = \<lparr>version = 0, data_offset = 0, meta_end = 0, kv_end = 0, io_alignment = 32,
     kv_u = Map.empty, kv_i = Map.empty, kv_f = Map.empty, kv_s = Map.empty, kv_b = Map.empty,
     kv_pos = Map.empty, raw_tensors = []\<rparr>"

section \<open>Reading\<close>

type_synonym 'a parse = "gguf_error + 'a"

fun bindE :: "'a parse \<Rightarrow> ('a \<Rightarrow> 'b parse) \<Rightarrow> 'b parse" where
  "bindE (Inl e) f = Inl e"
| "bindE (Inr x) f = f x"

text \<open>\<^verbatim>\<open>if (!m) return fail(msg)\<close>: the message replaces the one \<^verbatim>\<open>m\<close> left.\<close>

fun orfail :: "string \<Rightarrow> 'a parse \<Rightarrow> 'a parse" where
  "orfail msg (Inl _) = Inl (Fail msg)"
| "orfail msg (Inr x) = Inr x"

text \<open>Little-endian value of the bytes \<^verbatim>\<open>fread\<close> stores into a zeroed integer.\<close>

fun le_val :: "u8 list \<Rightarrow> u64" where
  "le_val [] = 0"
| "le_val (b # bs) = ucast b + 256 * le_val bs"

definition read_exact :: "u8 list \<Rightarrow> nat \<Rightarrow> nat \<Rightarrow> (u8 list \<times> nat) parse" where
  "read_exact f pos n =
     (if n = 0 \<or> pos + n \<le> length f then Inr (take n (drop pos f), pos + n) else Inl (Fail ''''))"

definition read_u :: "u8 list \<Rightarrow> nat \<Rightarrow> nat \<Rightarrow> (u64 \<times> nat) parse" where
  "read_u f pos n = bindE (read_exact f pos n) (\<lambda>(bs, pos). Inr (le_val bs, pos))"

definition read_string :: "u8 list \<Rightarrow> nat \<Rightarrow> (string \<times> nat) parse" where
  "read_string f pos =
     bindE (orfail ''eof in string length'' (read_u f pos 8)) (\<lambda>(len, pos).
       if len > kMaxNameLen then Inl (Fail ''string too long'')
       else bindE (orfail ''eof in string body'' (read_exact f pos (unat len))) (\<lambda>(bs, pos).
         Inr (map (\<lambda>b. char_of (uint b)) bs, pos)))"

text \<open>
  \<^verbatim>\<open>skip_value\<close>. The recursion of the C++ is on nested arrays; the fuel bounds the nesting depth, and since every array
  header takes 12 bytes of the file, fuel as large as the rest of the file is never used up
  (\<open>skip_value_fuel\<close>).
\<close>

function skip_value :: "nat \<Rightarrow> u8 list \<Rightarrow> u32 \<Rightarrow> nat \<Rightarrow> nat parse"
  and skip_elems :: "nat \<Rightarrow> u8 list \<Rightarrow> u32 \<Rightarrow> nat \<Rightarrow> nat \<Rightarrow> nat parse" where
  "skip_value fuel f t pos =
     (if t = V_STRING then bindE (read_string f pos) (\<lambda>(_, pos). Inr pos)
      else if t = V_ARRAY then
        bindE (orfail ''eof in array header''
                 (bindE (read_u f pos 4) (\<lambda>(elem, pos).
                    bindE (read_u f pos 8) (\<lambda>(count, pos). Inr (ucast elem :: u32, count, pos)))))
          (\<lambda>(elem, count, pos).
             case fuel of 0 \<Rightarrow> Inl Out_of_fuel | Suc n \<Rightarrow> skip_elems n f elem (unat count) pos)
      else if scalar_size t = 0 then Inl (Fail ''unknown kv value type'')
      else Inr (pos + scalar_size t))"
| "skip_elems fuel f t 0 pos = Inr pos"
| "skip_elems fuel f t (Suc k) pos =
     (case skip_value fuel f t pos of Inl e \<Rightarrow> Inl e | Inr pos \<Rightarrow> skip_elems fuel f t k pos)"
  by pat_completeness auto
termination
  by (relation "measures [\<lambda>x. case x of Inl (n, _) \<Rightarrow> n | Inr (n, _) \<Rightarrow> n,
                          \<lambda>x. case x of Inl _ \<Rightarrow> 0 | Inr (_, _, _, k, _) \<Rightarrow> Suc k]") auto

declare skip_value.simps [simp del]

definition is_uint_type :: "u32 \<Rightarrow> bool" where
  "is_uint_type t \<longleftrightarrow> t = V_UINT8 \<or> t = V_UINT16 \<or> t = V_UINT32 \<or> t = V_UINT64 \<or> t = V_BOOL"

definition is_int_type :: "u32 \<Rightarrow> bool" where
  "is_int_type t \<longleftrightarrow> t = V_INT8 \<or> t = V_INT16 \<or> t = V_INT32 \<or> t = V_INT64"

text \<open>One iteration of \<^verbatim>\<open>parse_kvs\<close>, after the key and the type code are read.\<close>

definition parse_value ::
  "u8 list \<Rightarrow> string \<Rightarrow> u32 \<Rightarrow> gguf_reader \<Rightarrow> nat \<Rightarrow> (gguf_reader \<times> nat) parse" where
  "parse_value f key type r vpos =
     (if type \<noteq> V_STRING \<and> type \<noteq> V_ARRAY \<and> scalar_size type = 0 then Inl (Fail ''unknown kv value type'')
      else if is_uint_type type then
        bindE (orfail ''eof in kv uvalue'' (read_u f vpos (scalar_size type))) (\<lambda>(v, pos).
          Inr (r\<lparr>kv_u := (kv_u r)(key \<mapsto> v), kv_pos := (kv_pos r)(key \<mapsto> of_nat vpos)\<rparr>, pos))
      else if is_int_type type then
        bindE (orfail ''eof in kv ivalue'' (read_u f vpos (scalar_size type))) (\<lambda>(v, pos).
          Inr (r\<lparr>kv_i := (kv_i r)(key \<mapsto> v), kv_pos := (kv_pos r)(key \<mapsto> of_nat vpos)\<rparr>, pos))
      else if type = V_FLOAT32 then
        bindE (orfail ''eof in kv fvalue'' (read_u f vpos 4)) (\<lambda>(v, pos).
          Inr (r\<lparr>kv_f := (kv_f r)(key \<mapsto> F32 (ucast v))\<rparr>, pos))
      else if type = V_FLOAT64 then
        bindE (orfail ''eof in kv fvalue'' (read_u f vpos 8)) (\<lambda>(v, pos).
          Inr (r\<lparr>kv_f := (kv_f r)(key \<mapsto> F64 v)\<rparr>, pos))
      else if type = V_STRING then
        bindE (read_string f vpos) (\<lambda>(s, pos). Inr (r\<lparr>kv_s := (kv_s r)(key \<mapsto> s)\<rparr>, pos))
      else if type = V_ARRAY then
        bindE (skip_value (length f) f V_ARRAY vpos) (\<lambda>pos. Inr (r, pos))
      else Inl (Fail ''unsupported kv type''))"

fun parse_kvs :: "u8 list \<Rightarrow> nat \<Rightarrow> gguf_reader \<Rightarrow> nat \<Rightarrow> (gguf_reader \<times> nat) parse" where
  "parse_kvs f 0 r pos = Inr (r, pos)"
| "parse_kvs f (Suc k) r pos =
     bindE (orfail ''eof in kv key'' (read_string f pos)) (\<lambda>(key, pos).
       bindE (orfail ''eof in kv type'' (read_u f pos 4)) (\<lambda>(type, pos).
         bindE (parse_value f key (ucast type) r pos) (\<lambda>(r, pos). parse_kvs f k r pos)))"

fun read_dims :: "u8 list \<Rightarrow> nat \<Rightarrow> nat \<Rightarrow> (u64 list \<times> nat) parse" where
  "read_dims f 0 pos = Inr ([], pos)"
| "read_dims f (Suc d) pos =
     bindE (orfail ''eof in tensor dim'' (read_u f pos 8)) (\<lambda>(x, pos).
       bindE (read_dims f d pos) (\<lambda>(xs, pos). Inr (x # xs, pos)))"

definition parse_tensor :: "u8 list \<Rightarrow> nat \<Rightarrow> (raw_tensor \<times> nat) parse" where
  "parse_tensor f pos =
     bindE (orfail ''eof in tensor name'' (read_string f pos)) (\<lambda>(name, pos).
       bindE (orfail ''eof in tensor ndims'' (read_u f pos 4)) (\<lambda>(n_dims, pos).
         if n_dims > 4 then Inl (Fail ''tensor ndims > 4'')
         else bindE (read_dims f (unat n_dims) pos) (\<lambda>(dims, pos).
           bindE (orfail ''eof in tensor type'' (read_u f pos 4)) (\<lambda>(type, fpos).
             bindE (orfail ''eof in tensor offset'' (read_u f fpos 8)) (\<lambda>(off, pos).
               Inr (\<lparr>rt_name = name, rt_dims = dims, ggml_type = ucast type, rel_offset = off,
                     offset_field_pos = of_nat fpos\<rparr>, pos))))))"

fun parse_tensors :: "u8 list \<Rightarrow> nat \<Rightarrow> nat \<Rightarrow> (raw_tensor list \<times> nat) parse" where
  "parse_tensors f 0 pos = Inr ([], pos)"
| "parse_tensors f (Suc k) pos =
     bindE (parse_tensor f pos) (\<lambda>(t, pos).
       bindE (parse_tensors f k pos) (\<lambda>(ts, pos). Inr (t # ts, pos)))"

text \<open>\<^verbatim>\<open>tensors_.reserve(count)\<close> throws \<^verbatim>\<open>length_error\<close> above the vector's \<^verbatim>\<open>max_size()\<close>, an argument.\<close>

definition parse_tensor_dir :: "u64 \<Rightarrow> u8 list \<Rightarrow> u64 \<Rightarrow> nat \<Rightarrow> (raw_tensor list \<times> nat) parse" where
  "parse_tensor_dir max_size f count pos =
     (if count > max_size then Inl Length_error else parse_tensors f (unat count) pos)"

definition kv_u64 :: "gguf_reader \<Rightarrow> string \<Rightarrow> u64 option" where
  "kv_u64 r key = kv_u r key"

definition kv_i64 :: "gguf_reader \<Rightarrow> string \<Rightarrow> u64 option" where
  "kv_i64 r key = kv_i r key"

definition kv_f64 :: "gguf_reader \<Rightarrow> string \<Rightarrow> float_bits option" where
  "kv_f64 r key = kv_f r key"

definition kv_str :: "gguf_reader \<Rightarrow> string \<Rightarrow> string option" where
  "kv_str r key = kv_s r key"

definition kv_bool :: "gguf_reader \<Rightarrow> string \<Rightarrow> bool option" where
  "kv_bool r key = (case kv_b r key of Some b \<Rightarrow> Some b | None \<Rightarrow> map_option (\<lambda>v. v \<noteq> 0) (kv_u r key))"

definition has_kv :: "gguf_reader \<Rightarrow> string \<Rightarrow> bool" where
  "has_kv r key \<longleftrightarrow> kv_u r key \<noteq> None \<or> kv_i r key \<noteq> None \<or> kv_f r key \<noteq> None \<or> kv_s r key \<noteq> None \<or> kv_b r key \<noteq> None"

definition kv_scalar_value_pos :: "gguf_reader \<Rightarrow> string \<Rightarrow> u64 option" where
  "kv_scalar_value_pos r key = kv_pos r key"

text \<open>\<^verbatim>\<open>open\<close>: \<open>None\<close> stands for a path that cannot be opened.\<close>

definition gguf_open :: "u64 \<Rightarrow> u8 list option \<Rightarrow> gguf_reader parse" where
  "gguf_open max_size file =
     (case file of
        None \<Rightarrow> Inl (Fail ''cannot open file'')
      | Some f \<Rightarrow>
          bindE (orfail ''eof at magic'' (read_u f 0 4)) (\<lambda>(magic, pos).
            if ucast magic \<noteq> kGgufMagic then Inl (Fail ''bad magic (not GGUF)'')
            else bindE (orfail ''eof at version'' (read_u f pos 4)) (\<lambda>(ver, pos).
              if ver < 2 \<or> ver > 3 then Inl (Fail ''unsupported gguf version'')
              else bindE (orfail ''eof at counts''
                      (bindE (read_u f pos 8) (\<lambda>(n_tensors, pos).
                         bindE (read_u f pos 8) (\<lambda>(n_kv, pos). Inr (n_tensors, n_kv, pos)))))
                (\<lambda>(n_tensors, n_kv, pos).
                   bindE (parse_kvs f (unat n_kv) (new_gguf_reader\<lparr>version := ucast ver\<rparr>) pos) (\<lambda>(r, pos).
                     let r = r\<lparr>kv_end := of_nat pos\<rparr>;
                         alignment = (case kv_u64 r ''general.alignment'' of Some a \<Rightarrow> a | None \<Rightarrow> 32)
                     in if alignment = 0 \<or> alignment AND (alignment - 1) \<noteq> 0
                        then Inl (Fail ''invalid alignment'')
                        else bindE (parse_tensor_dir max_size f n_tensors pos) (\<lambda>(ts, pos).
                          Inr (r\<lparr>io_alignment := alignment, raw_tensors := ts, meta_end := of_nat pos,
                                data_offset := align_up (of_nat pos) alignment\<rparr>)))))))"

definition ggml_type_names :: "string list" where
  "ggml_type_names =
     [''f32'', ''f16'', ''q4_0'', ''q4_1'', ''?4'', ''?5'', ''q5_0'', ''q5_1'', ''q8_0'', ''q8_1'', ''q2_k'',
      ''q3_k'', ''q4_k'', ''q5_k'', ''q6_k'', ''q8_k'', ''iq2_xxs'', ''iq2_xs'', ''iq3_xxs'', ''iq1_s'', ''iq4_nl'', ''iq3_s'',
      ''iq2_s'', ''iq4_xs'', ''i8'', ''i16'', ''i32'', ''i64'', ''f64'', ''iq1_m'', ''bf16'', ''?31'', ''?32'',
      ''?33'', ''tq1_0'', ''tq2_0'', ''?36'', ''?37'', ''?38'', ''mxfp4'', ''nvfp4'', ''q1_0'', ''q2_0'']"

definition ggml_type_name :: "u32 \<Rightarrow> string" where
  "ggml_type_name i = (if i < of_nat (length ggml_type_names) then ggml_type_names ! unat i else ''unknown'')"

section \<open>A reference encoder\<close>

text \<open>The GGUF layout as the format defines it, written as an encoder of abstract metadata.\<close>

datatype gval = GScalar u32 u64 | GStr string | GArr u32 "gval list"

fun le_bytes :: "nat \<Rightarrow> u64 \<Rightarrow> u8 list" where
  "le_bytes 0 v = []"
| "le_bytes (Suc n) v = ucast v # le_bytes n (v div 256)"

definition enc_str :: "string \<Rightarrow> u8 list" where
  "enc_str s = le_bytes 8 (of_nat (length s)) @ map (\<lambda>c. of_char c) s"

fun gtype :: "gval \<Rightarrow> u32" where
  "gtype (GScalar t v) = t"
| "gtype (GStr s) = V_STRING"
| "gtype (GArr t vs) = V_ARRAY"

fun enc_val :: "gval \<Rightarrow> u8 list" where
  "enc_val (GScalar t v) = le_bytes (scalar_size t) v"
| "enc_val (GStr s) = enc_str s"
| "enc_val (GArr t vs) = le_bytes 4 (ucast t) @ le_bytes 8 (of_nat (length vs)) @ concat (map enc_val vs)"

definition wf_str :: "string \<Rightarrow> bool" where
  "wf_str s \<longleftrightarrow> length s \<le> 1048576"

fun wf_val :: "gval \<Rightarrow> bool" where
  "wf_val (GScalar t v) \<longleftrightarrow> scalar_size t \<noteq> 0 \<and> uint v < 256 ^ scalar_size t"
| "wf_val (GStr s) \<longleftrightarrow> wf_str s"
| "wf_val (GArr t vs) \<longleftrightarrow> int (length vs) < 2 ^ 64 \<and> list_all (\<lambda>v. gtype v = t \<and> wf_val v) vs"

fun depth :: "gval \<Rightarrow> nat" where
  "depth (GArr t vs) = Suc (foldr max (map depth vs) 0)"
| "depth _ = 0"

section \<open>Reading what was encoded\<close>

text \<open>\<open>at f pos xs\<close>: the bytes \<open>xs\<close> stand at \<open>pos\<close> in the file.\<close>

definition bytes_at :: "u8 list \<Rightarrow> nat \<Rightarrow> u8 list \<Rightarrow> bool" where
  "bytes_at f pos xs \<longleftrightarrow> (\<exists>post. drop pos f = xs @ post)"

named_theorems gguf_at \<open>reading encoded bytes\<close>

lemma bytes_at_append [gguf_at, simp]:
  "bytes_at f pos (xs @ ys) \<longleftrightarrow> bytes_at f pos xs \<and> bytes_at f (pos + length xs) ys"
proof
  assume "bytes_at f pos (xs @ ys)"
  then obtain post where d: "drop pos f = xs @ ys @ post" by (auto simp: bytes_at_def)
  then have "drop (pos + length xs) f = ys @ post" by (metis append_eq_conv_conj add.commute drop_drop)
  with d show "bytes_at f pos xs \<and> bytes_at f (pos + length xs) ys" by (auto simp: bytes_at_def)
next
  assume "bytes_at f pos xs \<and> bytes_at f (pos + length xs) ys"
  then obtain p q where "drop pos f = xs @ p" "drop (pos + length xs) f = ys @ q" by (auto simp: bytes_at_def)
  then have "drop pos f = (xs @ ys) @ q" by (metis append.assoc append_eq_conv_conj add.commute drop_drop)
  then show "bytes_at f pos (xs @ ys)" unfolding bytes_at_def by blast
qed

lemma bytes_at_Nil [gguf_at, simp]: "bytes_at f pos []"
  by (simp add: bytes_at_def)

lemma bytes_at_length: "bytes_at f pos xs \<Longrightarrow> xs \<noteq> [] \<Longrightarrow> pos + length xs \<le> length f"
proof -
  assume "bytes_at f pos xs" "xs \<noteq> []"
  then obtain p where d: "drop pos f = xs @ p" by (auto simp: bytes_at_def)
  then have "length f - pos = length xs + length p" by (metis length_append length_drop)
  moreover have "length xs > 0" using \<open>xs \<noteq> []\<close> by simp
  ultimately show ?thesis by linarith
qed

lemma read_exact_at [gguf_at]:
  "bytes_at f pos xs \<Longrightarrow> read_exact f pos (length xs) = Inr (xs, pos + length xs)"
  using bytes_at_length [of f pos xs]
  by (cases "xs = []") (auto simp: read_exact_def bytes_at_def)

lemma length_le_bytes [simp]: "length (le_bytes n v) = n"
  by (induction n arbitrary: v) simp_all

lemma ucast8_mod: "(ucast (ucast (v :: u64) :: u8) :: u64) = v mod 256"
  by (rule word_uint_eqI) (simp add: unsigned_ucast_eq take_bit_eq_mod uint_mod)

lemma le_val_bytes: "uint v < 256 ^ n \<Longrightarrow> le_val (le_bytes n v) = v"
proof (induction n arbitrary: v)
  case 0
  then show ?case by (simp add: word_uint_eq_iff) (metis int_one_le_iff_zero_less not_less uint_ge_0 order_antisym)
next
  case (Suc n)
  have "uint (v div 256) = uint v div 256" by (simp add: uint_div)
  also have "\<dots> < 256 ^ n" using Suc.prems by (simp add: div_less_iff_less_mult mult.commute)
  finally have "le_val (le_bytes n (v div 256)) = v div 256" by (rule Suc.IH)
  then show ?case by (simp add: ucast8_mod mod_mult_div_eq)
qed

lemma read_u_at [gguf_at]:
  "bytes_at f pos (le_bytes n v) \<Longrightarrow> uint v < 256 ^ n \<Longrightarrow> read_u f pos n = Inr (v, pos + n)"
  using read_exact_at [of f pos "le_bytes n v"] by (simp add: read_u_def le_val_bytes)

lemma uint_lt_256_8 [simp]: "uint (v :: u64) < 18446744073709551616"
  using uint_lt2p [of v] by simp

lemma char_byte [simp]: "char_of (uint (of_char c :: u8)) = c"
proof -
  have "(of_char c :: u8) = word_of_int (of_char c)" by (simp add: of_char_def)
  moreover have "(of_char c :: int) < 256" "0 \<le> (of_char c :: int)"
    by (simp_all add: of_char_def horner_sum_bound)
  ultimately have "uint (of_char c :: u8) = of_char c"
    by (simp add: uint_word_of_int)
  then show ?thesis by simp
qed

lemma read_string_at [gguf_at]:
  assumes "bytes_at f pos (enc_str s)" "wf_str s"
  shows "read_string f pos = Inr (s, pos + length (enc_str s))"
proof -
  let ?n = "of_nat (length s) :: u64"
  have l: "unat ?n = length s" using assms(2) by (simp add: wf_str_def unat_of_nat)
  then have le: "\<not> ?n > kMaxNameLen" using assms(2) by (simp add: kMaxNameLen_def word_less_nat_alt wf_str_def)
  have r: "read_u f pos 8 = Inr (?n, pos + 8)"
    using assms(1) read_u_at [of f pos 8 ?n] by (simp add: enc_str_def)
  have "read_exact f (pos + 8) (length s) = Inr (map of_char s, pos + 8 + length s)"
    using assms(1) read_exact_at [of f "pos + 8" "map of_char s"] by (simp add: enc_str_def)
  then show ?thesis using r l le by (simp add: read_string_def enc_str_def comp_def)
qed

lemma uint_ucast_le4 [simp]: "uint (ucast (t :: u32) :: u64) < 4294967296"
  using uint_lt2p [of t] by (simp add: unsigned_ucast_eq take_bit_int_eq_self)

lemma ucast_ucast32 [simp]: "(ucast (ucast (t :: u32) :: u64) :: u32) = t"
proof (rule word_uint_eqI)
  have "take_bit 64 (uint t) = uint t" "take_bit 32 (uint t) = uint t"
    using uint_lt2p [of t] by (simp_all add: take_bit_int_eq_self)
  then show "uint (ucast (ucast t :: u64) :: u32) = uint t"
    by (simp add: unsigned_ucast_eq unsigned_take_bit_eq)
qed

lemma read_u32_at: "bytes_at f pos (le_bytes 4 (ucast (t :: u32))) \<Longrightarrow> read_u f pos 4 = Inr (ucast t, pos + 4)"
  by (rule read_u_at) simp_all

lemma read_u64_at: "bytes_at f pos (le_bytes 8 v) \<Longrightarrow> read_u f pos 8 = Inr (v, pos + 8)"
  by (rule read_u_at) simp_all

lemma scalar_type_neq: "scalar_size t \<noteq> 0 \<Longrightarrow> t \<noteq> V_STRING \<and> t \<noteq> V_ARRAY"
  by (auto simp: scalar_size_def v_defs)

lemma array_not_string [simp]: "V_ARRAY \<noteq> V_STRING" "V_STRING \<noteq> V_ARRAY"
  by (simp_all add: v_defs)

lemma float_types [simp]: "V_FLOAT32 \<noteq> V_STRING" "V_FLOAT32 \<noteq> V_ARRAY" "V_FLOAT64 \<noteq> V_STRING" "V_FLOAT64 \<noteq> V_ARRAY"
  "V_FLOAT64 \<noteq> V_FLOAT32" "scalar_size V_FLOAT32 = 4" "scalar_size V_FLOAT64 = 8"
  by (simp_all add: v_defs scalar_size_def)

lemma skip_elems_at:
  assumes "\<And>v pos. v \<in> set vs \<Longrightarrow> bytes_at f pos (enc_val v) \<Longrightarrow> skip_value n f t pos = Inr (pos + length (enc_val v))"
  shows "bytes_at f pos (concat (map enc_val vs)) \<Longrightarrow>
    skip_elems n f t (length vs) pos = Inr (pos + length (concat (map enc_val vs)))"
  using assms
proof (induction vs arbitrary: pos)
  case Nil
  then show ?case by simp
next
  case (Cons v vs)
  have "skip_value n f t pos = Inr (pos + length (enc_val v))" using Cons.prems by simp
  moreover have "skip_elems n f t (length vs) (pos + length (enc_val v)) =
      Inr (pos + length (enc_val v) + length (concat (map enc_val vs)))"
    by (rule Cons.IH) (use Cons.prems in simp_all)
  ultimately show ?case by simp
qed

lemma depth_elem: "v \<in> set vs \<Longrightarrow> depth v \<le> foldr max (map depth vs) 0"
  by (induction vs) auto

lemma skip_value_at:
  "bytes_at f pos (enc_val v) \<Longrightarrow> wf_val v \<Longrightarrow> depth v \<le> fuel \<Longrightarrow>
   skip_value fuel f (gtype v) pos = Inr (pos + length (enc_val v))"
proof (induction v arbitrary: pos fuel)
  case (GScalar t v)
  then show ?case using scalar_type_neq [of t] by (simp add: skip_value.simps)
next
  case (GStr s)
  then show ?case by (simp add: skip_value.simps read_string_at)
next
  case (GArr t vs)
  obtain n where n: "fuel = Suc n" using GArr.prems(3) by (cases fuel) auto
  have len: "unat (of_nat (length vs) :: u64) = length vs" using GArr.prems(2) by (simp add: unat_of_nat)
  have "skip_elems n f t (length vs) (pos + 12) = Inr (pos + 12 + length (concat (map enc_val vs)))"
  proof (rule skip_elems_at)
    fix v p assume v: "v \<in> set vs" and "bytes_at f p (enc_val v)"
    moreover have "gtype v = t" "wf_val v" "depth v \<le> n"
      using v GArr.prems(2,3) depth_elem [of v vs] n by (auto simp: list_all_iff)
    ultimately show "skip_value n f t p = Inr (p + length (enc_val v))" using GArr.IH [OF v] by auto
  next
    show "bytes_at f (pos + 12) (concat (map enc_val vs))" using GArr.prems(1) by (simp add: add.assoc)
  qed
  moreover have "read_u f pos 4 = Inr (ucast t, pos + 4)" "read_u f (pos + 4) 8 = Inr (of_nat (length vs), pos + 12)"
    using GArr.prems(1) read_u32_at [of f pos t] read_u64_at [of f "pos + 4" "of_nat (length vs)"] by simp_all
  ultimately show ?case
    using len n by (simp add: skip_value.simps [of "Suc n" f V_ARRAY] array_not_string)
qed

lemma depth_le_length: "wf_val v \<Longrightarrow> depth v \<le> length (enc_val v)"
proof (induction v)
  case (GArr t vs)
  have "foldr max (map depth vs) 0 \<le> length (concat (map enc_val vs))"
    using GArr by (induction vs) (fastforce simp: list_all_iff intro: trans_le_add1 trans_le_add2)+
  then show ?case by simp
qed simp_all

text \<open>What one key-value pair stores in the reader; \<open>vpos\<close> is the position of its value field.\<close>

fun kv_apply :: "gguf_reader \<Rightarrow> nat \<Rightarrow> string \<Rightarrow> gval \<Rightarrow> gguf_reader" where
  "kv_apply r vpos key (GScalar t v) =
     (if is_uint_type t then r\<lparr>kv_u := (kv_u r)(key \<mapsto> v), kv_pos := (kv_pos r)(key \<mapsto> of_nat vpos)\<rparr>
      else if is_int_type t then r\<lparr>kv_i := (kv_i r)(key \<mapsto> v), kv_pos := (kv_pos r)(key \<mapsto> of_nat vpos)\<rparr>
      else r\<lparr>kv_f := (kv_f r)(key \<mapsto> (if t = V_FLOAT32 then F32 (ucast v) else F64 v))\<rparr>)"
| "kv_apply r vpos key (GStr s) = r\<lparr>kv_s := (kv_s r)(key \<mapsto> s)\<rparr>"
| "kv_apply r vpos key (GArr t vs) = r"

lemma scalar_types:
  "scalar_size t \<noteq> 0 \<Longrightarrow> \<not> is_uint_type t \<Longrightarrow> \<not> is_int_type t \<Longrightarrow>
   t = V_FLOAT32 \<and> scalar_size t = 4 \<or> t = V_FLOAT64 \<and> scalar_size t = 8"
  by (auto simp: scalar_size_def is_uint_type_def is_int_type_def v_defs split: if_splits)

lemma parse_value_at:
  assumes at: "bytes_at f pos (enc_val v)" and wf: "wf_val v" and ne: "enc_val v \<noteq> []"
  shows "parse_value f key (gtype v) r pos = Inr (kv_apply r pos key v, pos + length (enc_val v))"
proof (cases v)
  case (GScalar t x)
  then have t: "scalar_size t \<noteq> 0" "read_u f pos (scalar_size t) = Inr (x, pos + scalar_size t)"
    using at wf read_u_at [of f pos "scalar_size t" x] by auto
  show ?thesis
    using t GScalar scalar_types [OF t(1)] scalar_type_neq [OF t(1)]
    by (cases "is_uint_type t"; cases "is_int_type t") (auto simp: parse_value_def)
next
  case (GStr s)
  then show ?thesis
    using at wf by (simp add: parse_value_def read_string_at is_uint_type_def is_int_type_def v_defs)
next
  case (GArr t vs)
  have "depth v \<le> length f"
    using depth_le_length [OF wf] bytes_at_length [OF at ne] by linarith
  then have "skip_value (length f) f V_ARRAY pos = Inr (pos + length (enc_val v))"
    using skip_value_at [OF at wf] GArr by simp
  with GArr show ?thesis
    by (simp add: parse_value_def is_uint_type_def is_int_type_def v_defs)
qed

type_synonym kv = "string \<times> gval"

definition enc_kv :: "kv \<Rightarrow> u8 list" where
  "enc_kv p = enc_str (fst p) @ le_bytes 4 (ucast (gtype (snd p))) @ enc_val (snd p)"

definition wf_kv :: "kv \<Rightarrow> bool" where
  "wf_kv p \<longleftrightarrow> wf_str (fst p) \<and> wf_val (snd p)"

fun kvs_apply :: "gguf_reader \<Rightarrow> nat \<Rightarrow> kv list \<Rightarrow> gguf_reader" where
  "kvs_apply r pos [] = r"
| "kvs_apply r pos (p # ps) =
     kvs_apply (kv_apply r (pos + length (enc_str (fst p)) + 4) (fst p) (snd p)) (pos + length (enc_kv p)) ps"

lemma enc_val_nonempty: "wf_val v \<Longrightarrow> enc_val v \<noteq> []"
  by (cases v) (auto simp: enc_str_def dest: arg_cong [of _ _ length])

lemma parse_kvs_at:
  "bytes_at f pos (concat (map enc_kv ps)) \<Longrightarrow> list_all wf_kv ps \<Longrightarrow>
   parse_kvs f (length ps) r pos = Inr (kvs_apply r pos ps, pos + length (concat (map enc_kv ps)))"
proof (induction ps arbitrary: r pos)
  case Nil
  then show ?case by simp
next
  case (Cons p ps)
  obtain k v where p: "p = (k, v)" by (cases p)
  let ?p1 = "pos + length (enc_str k)"
  have a: "bytes_at f pos (enc_str k)" "bytes_at f ?p1 (le_bytes 4 (ucast (gtype v)))"
    "bytes_at f (?p1 + 4) (enc_val v)" "bytes_at f (pos + length (enc_kv p)) (concat (map enc_kv ps))"
    using Cons.prems(1) p by (simp_all add: enc_kv_def [of "(k, v)"] add.assoc)
  have w: "wf_str k" "wf_val v" "list_all wf_kv ps" using Cons.prems(2) p by (simp_all add: wf_kv_def [of "(k, v)"])
  have l: "?p1 + 4 + length (enc_val v) = pos + length (enc_kv p)" using p by (simp add: enc_kv_def)
  show ?case
    using read_string_at [OF a(1) w(1)] read_u32_at [OF a(2)]
      parse_value_at [OF a(3) w(2) enc_val_nonempty [OF w(2)], of k r] Cons.IH [OF a(4) w(3)] p l
    by (simp add: add.assoc)
qed

record gtensor =
  gt_name :: string
  gt_dims :: "u64 list"
  gt_type :: u32
  gt_off :: u64

definition enc_tensor_head :: "gtensor \<Rightarrow> u8 list" where
  "enc_tensor_head t = enc_str (gt_name t) @ le_bytes 4 (of_nat (length (gt_dims t)))
     @ concat (map (le_bytes 8) (gt_dims t)) @ le_bytes 4 (ucast (gt_type t))"

definition enc_tensor :: "gtensor \<Rightarrow> u8 list" where
  "enc_tensor t = enc_tensor_head t @ le_bytes 8 (gt_off t)"

definition wf_tensor :: "gtensor \<Rightarrow> bool" where
  "wf_tensor t \<longleftrightarrow> wf_str (gt_name t) \<and> length (gt_dims t) \<le> 4"

definition raw_of :: "nat \<Rightarrow> gtensor \<Rightarrow> raw_tensor" where
  "raw_of pos t = \<lparr>rt_name = gt_name t, rt_dims = gt_dims t, ggml_type = gt_type t, rel_offset = gt_off t,
     offset_field_pos = of_nat (pos + length (enc_tensor_head t))\<rparr>"

fun raws_of :: "nat \<Rightarrow> gtensor list \<Rightarrow> raw_tensor list" where
  "raws_of pos [] = []"
| "raws_of pos (t # ts) = raw_of pos t # raws_of (pos + length (enc_tensor t)) ts"

lemma read_dims_at:
  "bytes_at f pos (concat (map (le_bytes 8) ds)) \<Longrightarrow>
   read_dims f (length ds) pos = Inr (ds, pos + length (concat (map (le_bytes 8) ds)))"
proof (induction ds arbitrary: pos)
  case (Cons d ds)
  then show ?case using read_u64_at [of f pos d] by (simp add: add.assoc)
qed simp

lemma parse_tensor_at:
  assumes at: "bytes_at f pos (enc_tensor t)" and wf: "wf_tensor t"
  shows "parse_tensor f pos = Inr (raw_of pos t, pos + length (enc_tensor t))"
proof -
  let ?n = "of_nat (length (gt_dims t)) :: u64"
  let ?p1 = "pos + length (enc_str (gt_name t))" and ?dl = "length (concat (map (le_bytes 8) (gt_dims t)))"
  have n: "unat ?n = length (gt_dims t)" "\<not> ?n > 4" and u: "uint ?n < 256 ^ 4"
    using wf by (simp_all add: wf_tensor_def unat_of_nat word_less_nat_alt uint_nat)
  have a: "bytes_at f pos (enc_str (gt_name t))" "bytes_at f ?p1 (le_bytes 4 ?n)"
    "bytes_at f (?p1 + 4) (concat (map (le_bytes 8) (gt_dims t)))"
    "bytes_at f (?p1 + 4 + ?dl) (le_bytes 4 (ucast (gt_type t)))"
    "bytes_at f (?p1 + 4 + ?dl + 4) (le_bytes 8 (gt_off t))"
    using at by (simp_all add: enc_tensor_def enc_tensor_head_def add.assoc)
  have "wf_str (gt_name t)" using wf by (simp add: wf_tensor_def)
  note r = read_string_at [OF a(1) this] read_u_at [OF a(2) u] read_dims_at [OF a(3)]
    read_u32_at [OF a(4)] read_u64_at [OF a(5)]
  then show ?thesis
    using n by (simp add: parse_tensor_def raw_of_def enc_tensor_def enc_tensor_head_def add.assoc)
qed

lemma parse_tensors_at:
  "bytes_at f pos (concat (map enc_tensor ts)) \<Longrightarrow> list_all wf_tensor ts \<Longrightarrow>
   parse_tensors f (length ts) pos = Inr (raws_of pos ts, pos + length (concat (map enc_tensor ts)))"
proof (induction ts arbitrary: pos)
  case (Cons t ts)
  then show ?case using parse_tensor_at [of f pos t] by (simp add: add.assoc)
qed simp

section \<open>The round trip\<close>

record gmeta =
  gm_version :: u32
  gm_kvs :: "kv list"
  gm_tensors :: "gtensor list"

definition enc_head :: "gmeta \<Rightarrow> u8 list" where
  "enc_head g = le_bytes 4 (ucast kGgufMagic) @ le_bytes 4 (ucast (gm_version g))
     @ le_bytes 8 (of_nat (length (gm_tensors g))) @ le_bytes 8 (of_nat (length (gm_kvs g)))"

definition enc_meta :: "gmeta \<Rightarrow> u8 list" where
  "enc_meta g = enc_head g @ concat (map enc_kv (gm_kvs g)) @ concat (map enc_tensor (gm_tensors g))"

definition alignment_of :: "kv list \<Rightarrow> u64" where
  "alignment_of ps =
     (case kv_u (kvs_apply new_gguf_reader 24 ps) ''general.alignment'' of Some a \<Rightarrow> a | None \<Rightarrow> 32)"

definition wf_meta :: "u64 \<Rightarrow> gmeta \<Rightarrow> bool" where
  "wf_meta max_size g \<longleftrightarrow>
     gm_version g \<in> {2, 3} \<and> list_all wf_kv (gm_kvs g) \<and> list_all wf_tensor (gm_tensors g)
     \<and> int (length (gm_kvs g)) < 2 ^ 64 \<and> int (length (gm_tensors g)) \<le> uint max_size
     \<and> alignment_of (gm_kvs g) \<noteq> 0 \<and> alignment_of (gm_kvs g) AND (alignment_of (gm_kvs g) - 1) = 0"

lemma kv_apply_fields [simp]:
  "version (kv_apply r p k v) = version r" "raw_tensors (kv_apply r p k v) = raw_tensors r"
  "kv_b (kv_apply r p k v) = kv_b r"
  by (cases v; simp)+

lemma kvs_apply_fields [simp]:
  "version (kvs_apply r p ps) = version r" "raw_tensors (kvs_apply r p ps) = raw_tensors r"
  "kv_b (kvs_apply r p ps) = kv_b r"
  by (induction r p ps rule: kvs_apply.induct) simp_all

lemma kvs_apply_kv_u:
  "kv_u r = kv_u r' \<Longrightarrow> kv_u (kvs_apply r p ps) = kv_u (kvs_apply r' p ps)"
proof (induction ps arbitrary: r r' p)
  case (Cons x ps)
  have "kv_u (kv_apply r q k v) = kv_u (kv_apply r' q k v)" for q k v
    using Cons.prems by (cases v) simp_all
  then show ?case unfolding kvs_apply.simps by (rule Cons.IH)
qed simp

definition read_back :: "gmeta \<Rightarrow> gguf_reader" where
  "read_back g =
     (let r = kvs_apply (new_gguf_reader\<lparr>version := gm_version g\<rparr>) 24 (gm_kvs g);
          kve = 24 + length (concat (map enc_kv (gm_kvs g)))
      in r\<lparr>kv_end := of_nat kve, io_alignment := alignment_of (gm_kvs g),
           raw_tensors := raws_of kve (gm_tensors g), meta_end := of_nat (length (enc_meta g)),
           data_offset := align_up (of_nat (length (enc_meta g))) (alignment_of (gm_kvs g))\<rparr>)"

lemma gguf_open_enc:
  assumes wf: "wf_meta max_size g"
  shows "gguf_open max_size (Some (enc_meta g @ data)) = Inr (read_back g)"
proof -
  let ?f = "enc_meta g @ data" and ?nt = "of_nat (length (gm_tensors g)) :: u64" and ?nk = "of_nat (length (gm_kvs g)) :: u64"
  let ?kve = "24 + length (concat (map enc_kv (gm_kvs g)))"
  have "bytes_at ?f 0 (enc_meta g)" unfolding bytes_at_def by simp
  then have a: "bytes_at ?f 0 (le_bytes 4 (ucast kGgufMagic))" "bytes_at ?f 4 (le_bytes 4 (ucast (gm_version g)))"
    "bytes_at ?f 8 (le_bytes 8 ?nt)" "bytes_at ?f 16 (le_bytes 8 ?nk)"
    "bytes_at ?f 24 (concat (map enc_kv (gm_kvs g)))" "bytes_at ?f ?kve (concat (map enc_tensor (gm_tensors g)))"
    by (simp_all add: enc_meta_def enc_head_def)
  have w: "list_all wf_kv (gm_kvs g)" "list_all wf_tensor (gm_tensors g)" "gm_version g = 2 \<or> gm_version g = 3"
    using wf by (auto simp: wf_meta_def)
  have "int (length (gm_tensors g)) \<le> uint max_size" using wf by (simp add: wf_meta_def)
  then have "length (gm_tensors g) \<le> unat max_size" by (metis of_nat_le_iff uint_nat)
  then have tn: "unat ?nt = length (gm_tensors g)" "\<not> ?nt > max_size"
    using le_less_trans [OF _ unat_lt64 [of max_size]] by (simp_all add: unat_of_nat word_less_nat_alt)
  have kn: "unat ?nk = length (gm_kvs g)" using wf by (simp add: wf_meta_def unat_of_nat)
  have ver: "\<not> (ucast (gm_version g) :: u64) < 2" "\<not> (ucast (gm_version g) :: u64) > 3"
    using w(3) by auto
  have al: "(case kv_u (kvs_apply (new_gguf_reader\<lparr>version := gm_version g\<rparr>) 24 (gm_kvs g)) ''general.alignment'' of
      Some a \<Rightarrow> a | None \<Rightarrow> 32) = alignment_of (gm_kvs g)"
    unfolding alignment_of_def by (subst kvs_apply_kv_u [of _ new_gguf_reader]) simp_all
  have ok: "alignment_of (gm_kvs g) \<noteq> 0" "alignment_of (gm_kvs g) AND (alignment_of (gm_kvs g) - 1) = 0"
    using wf by (simp_all add: wf_meta_def)
  have len: "?kve + length (concat (map enc_tensor (gm_tensors g))) = length (enc_meta g)"
    by (simp add: enc_meta_def enc_head_def)
  show ?thesis
    using read_u32_at [OF a(1)] read_u32_at [OF a(2)] read_u64_at [OF a(3)] read_u64_at [OF a(4)]
      parse_kvs_at [OF a(5) w(1)] parse_tensors_at [OF a(6) w(2)] tn kn ver ok len
    by (simp add: gguf_open_def read_back_def Let_def kv_u64_def al parse_tensor_dir_def)
qed

text \<open>\<open>stored r (k, v)\<close>: the reader answers the lookup of \<open>k\<close> with \<open>v\<close>, in the class of its type.\<close>

fun stored :: "gguf_reader \<Rightarrow> kv \<Rightarrow> bool" where
  "stored r (k, GScalar t v) =
     (if is_uint_type t then kv_u64 r k = Some v
      else if is_int_type t then kv_i64 r k = Some v
      else kv_f64 r k = Some (if t = V_FLOAT32 then F32 (ucast v) else F64 v))"
| "stored r (k, GStr s) = (kv_str r k = Some s)"
| "stored r (k, GArr t vs) = True"

lemma stored_apply_same: "stored (kv_apply r p k v) (k, v)"
  by (cases v) (auto simp: kv_u64_def kv_i64_def kv_f64_def kv_str_def)

lemma stored_apply_other: "k \<noteq> k' \<Longrightarrow> stored r (k, v) \<Longrightarrow> stored (kv_apply r p k' v') (k, v)"
  by (cases v; cases v') (auto simp: kv_u64_def kv_i64_def kv_f64_def kv_str_def)

lemma stored_kvs_other: "k \<notin> fst ` set ps \<Longrightarrow> stored r (k, v) \<Longrightarrow> stored (kvs_apply r p ps) (k, v)"
  by (induction ps arbitrary: r p) (auto intro: stored_apply_other)

lemma stored_kvs_apply: "distinct (map fst ps) \<Longrightarrow> list_all (stored (kvs_apply r p ps)) ps"
proof (induction ps arbitrary: r p)
  case (Cons x ps)
  obtain k v where x: "x = (k, v)" by (cases x)
  have "stored (kvs_apply r p (x # ps)) x"
    using Cons.prems x stored_kvs_other [OF _ stored_apply_same, of k ps] by simp
  with Cons x show ?case by simp
qed simp

lemma stored_update [simp]:
  "stored (r\<lparr>kv_end := a, io_alignment := b, raw_tensors := c, meta_end := d, data_offset := e\<rparr>) = stored r"
proof
  fix p :: kv
  obtain k v where "p = (k, v)" by (cases p)
  then show "stored (r\<lparr>kv_end := a, io_alignment := b, raw_tensors := c, meta_end := d, data_offset := e\<rparr>) p = stored r p"
    by (cases v) (auto simp: kv_u64_def kv_i64_def kv_f64_def kv_str_def)
qed

lemma raws_of_contents:
  "map (\<lambda>t. (rt_name t, rt_dims t, ggml_type t, rel_offset t)) (raws_of pos ts) =
     map (\<lambda>t. (gt_name t, gt_dims t, gt_type t, gt_off t)) ts"
  by (induction ts arbitrary: pos) (simp_all add: raw_of_def)

lemma raws_of_field_pos:
  "bytes_at f pos (concat (map enc_tensor ts)) \<Longrightarrow> length f < 18446744073709551616 \<Longrightarrow>
   list_all (\<lambda>t. bytes_at f (unat (offset_field_pos t)) (le_bytes 8 (rel_offset t))) (raws_of pos ts)"
proof (induction ts arbitrary: pos)
  case (Cons t ts)
  let ?p = "pos + length (enc_tensor_head t)"
  have at: "bytes_at f ?p (le_bytes 8 (gt_off t))" using Cons.prems(1) by (simp add: enc_tensor_def)
  have "le_bytes 8 (gt_off t) \<noteq> []" by (metis length_le_bytes list.size(3) zero_neq_numeral)
  then have "?p < 18446744073709551616" using bytes_at_length [OF at] Cons.prems(2) by simp
  then have "unat (of_nat ?p :: u64) = ?p" by (simp add: unat_of_nat del: of_nat_add)
  with Cons at show ?case by (simp add: raw_of_def del: of_nat_add)
qed simp


text \<open>A small model file: two experts in one fused tensor, with a nested array among the pairs.\<close>

definition demo_meta :: gmeta where
  "demo_meta = \<lparr>gm_version = 3,
     gm_kvs = [(''general.architecture'', GStr ''moe''), (''general.alignment'', GScalar 4 32), (''moe.block_count'', GScalar 4 1),
               (''tok'', GArr 9 [GArr 8 [GStr ''a'', GStr ''b''], GArr 0 [GScalar 0 1]]),
               (''moe.expert_count'', GScalar 4 2), (''moe.expert_used_count'', GScalar 4 1), (''eps'', GScalar 6 5)],
     gm_tensors = [\<lparr>gt_name = ''blk.0.ffn_up_exps.weight'', gt_dims = [4, 8, 2], gt_type = 12, gt_off = 0\<rparr>,
                   \<lparr>gt_name = ''output.weight'', gt_dims = [4, 8], gt_type = 0, gt_off = 64\<rparr>]\<rparr>"

lemma wf_demo_meta: "wf_meta 1000 demo_meta"
  by (simp add: wf_meta_def demo_meta_def wf_kv_def wf_str_def wf_tensor_def scalar_size_def v_defs alignment_of_def
      is_uint_type_def is_int_type_def)


section \<open>Fuel, and two departures from the format\<close>

text \<open>Skipping never moves backwards.\<close>

lemma read_string_mono: "read_string f pos = Inr (s, p) \<Longrightarrow> pos \<le> p"
  by (auto simp: read_string_def read_u_def read_exact_def split: if_splits)

lemma skip_array:
  "skip_value fuel f V_ARRAY pos =
     (if pos + 12 \<le> length f
      then (case fuel of 0 \<Rightarrow> Inl Out_of_fuel
            | Suc n \<Rightarrow> skip_elems n f (ucast (le_val (take 4 (drop pos f)))) (unat (le_val (take 8 (drop (pos + 4) f)))) (pos + 12))
      else Inl (Fail ''eof in array header''))"
  by (auto simp: skip_value.simps [of fuel f V_ARRAY pos] read_u_def read_exact_def add.commute split: nat.splits)

lemma skip_flat:
  "t \<noteq> V_ARRAY \<Longrightarrow> skip_value fuel f t pos = skip_value fuel' f t pos"
  by (simp add: skip_value.simps [of _ f t pos])

lemma skip_flat_mono: "t \<noteq> V_ARRAY \<Longrightarrow> skip_value fuel f t pos = Inr p \<Longrightarrow> pos \<le> p"
  using read_string_mono [of f pos]
  by (cases "read_string f pos") (auto simp: skip_value.simps [of fuel f t pos] split: if_splits)

lemma skip_elems_mono:
  "(\<And>pos p. skip_value n f t pos = Inr p \<Longrightarrow> pos \<le> p) \<Longrightarrow> skip_elems n f t k pos = Inr p \<Longrightarrow> pos \<le> p"
  by (induction k arbitrary: pos) (auto split: sum.splits intro: le_trans)

lemma skip_value_mono: "skip_value n f t pos = Inr p \<Longrightarrow> pos \<le> p"
proof (induction n arbitrary: t pos p)
  case 0
  then show ?case by (cases "t = V_ARRAY") (auto simp: skip_array skip_flat_mono split: if_splits)
next
  case (Suc n)
  show ?case
  proof (cases "t = V_ARRAY")
    case True
    with Suc.prems have "pos + 12 \<le> p"
      using skip_elems_mono [of n f, OF Suc.IH] by (auto simp: skip_array split: if_splits)
    then show ?thesis by simp
  next
    case False
    with Suc.prems show ?thesis by (rule skip_flat_mono [rotated])
  qed
qed

lemma skip_elems_fuel:
  assumes "\<And>pos. length f - pos \<le> n \<Longrightarrow> skip_value (n + d) f t pos = skip_value n f t pos"
  shows "length f - pos \<le> n \<Longrightarrow> skip_elems (n + d) f t k pos = skip_elems n f t k pos"
proof (induction k arbitrary: pos)
  case (Suc k)
  show ?case
  proof (cases "skip_value n f t pos")
    case (Inr p)
    then have "length f - p \<le> n" using skip_value_mono [OF Inr] Suc.prems by linarith
    with Suc.IH Inr assms [OF Suc.prems] show ?thesis by simp
  qed (use assms [OF Suc.prems] in simp)
qed simp

text \<open>
  The fuel of \<^verbatim>\<open>skip_value\<close> is no restriction: fuel as large as the rest of the file gives the same
  result as any larger fuel, on every input, well formed or not.
\<close>

theorem skip_value_fuel:
  assumes "length f - pos \<le> n"
  shows "skip_value (n + d) f t pos = skip_value n f t pos"
  using assms
proof (induction n arbitrary: t pos)
  case 0
  then show ?case by (cases "t = V_ARRAY") (auto simp: skip_array intro: skip_flat)
next
  case (Suc n)
  show ?case
  proof (cases "t = V_ARRAY")
    case True
    have "skip_elems (n + d) f u k (pos + 12) = skip_elems n f u k (pos + 12)" for u k
      using Suc.prems by (intro skip_elems_fuel Suc.IH) auto
    with True show ?thesis by (simp add: skip_array)
  qed (rule skip_flat)
qed

theorem skip_value_fuel_witness:
  "skip_value (12 + 5) (le_bytes 4 9 @ le_bytes 8 0) 9 0 = skip_value 12 (le_bytes 4 9 @ le_bytes 8 0) 9 0"
  using skip_value_fuel [of "le_bytes 4 9 @ le_bytes 8 0" 0 12 5 9] by simp

text \<open>
  Arrays of scalars are skipped with \<^verbatim>\<open>fseek\<close>, which does not notice the end of the file: a 51-byte file
  whose only pair is an array that claims 40 more bytes is accepted, with a metadata end 40 bytes beyond its length.
\<close>

theorem truncated_array_accepted:
  "(let f = le_bytes 4 (ucast kGgufMagic) @ le_bytes 4 3 @ le_bytes 8 0 @ le_bytes 8 1
            @ enc_str ''abc'' @ le_bytes 4 9 @ le_bytes 4 0 @ le_bytes 8 40
    in (length f, case gguf_open 1000 (Some f) of Inl _ \<Rightarrow> None | Inr r \<Rightarrow> Some (meta_end r)))
   = (51, Some 91)"
  by code_simp

text \<open>
  A negative \<^verbatim>\<open>INT8\<close> (likewise \<^verbatim>\<open>INT16\<close>, \<^verbatim>\<open>INT32\<close>) value is read into the low bytes of a zeroed
  \<^verbatim>\<open>int64_t\<close>, so \<open>-1\<close> comes back from \<^verbatim>\<open>kv_i64\<close> as 255.
\<close>

theorem negative_int8_zero_extended:
  "(case gguf_open 1000 (Some (le_bytes 4 (ucast kGgufMagic) @ le_bytes 4 3 @ le_bytes 8 0 @ le_bytes 8 1
          @ enc_str ''x'' @ le_bytes 4 1 @ [- 1]))
    of Inl _ \<Rightarrow> None | Inr r \<Rightarrow> kv_i64 r ''x'') = Some 255"
  by code_simp

end
