(* ===== verification/Tensor_Classify.thy ===== *)
theory Tensor_Classify
  imports Cne_Prelude
begin

text \<open>
  \<^verbatim>\<open>core/src/gguf/classify.cpp\<close> and the enumeration of \<^verbatim>\<open>core/include/cne/model.h\<close>: the tensor taxonomy by
  name, which decides what is streamed (routed experts) and what stays resident.
\<close>

datatype tensor_kind =
    ROUTED_EXPERT | SHARED_EXPERT | ATTENTION | RECURRENT | SCALE | EMBEDDING | OUTPUT | NORM | OTHER

definition has_suffix :: "string \<Rightarrow> string \<Rightarrow> bool" where
  "has_suffix s suf \<longleftrightarrow> length suf \<le> length s \<and> drop (length s - length suf) s = suf"

definition parse_layer_index :: "string \<Rightarrow> int" where
  "parse_layer_index name =
     (case str_find name ''blk.'' 0 of
        None \<Rightarrow> -1
      | Some i \<Rightarrow>
          (let p = i + 4 in
           case str_find name ''.'' p of
             None \<Rightarrow> -1
           | Some e \<Rightarrow>
               if e = p then -1
               else if list_all is_digit (take (e - p) (drop p name)) then atoi (drop p name) else -1))"

definition classify_tensor :: "string \<Rightarrow> string \<Rightarrow> tensor_kind" where
  "classify_tensor arch name =
     (if has_suffix name ''.scale'' \<or> has_suffix name ''.input_scale'' then SCALE
      else if str_contains name ''_exps'' then ROUTED_EXPERT
      else if str_contains name ''shexp'' then SHARED_EXPERT
      else if starts_with name ''ssm.'' \<or> str_contains name ''ssm_'' \<or> starts_with name ''conv.'' then RECURRENT
      else if starts_with name ''attn.'' \<or> str_contains name ''attn_'' then ATTENTION
      else if starts_with name ''token_embd.'' then EMBEDDING
      else if starts_with name ''output.'' then OUTPUT
      else if str_contains name ''output_norm'' \<or> str_contains name ''.attn_norm'' then NORM
      else OTHER)"

section \<open>Substrings\<close>

lemma str_contains_iff: "str_contains s p \<longleftrightarrow> (\<exists>a b. s = a @ p @ b)"
proof
  assume "str_contains s p"
  then obtain i where "find_sub p s = Some i" by (auto simp: str_contains_def)
  then have "starts_with (drop i s) p" using find_sub_Some by blast
  then obtain r where "drop i s = p @ r" by (auto simp: starts_with_iff)
  then have "s = take i s @ p @ r" by (metis append_take_drop_id)
  then show "\<exists>a b. s = a @ p @ b" by blast
next
  assume "\<exists>a b. s = a @ p @ b"
  then obtain a b where s: "s = a @ p @ b" by blast
  then have "starts_with (drop (length a) s) p" "length a \<le> length s" by simp_all
  then show "str_contains s p" unfolding str_contains_def using find_sub_None [of p s] by blast
qed

lemma str_contains_trans: "str_contains s p \<Longrightarrow> str_contains p q \<Longrightarrow> str_contains s q"
  unfolding str_contains_iff by (metis append.assoc)

text \<open>
  The second test of the \<^verbatim>\<open>NORM\<close> branch is dead code: a name with \<^verbatim>\<open>.attn_norm\<close> in it is never
  classified as \<^verbatim>\<open>NORM\<close>, because the \<^verbatim>\<open>attn_\<close> test before it already matches.
\<close>

theorem attn_norm_never_norm: "str_contains name ''.attn_norm'' \<Longrightarrow> classify_tensor arch name \<noteq> NORM"
proof -
  assume "str_contains name ''.attn_norm''"
  moreover have "str_contains ''.attn_norm'' ''attn_''" by code_simp
  ultimately have "str_contains name ''attn_''" by (rule str_contains_trans)
  then show ?thesis by (simp add: classify_tensor_def)
qed

theorem attn_norm_never_norm_witness:
  "classify_tensor ''qwen35moe'' ''blk.3.attn_norm.weight'' = ATTENTION
   \<and> classify_tensor ''qwen35moe'' ''blk.3.attn_norm.weight'' \<noteq> NORM"
proof
  show "classify_tensor ''qwen35moe'' ''blk.3.attn_norm.weight'' = ATTENTION" by code_simp
  show "classify_tensor ''qwen35moe'' ''blk.3.attn_norm.weight'' \<noteq> NORM"
    by (rule attn_norm_never_norm) code_simp
qed

section \<open>Layer indices\<close>

lemma digits_val_stop: "\<not> is_digit c \<Longrightarrow> digits_val acc (c # ys) = acc"
  by simp

lemma atoi_dec:
  assumes "n < 2 ^ 31" "\<not> is_digit c"
  shows "atoi (dec n @ c # r) = int n"
proof -
  obtain x xs where x: "dec n = x # xs" by (cases "dec n") auto
  have xd: "is_digit x" using is_digit_dec [of n] x by simp
  then have ns: "\<not> is_space x" "x \<noteq> CHR ''-''" "x \<noteq> CHR ''+''"
    by (auto simp: is_digit_def is_space_def Let_def)
  have "digits_val 0 (x # xs @ c # r) = n"
    using digits_val_append [OF is_digit_dec, of 0 n "c # r"] x assms(2) digits_val_dec [of n] by simp
  then have "strtol (dec n @ c # r) = int n"
    using ns x assms(1) by (simp add: strtol_def Let_def del: digits_val.simps)
  then show ?thesis
    using assms(1) by (simp add: atoi_def)
qed

lemma find_sub_dot: "list_all is_digit xs \<Longrightarrow> find_sub ''.'' (xs @ CHR ''.'' # r) = Some (length xs)"
  by (induction xs) (auto simp: starts_with_def is_digit_def)

lemma parse_layer_index_blk:
  assumes "n < 2 ^ 31"
  shows "parse_layer_index (''blk.'' @ dec n @ ''.'' @ rest) = int n"
proof -
  let ?name = "''blk.'' @ dec n @ ''.'' @ rest"
  have a: "str_find ?name ''blk.'' 0 = Some 0" by (simp add: str_find_def starts_with_def)
  have b: "str_find ?name ''.'' 4 = Some (4 + length (dec n))"
    using find_sub_dot [OF is_digit_dec, of n rest] by (simp add: str_find_def)
  have "\<not> is_digit CHR ''.''" by (simp add: is_digit_def)
  from atoi_dec [OF assms this, of rest] a b is_digit_dec [of n] show ?thesis
    by (simp add: parse_layer_index_def)
qed

text \<open>
  A tensor named \<^verbatim>\<open>blk.<n>.<suffix>\<close> has layer \<^verbatim>\<open>n\<close>, for every layer number an \<^verbatim>\<open>int\<close> can hold;
  with a fused expert suffix (\<^verbatim>\<open>ffn_gate_exps.weight\<close> and its siblings) it is a routed expert.
\<close>

theorem expert_tensor_recognised:
  assumes "n < 2147483648" "proj \<in> {''gate'', ''up'', ''down'', ''gate_up''}"
  shows "parse_layer_index (''blk.'' @ dec n @ ''.ffn_'' @ proj @ ''_exps.weight'') = int n
    \<and> classify_tensor arch (''blk.'' @ dec n @ ''.ffn_'' @ proj @ ''_exps.weight'') = ROUTED_EXPERT"
proof
  show "parse_layer_index (''blk.'' @ dec n @ ''.ffn_'' @ proj @ ''_exps.weight'') = int n"
    using parse_layer_index_blk [of n "''ffn_'' @ proj @ ''_exps.weight''"] assms(1) by simp
next
  let ?name = "''blk.'' @ dec n @ ''.ffn_'' @ proj @ ''_exps.weight''"
  have "has_suffix ?name suf \<Longrightarrow> suf \<noteq> [] \<Longrightarrow> last suf = CHR ''t''" for suf
  proof -
    assume h: "has_suffix ?name suf" "suf \<noteq> []"
    then have "last suf = last ?name" unfolding has_suffix_def by (metis last_drop drop_eq_Nil not_le)
    then show ?thesis by simp
  qed
  from this [of "''.scale''"] this [of "''.input_scale''"]
  have "\<not> has_suffix ?name ''.scale''" "\<not> has_suffix ?name ''.input_scale''" by auto
  moreover have "str_contains ?name ''_exps''"
    unfolding str_contains_iff
    by (intro exI [of _ "''blk.'' @ dec n @ ''.ffn_'' @ proj"] exI [of _ "''.weight''"]) simp
  ultimately show "classify_tensor arch ?name = ROUTED_EXPERT" by (simp add: classify_tensor_def)
qed

theorem expert_tensor_recognised_witness:
  "parse_layer_index (''blk.'' @ dec 47 @ ''.ffn_'' @ ''down'' @ ''_exps.weight'') = 47
   \<and> classify_tensor ''qwen35moe'' (''blk.'' @ dec 47 @ ''.ffn_'' @ ''down'' @ ''_exps.weight'') = ROUTED_EXPERT"
  using expert_tensor_recognised [of 47 "''down''" "''qwen35moe''"] by simp

end
