(* ===== verification/Registry.thy ===== *)
theory Registry
  imports Gguf Tensor_Classify "HOL-Library.Multiset"
begin

text \<open>
  \<^verbatim>\<open>core/src/gguf/model_registry.cpp\<close> with the structures of \<^verbatim>\<open>core/include/cne/model.h\<close>: expert discovery and
  the fail-closed validation of a model file. The order \<^verbatim>\<open>std::sort\<close> gives to tensors of equal offset is not
  specified, so the sorting function is an argument; \<open>sorts\<close> is what the standard promises of it.
\<close>

section \<open>Data\<close>

record tensor_info =
  ti_name :: string
  ti_kind :: tensor_kind
  ti_layer :: int
  abs_offset :: u64
  bytes_total :: u64
  expert_count :: int
  expert_axis :: int
  bytes_per_expert :: u64
  expert_contiguous :: bool
  quant_type :: string

record model_manifest =
  file_path :: string
  file_size :: u64
  gguf_version :: u32
  mf_data_offset :: u64
  mf_io_alignment :: u64
  architecture :: string
  n_layers :: int
  n_experts :: int
  n_experts_used :: int
  mf_tensors :: "tensor_info list"
  routed_expert_tensors :: nat
  shared_expert_tensors :: nat
  misaligned_for_odirect :: nat
  all_slices_aligned :: nat
  uniform_misalignment :: nat
  scattered_alignment :: nat

definition new_model_manifest :: model_manifest where
  "new_model_manifest = \<lparr>file_path = [], file_size = 0, gguf_version = 0, mf_data_offset = 0, mf_io_alignment = 32,
     architecture = [], n_layers = 0, n_experts = 0, n_experts_used = 0, mf_tensors = [],
     routed_expert_tensors = 0, shared_expert_tensors = 0, misaligned_for_odirect = 0,
     all_slices_aligned = 0, uniform_misalignment = 0, scattered_alignment = 0\<rparr>"

section \<open>Operations\<close>

text \<open>An exception out of \<^verbatim>\<open>open\<close> is not caught; its text stands for it in the result.\<close>

fun gguf_error_text :: "gguf_error \<Rightarrow> string" where
  "gguf_error_text (Fail msg) = msg"
| "gguf_error_text Length_error = ''vector::reserve''"
| "gguf_error_text Out_of_fuel = ''''"

text \<open>The first dimension equal to the expert count, \<open>-1\<close> when there is none.\<close>

fun find_axis :: "int \<Rightarrow> u64 list \<Rightarrow> int \<Rightarrow> int" where
  "find_axis n [] d = -1"
| "find_axis n (x # xs) d = (if to_i32 (uint x) = n then d else find_axis n xs (d + 1))"

text \<open>The body of the loop over the sorted tensors: \<open>nxt\<close> is the next tensor's offset, if any.\<close>

definition make_tensor_info :: "gguf_reader \<Rightarrow> model_manifest \<Rightarrow> raw_tensor \<Rightarrow> u64 option \<Rightarrow> tensor_info" where
  "make_tensor_info r out rt nxt =
     (let abs = data_offset r + rel_offset rt
      in \<lparr>ti_name = rt_name rt, ti_kind = classify_tensor (architecture out) (rt_name rt),
          ti_layer = parse_layer_index (rt_name rt), abs_offset = abs,
          bytes_total = (case nxt of Some o' \<Rightarrow> o' - rel_offset rt | None \<Rightarrow> file_size out - abs),
          expert_count = 0, expert_axis = -1, bytes_per_expert = 0, expert_contiguous = False,
          quant_type = ggml_type_name (ggml_type rt)\<rparr>)"

definition count_alignment :: "tensor_info \<Rightarrow> model_manifest \<Rightarrow> model_manifest" where
  "count_alignment ti out =
     (let out = (if abs_offset ti mod 4096 \<noteq> 0 then out\<lparr>misaligned_for_odirect := misaligned_for_odirect out + 1\<rparr> else out)
      in if bytes_per_expert ti mod 4096 = 0
         then (if abs_offset ti mod 4096 = 0 then out\<lparr>all_slices_aligned := all_slices_aligned out + 1\<rparr>
               else out\<lparr>uniform_misalignment := uniform_misalignment out + 1\<rparr>)
         else out\<lparr>scattered_alignment := scattered_alignment out + 1\<rparr>)"

definition add_tensor ::
  "gguf_reader \<Rightarrow> model_manifest \<Rightarrow> raw_tensor \<Rightarrow> u64 option \<Rightarrow> string + model_manifest" where
  "add_tensor r out rt nxt =
     (let ti = make_tensor_info r out rt nxt in
      if ti_kind ti = ROUTED_EXPERT then
        (if n_experts out \<le> 0 then Inl (''gguf: routed expert tensor but no expert_count: '' @ rt_name rt)
         else let axis = find_axis (n_experts out) (rt_dims rt) 0 in
              if axis < 0 \<or> bytes_total ti = 0 then Inl (''gguf: expert axis not found in tensor: '' @ rt_name rt)
              else let ti = ti\<lparr>expert_count := n_experts out, expert_axis := axis,
                              expert_contiguous := (axis = int (length (rt_dims rt)) - 1),
                              bytes_per_expert := bytes_total ti div word_of_int (n_experts out)\<rparr>;
                       out = count_alignment ti (out\<lparr>routed_expert_tensors := routed_expert_tensors out + 1\<rparr>)
                   in Inr (out\<lparr>mf_tensors := mf_tensors out @ [ti]\<rparr>))
      else let out = (if ti_kind ti = SHARED_EXPERT
                      then out\<lparr>shared_expert_tensors := shared_expert_tensors out + 1\<rparr> else out)
           in Inr (out\<lparr>mf_tensors := mf_tensors out @ [ti]\<rparr>))"

fun add_tensors :: "gguf_reader \<Rightarrow> model_manifest \<Rightarrow> raw_tensor list \<Rightarrow> string + model_manifest" where
  "add_tensors r out [] = Inr out"
| "add_tensors r out (rt # rts) =
     (case add_tensor r out rt (case rts of [] \<Rightarrow> None | n # _ \<Rightarrow> Some (rel_offset n)) of
        Inl e \<Rightarrow> Inl e
      | Inr out \<Rightarrow> add_tensors r out rts)"

text \<open>The fail-closed structural checks, with the set of offsets seen so far.\<close>

fun check_tensors :: "model_manifest \<Rightarrow> u64 set \<Rightarrow> tensor_info list \<Rightarrow> string option" where
  "check_tensors out seen [] = None"
| "check_tensors out seen (t # ts) =
     (if abs_offset t < mf_data_offset out \<or> abs_offset t + bytes_total t > file_size out
      then Some (''gguf: tensor span out of file bounds: '' @ ti_name t)
      else if abs_offset t \<in> seen then Some (''gguf: duplicate tensor offset: '' @ ti_name t)
      else check_tensors out (insert (abs_offset t) seen) ts)"

text \<open>The expert configuration keys.\<close>

definition read_experts :: "gguf_reader \<Rightarrow> model_manifest \<Rightarrow> string + model_manifest" where
  "read_experts r out =
     (let arch = architecture out in
      if has_kv r (arch @ ''.expert_count'') then
        (case kv_u64 r (arch @ ''.expert_count'') of
           None \<Rightarrow> Inl (''gguf: bad '' @ arch @ ''.expert_count'')
         | Some v \<Rightarrow>
             (let out = out\<lparr>n_experts := to_i32 (uint v)\<rparr> in
              if n_experts out \<le> 0 then Inl ''gguf: non-positive expert_count''
              else case kv_u64 r (arch @ ''.expert_used_count'') of
                     None \<Rightarrow> Inl (''gguf: missing '' @ arch @ ''.expert_used_count'')
                   | Some v \<Rightarrow> Inr (out\<lparr>n_experts_used := to_i32 (uint v)\<rparr>)))
      else Inr out)"

text \<open>\<^verbatim>\<open>build\<close> once the file is open: \<open>fsz\<close> is \<^verbatim>\<open>fs::file_size\<close>.\<close>

definition registry_finish ::
  "(raw_tensor list \<Rightarrow> raw_tensor list) \<Rightarrow> string \<Rightarrow> u64 \<Rightarrow> gguf_reader \<Rightarrow> string + model_manifest" where
  "registry_finish srt path fsz r =
     (case kv_str r ''general.architecture'' of
        None \<Rightarrow> Inl ''gguf: missing general.architecture''
      | Some arch \<Rightarrow>
          (let out = new_model_manifest\<lparr>architecture := arch\<rparr> in
           case kv_u64 r (arch @ ''.block_count'') of
             None \<Rightarrow> Inl (''gguf: missing '' @ arch @ ''.block_count'')
           | Some v \<Rightarrow>
               (case read_experts r (out\<lparr>n_layers := to_i32 (uint v)\<rparr>) of
                  Inl e \<Rightarrow> Inl e
                | Inr out \<Rightarrow>
                    (let out = out\<lparr>file_path := path, file_size := fsz, gguf_version := version r,
                                  mf_data_offset := data_offset r, mf_io_alignment := io_alignment r\<rparr>
                     in case add_tensors r out (srt (raw_tensors r)) of
                          Inl e \<Rightarrow> Inl e
                        | Inr out \<Rightarrow>
                            (case check_tensors out {} (mf_tensors out) of
                               Some e \<Rightarrow> Inl e
                             | None \<Rightarrow>
                                 if has_kv r (arch @ ''.expert_count'') \<and> routed_expert_tensors out = 0
                                 then Inl ''gguf: arch declares experts but none found''
                                 else Inr out)))))"

definition registry_build ::
  "(raw_tensor list \<Rightarrow> raw_tensor list) \<Rightarrow> u64 \<Rightarrow> string \<Rightarrow> u8 list option \<Rightarrow> string + model_manifest" where
  "registry_build srt max_size path file =
     (case gguf_open max_size file of
        Inl (Fail msg) \<Rightarrow> Inl (''gguf: '' @ msg)
      | Inl e \<Rightarrow> Inl (gguf_error_text e)
      | Inr r \<Rightarrow> registry_finish srt path (of_nat (length (the file))) r)"

definition sorts :: "(raw_tensor list \<Rightarrow> raw_tensor list) \<Rightarrow> bool" where
  "sorts srt \<longleftrightarrow> (\<forall>xs. mset (srt xs) = mset xs \<and> sorted (map rel_offset (srt xs)))"

section \<open>Spans\<close>

fun spans :: "u64 \<Rightarrow> u64 \<Rightarrow> raw_tensor list \<Rightarrow> (u64 \<times> u64) list" where
  "spans base fsz [] = []"
| "spans base fsz (t # ts) =
     (base + rel_offset t, case ts of [] \<Rightarrow> fsz - (base + rel_offset t) | n # _ \<Rightarrow> rel_offset n - rel_offset t)
       # spans base fsz ts"

definition span_of :: "tensor_info \<Rightarrow> u64 \<times> u64" where
  "span_of t = (abs_offset t, bytes_total t)"

text \<open>\<open>tiles a ss e\<close>: the spans follow each other without gap or overlap from \<open>a\<close> to \<open>e\<close>.\<close>

fun tiles :: "nat \<Rightarrow> (u64 \<times> u64) list \<Rightarrow> nat \<Rightarrow> bool" where
  "tiles a [] e = (a = e)"
| "tiles a ((off, n) # ss) e = (unat off = a \<and> tiles (a + unat n) ss e)"

text \<open>What one loop iteration guarantees for a routed expert tensor.\<close>

definition expert_ok :: "int \<Rightarrow> tensor_info \<Rightarrow> bool" where
  "expert_ok n ti \<longleftrightarrow> ti_kind ti = ROUTED_EXPERT \<longrightarrow>
     0 < n \<and> expert_count ti = n \<and> 0 \<le> expert_axis ti \<and> bytes_total ti \<noteq> 0
     \<and> bytes_per_expert ti = bytes_total ti div word_of_int n"

definition is_routed :: "tensor_info \<Rightarrow> bool" where
  "is_routed t \<longleftrightarrow> ti_kind t = ROUTED_EXPERT"

definition count_of :: "(tensor_info \<Rightarrow> bool) \<Rightarrow> model_manifest \<Rightarrow> nat" where
  "count_of P m = length (filter P (mf_tensors m))"

text \<open>The convenience counters count what their names say.\<close>

definition counters_ok :: "model_manifest \<Rightarrow> bool" where
  "counters_ok m \<longleftrightarrow>
     routed_expert_tensors m = count_of is_routed m
     \<and> shared_expert_tensors m = count_of (\<lambda>t. ti_kind t = SHARED_EXPERT) m
     \<and> misaligned_for_odirect m = count_of (\<lambda>t. is_routed t \<and> abs_offset t mod 4096 \<noteq> 0) m
     \<and> all_slices_aligned m = count_of (\<lambda>t. is_routed t \<and> abs_offset t mod 4096 = 0 \<and> bytes_per_expert t mod 4096 = 0) m
     \<and> uniform_misalignment m = count_of (\<lambda>t. is_routed t \<and> abs_offset t mod 4096 \<noteq> 0 \<and> bytes_per_expert t mod 4096 = 0) m
     \<and> scattered_alignment m = count_of (\<lambda>t. is_routed t \<and> bytes_per_expert t mod 4096 \<noteq> 0) m"

definition frame_eq :: "model_manifest \<Rightarrow> model_manifest \<Rightarrow> bool" where
  "frame_eq a b \<longleftrightarrow> file_size a = file_size b \<and> mf_data_offset a = mf_data_offset b \<and> n_experts a = n_experts b
     \<and> architecture a = architecture b"

lemma count_alignment_fields [simp]:
  "mf_tensors (count_alignment ti m) = mf_tensors m" "frame_eq (count_alignment ti m) m"
  "routed_expert_tensors (count_alignment ti m) = routed_expert_tensors m"
  "shared_expert_tensors (count_alignment ti m) = shared_expert_tensors m"
  by (simp_all add: count_alignment_def Let_def frame_eq_def)

lemma find_axis_nonneg: "0 \<le> d \<Longrightarrow> find_axis n xs d = -1 \<or> (0 \<le> find_axis n xs d \<and> find_axis n xs d < d + int (length xs))"
  by (induction n xs d rule: find_axis.induct) auto

lemma counters_routed:
  assumes "counters_ok m" "is_routed ti"
  shows "counters_ok ((count_alignment ti (m\<lparr>routed_expert_tensors := routed_expert_tensors m + 1\<rparr>))\<lparr>mf_tensors := mf_tensors m @ [ti]\<rparr>)"
  using assms
  by (cases "abs_offset ti mod 4096 = 0"; cases "bytes_per_expert ti mod 4096 = 0")
     (simp_all add: counters_ok_def count_of_def count_alignment_def is_routed_def)

lemma counters_other:
  assumes "counters_ok m" "\<not> is_routed ti"
  shows "counters_ok ((if ti_kind ti = SHARED_EXPERT then m\<lparr>shared_expert_tensors := shared_expert_tensors m + 1\<rparr> else m)
      \<lparr>mf_tensors := mf_tensors m @ [ti]\<rparr>)"
  using assms by (simp add: counters_ok_def count_of_def is_routed_def)

lemma add_tensor_spec:
  assumes "add_tensor r out rt nxt = Inr out'"
  shows "\<exists>ti. mf_tensors out' = mf_tensors out @ [ti] \<and> ti_name ti = rt_name rt
      \<and> span_of ti = (data_offset r + rel_offset rt,
           case nxt of None \<Rightarrow> file_size out - (data_offset r + rel_offset rt) | Some o' \<Rightarrow> o' - rel_offset rt)
      \<and> expert_ok (n_experts out) ti" (is ?A)
    and "frame_eq out' out"
    and "counters_ok out \<Longrightarrow> counters_ok out'"
proof -
  show ?A and "frame_eq out' out"
    using assms by (auto simp: add_tensor_def Let_def make_tensor_info_def span_of_def expert_ok_def count_alignment_def frame_eq_def
        split: if_splits option.splits)
  let ?t0 = "make_tensor_info r out rt nxt"
  show "counters_ok out'" if c: "counters_ok out"
  proof (cases "ti_kind ?t0 = ROUTED_EXPERT")
    case True
    then show ?thesis
      using assms counters_routed [OF c]
      by (auto simp: add_tensor_def Let_def is_routed_def split: if_splits)
  next
    case False
    then show ?thesis
      using assms counters_other [OF c, of ?t0]
      by (auto simp: add_tensor_def Let_def is_routed_def split: if_splits)
  qed
qed

lemma add_tensors_spec:
  "add_tensors r out rts = Inr out' \<Longrightarrow>
   (\<exists>ts. mf_tensors out' = mf_tensors out @ ts \<and> map span_of ts = spans (data_offset r) (file_size out) rts
      \<and> map ti_name ts = map rt_name rts \<and> list_all (expert_ok (n_experts out)) ts)
   \<and> frame_eq out' out \<and> (counters_ok out \<longrightarrow> counters_ok out')"
proof (induction r out rts rule: add_tensors.induct)
  case (1 r out)
  then show ?case by (simp add: frame_eq_def)
next
  case (2 r out rt rts)
  let ?nxt = "case rts of [] \<Rightarrow> None | n # _ \<Rightarrow> Some (rel_offset n)"
  obtain out1 where a: "add_tensor r out rt ?nxt = Inr out1" and b: "add_tensors r out1 rts = Inr out'"
    using "2.prems" by (auto split: sum.splits)
  note s = add_tensor_spec [OF a]
  obtain ti where ti: "mf_tensors out1 = mf_tensors out @ [ti]" "ti_name ti = rt_name rt" "expert_ok (n_experts out) ti"
    "span_of ti = (data_offset r + rel_offset rt,
           case ?nxt of None \<Rightarrow> file_size out - (data_offset r + rel_offset rt) | Some o' \<Rightarrow> o' - rel_offset rt)"
    using s(1) by blast
  obtain ts where ts: "mf_tensors out' = mf_tensors out1 @ ts" "map span_of ts = spans (data_offset r) (file_size out1) rts"
    "map ti_name ts = map rt_name rts" "list_all (expert_ok (n_experts out1)) ts"
    and fr: "frame_eq out' out1" "counters_ok out1 \<longrightarrow> counters_ok out'"
    using "2.IH" [OF a b] by blast
  have fs: "file_size out1 = file_size out" using s(2) by (simp add: frame_eq_def)
  have "span_of ti # map span_of ts = spans (data_offset r) (file_size out) (rt # rts)"
    using ti(4) ts(2) [unfolded fs] by (cases rts) simp_all
  then show ?case
    using ti ts fr s(2,3) by (intro conjI exI [of _ "ti # ts"]) (auto simp: frame_eq_def)
qed

text \<open>The structural checks accept exactly the lists of in-bounds spans with distinct, new offsets.\<close>

lemma check_tensors_None:
  "check_tensors out seen ts = None \<longleftrightarrow>
     list_all (\<lambda>t. mf_data_offset out \<le> abs_offset t \<and> abs_offset t + bytes_total t \<le> file_size out) ts
     \<and> distinct (map abs_offset ts) \<and> abs_offset ` set ts \<inter> seen = {}"
  by (induction ts arbitrary: seen) (auto simp: not_less)

lemma read_experts_frame:
  "read_experts r out = Inr out' \<Longrightarrow> mf_tensors out' = mf_tensors out \<and> architecture out' = architecture out
     \<and> (counters_ok out \<longrightarrow> counters_ok out') \<and> (n_experts out < 2147483648 \<longrightarrow> n_experts out' < 2147483648)"
  using to_i32_range by (auto simp: read_experts_def Let_def counters_ok_def count_of_def split: if_splits option.splits)

lemma registry_build_spec:
  assumes "registry_build srt max_size path file = Inr m"
  shows "\<exists>r. gguf_open max_size file = Inr r \<and> mf_data_offset m = data_offset r
    \<and> file_size m = of_nat (length (the file))
    \<and> map span_of (mf_tensors m) = spans (data_offset r) (file_size m) (srt (raw_tensors r))
    \<and> map ti_name (mf_tensors m) = map rt_name (srt (raw_tensors r))
    \<and> list_all (expert_ok (n_experts m)) (mf_tensors m) \<and> counters_ok m
    \<and> n_experts m < 2147483648 \<and> check_tensors m {} (mf_tensors m) = None"
proof -
  obtain r where r: "gguf_open max_size file = Inr r"
    using assms by (auto simp: registry_build_def split: sum.splits gguf_error.splits)
  obtain arch v out1 where a: "kv_str r ''general.architecture'' = Some arch" "kv_u64 r (arch @ ''.block_count'') = Some v"
    "read_experts r (new_model_manifest\<lparr>architecture := arch, n_layers := to_i32 (uint v)\<rparr>) = Inr out1"
    using assms r by (auto simp: registry_build_def registry_finish_def Let_def split: sum.splits option.splits)
  define out2 where "out2 = out1\<lparr>file_path := path, file_size := of_nat (length (the file)),
      gguf_version := version r, mf_data_offset := data_offset r, mf_io_alignment := io_alignment r\<rparr>"
  have t: "add_tensors r out2 (srt (raw_tensors r)) = Inr m" and c: "check_tensors m {} (mf_tensors m) = None"
    using assms r a by (auto simp: registry_build_def registry_finish_def Let_def out2_def split: sum.splits option.splits if_splits)
  have "counters_ok (new_model_manifest\<lparr>architecture := arch, n_layers := to_i32 (uint v)\<rparr>)"
    by (simp add: counters_ok_def count_of_def new_model_manifest_def)
  then have f: "mf_tensors out2 = []" "counters_ok out2" "n_experts out2 < 2147483648"
    using read_experts_frame [OF a(3)] by (auto simp: out2_def new_model_manifest_def counters_ok_def count_of_def)
  from add_tensors_spec [OF t] f c r show ?thesis
    by (intro exI [of _ r]) (auto simp: frame_eq_def out2_def)
qed

lemma unat_base_add: "(b :: u64) \<le> b + x \<Longrightarrow> unat (b + x) = unat b + unat x"
proof -
  assume le: "b \<le> b + x"
  have eq: "unat (b + x) = (if unat b + unat x < 18446744073709551616 then unat b + unat x
      else unat b + unat x - 18446744073709551616)"
    by (simp add: unat_plus_if')
  have "unat b \<le> unat (b + x)" using le by (simp add: word_le_nat_alt)
  moreover have "unat x < 18446744073709551616" by (rule unat_lt64)
  moreover have "s = n + k" if "n \<le> s" "k < N" "s = (if n + k < N then n + k else n + k - N)" for s n k N :: nat
    using that by (auto split: if_splits)
  ultimately show ?thesis using eq by blast
qed

lemma spans_tile:
  assumes "sorted (map rel_offset (t # ts))" "list_all (\<lambda>(off, n). base \<le> off \<and> off + n \<le> fsz) (spans base fsz (t # ts))"
    "base + rel_offset t \<le> fsz"
  shows "tiles (unat (base + rel_offset t)) (spans base fsz (t # ts)) (unat fsz)"
  using assms
proof (induction ts arbitrary: t)
  case Nil
  then show ?case by (simp add: unat_sub word_le_nat_alt)
next
  case (Cons n ts)
  have le: "rel_offset t \<le> rel_offset n" using Cons.prems(1) by simp
  have b: "base \<le> base + rel_offset t" "base \<le> base + rel_offset n" "base + rel_offset n \<le> fsz"
    using Cons.prems(2) by (simp_all add: algebra_simps)
  have "unat (base + rel_offset t) + unat (rel_offset n - rel_offset t) = unat (base + rel_offset n)"
    using le b by (simp add: unat_base_add unat_sub word_le_nat_alt)
  moreover have "tiles (unat (base + rel_offset n)) (spans base fsz (n # ts)) (unat fsz)"
    using Cons.prems b by (intro Cons.IH) simp_all
  ultimately show ?case by (simp del: spans.simps(2) add: spans.simps(2) [of _ _ t])
qed

lemma spans_checked:
  "check_tensors m {} (mf_tensors m) = None \<Longrightarrow>
   list_all (\<lambda>(off, n). mf_data_offset m \<le> off \<and> off + n \<le> file_size m) (map span_of (mf_tensors m))"
  by (auto simp: check_tensors_None list_all_iff span_of_def)


text \<open>The demonstration metadata with 100 bytes of data.\<close>

definition demo_file :: "u8 list" where
  "demo_file = enc_meta demo_meta @ replicate 100 0"

definition demo_sort :: "raw_tensor list \<Rightarrow> raw_tensor list" where
  "demo_sort ts = sort_key rel_offset ts"

lemma sorts_demo: "sorts demo_sort"
  by (simp add: sorts_def demo_sort_def)

lemma demo_meta_length: "length (enc_meta demo_meta) = 414"
  by code_simp

lemma demo_build: "registry_build demo_sort 1000 ''m'' (Some demo_file) = registry_finish demo_sort ''m'' 514 (read_back demo_meta)"
  by (simp add: registry_build_def demo_file_def gguf_open_enc [OF wf_demo_meta] demo_meta_length)

lemma demo_manifest:
  "map_sum id (\<lambda>m. (map span_of (mf_tensors m), mf_data_offset m, file_size m, n_experts m)) (registry_build demo_sort 1000 ''m'' (Some demo_file))
     = Inr ([(416, 64), (480, 34)], 416, 514, 2)"
  unfolding demo_build by code_simp

lemma partition_routed:
  "length (filter (\<lambda>t. is_routed t \<and> abs_offset t mod 4096 = 0 \<and> bytes_per_expert t mod 4096 = 0) ts)
   + length (filter (\<lambda>t. is_routed t \<and> abs_offset t mod 4096 \<noteq> 0 \<and> bytes_per_expert t mod 4096 = 0) ts)
   + length (filter (\<lambda>t. is_routed t \<and> bytes_per_expert t mod 4096 \<noteq> 0) ts) = length (filter is_routed ts)"
  by (induction ts) auto


lemma registry_slices:
  assumes "registry_build srt max_size path file = Inr m" "t \<in> set (mf_tensors m)" "is_routed t"
  shows "expert_count t = n_experts m \<and> 0 < n_experts m \<and> n_experts m < 2147483648 \<and> 0 \<le> expert_axis t
    \<and> uint (bytes_per_expert t) * n_experts m \<le> uint (bytes_total t)"
proof -
  let ?n = "n_experts m"
  have e: "expert_ok ?n t" and n: "?n < 2147483648"
    using registry_build_spec [OF assms(1)] assms(2) by (auto simp: list_all_iff)
  then have p: "0 < ?n" "bytes_per_expert t = bytes_total t div word_of_int ?n"
    using assms(3) by (simp_all add: expert_ok_def is_routed_def)
  have "uint (word_of_int ?n :: u64) = ?n" using p(1) n by (simp add: uint_word_of_int)
  then have "uint (bytes_per_expert t) = uint (bytes_total t) div ?n" using p(2) by (simp add: uint_div)
  moreover have "uint (bytes_total t) div ?n * ?n \<le> uint (bytes_total t)"
    using div_mult_mod_eq [of "uint (bytes_total t)" ?n] pos_mod_sign [OF p(1), of "uint (bytes_total t)"] by linarith
  ultimately show ?thesis using e p(1) n assms(3) by (simp add: expert_ok_def is_routed_def)
qed

text \<open>A model whose counters make it eligible for direct reads has every slice of every routed tensor on a page boundary.\<close>

lemma filter_conj_length:
  "length (filter (\<lambda>x. P x \<and> Q x) xs) = length (filter P xs) \<Longrightarrow> x \<in> set xs \<Longrightarrow> P x \<Longrightarrow> Q x"
proof (induction xs)
  case Nil
  then show ?case by simp
next
  case (Cons y xs)
  have "length (filter (\<lambda>x. P x \<and> Q x) xs) \<le> length (filter P xs)"
    by (metis filter_filter length_filter_le)
  with Cons show ?case by (auto split: if_splits)
qed

lemma registry_aligned:
  assumes "registry_build srt max_size path file = Inr m" "all_slices_aligned m = routed_expert_tensors m"
    "t \<in> set (mf_tensors m)" "is_routed t"
  shows "abs_offset t mod 4096 = 0 \<and> bytes_per_expert t mod 4096 = 0"
proof -
  have "counters_ok m" using registry_build_spec [OF assms(1)] by blast
  with assms(2) have "length (filter (\<lambda>t. is_routed t \<and> abs_offset t mod 4096 = 0 \<and> bytes_per_expert t mod 4096 = 0) (mf_tensors m))
      = length (filter is_routed (mf_tensors m))"
    by (simp add: counters_ok_def count_of_def)
  from filter_conj_length [OF this assms(3,4)] show ?thesis .
qed

text \<open>
  In every accepted model, a routed expert tensor has an expert axis and the model's expert count, its
  \<^verbatim>\<open>n_experts\<close> slices of \<^verbatim>\<open>bytes_per_expert\<close> lie inside its span, and the counters partition the routed tensors by
  alignment: every routed tensor is counted once as aligned, uniformly misaligned or scattered.
\<close>

theorem registry_experts:
  assumes "registry_build srt max_size path file = Inr m"
  shows "list_all (\<lambda>t. is_routed t \<longrightarrow> expert_count t = n_experts m \<and> 0 < n_experts m \<and> 0 \<le> expert_axis t
           \<and> uint (bytes_per_expert t) * n_experts m \<le> uint (bytes_total t)) (mf_tensors m)
    \<and> routed_expert_tensors m = length (filter is_routed (mf_tensors m))
    \<and> all_slices_aligned m + uniform_misalignment m + scattered_alignment m = routed_expert_tensors m"
proof -
  have c: "counters_ok m" using registry_build_spec [OF assms] by blast
  then have "all_slices_aligned m + uniform_misalignment m + scattered_alignment m = routed_expert_tensors m"
    using partition_routed [of "mf_tensors m"] by (simp add: counters_ok_def count_of_def)
  with c registry_slices [OF assms] show ?thesis
    by (auto simp: list_all_iff counters_ok_def count_of_def)
qed

theorem registry_experts_witness:
  "\<exists>m. registry_build demo_sort 1000 ''m'' (Some demo_file) = Inr m \<and> routed_expert_tensors m = length (filter is_routed (mf_tensors m))"
proof -
  obtain m where m: "registry_build demo_sort 1000 ''m'' (Some demo_file) = Inr m"
    using demo_manifest by (cases "registry_build demo_sort 1000 ''m'' (Some demo_file)") auto
  with registry_experts [OF m] show ?thesis by blast
qed

text \<open>
  A file with a single tensor escapes the bounds check: the size of the last tensor is
  \<^verbatim>\<open>file_size - abs_offset\<close>, and when the offset lies beyond the end of the file both this difference and the sum
  that is checked wrap, so a tensor a mebibyte past the end of a 119-byte file is accepted.
\<close>

theorem single_tensor_beyond_eof_accepted:
  "(let g = \<lparr>gm_version = 3, gm_kvs = [(''general.architecture'', GStr ''m''), (''m.block_count'', GScalar 4 1)],
             gm_tensors = [\<lparr>gt_name = ''x'', gt_dims = [], gt_type = 0, gt_off = 1048576\<rparr>]\<rparr>
    in (length (enc_meta g), map_sum id (\<lambda>m. (file_size m, map span_of (mf_tensors m)))
          (registry_build demo_sort 1000 ''m'' (Some (enc_meta g)))))
   = (119, Inr (119, [(1048704, 18446744073708503031)]))"
proof -
  let ?g = "\<lparr>gm_version = 3, gm_kvs = [(''general.architecture'', GStr ''m''), (''m.block_count'', GScalar 4 1)],
             gm_tensors = [\<lparr>gt_name = ''x'', gt_dims = [], gt_type = 0, gt_off = 1048576\<rparr>]\<rparr>"
  have wf: "wf_meta 1000 ?g"
    by (simp add: wf_meta_def wf_kv_def wf_str_def wf_tensor_def scalar_size_def v_defs alignment_of_def
      is_uint_type_def is_int_type_def new_gguf_reader_def)
  have len: "length (enc_meta ?g) = 119" by code_simp
  have b: "registry_build demo_sort 1000 ''m'' (Some (enc_meta ?g)) = registry_finish demo_sort ''m'' 119 (read_back ?g)"
    using gguf_open_enc [OF wf, of "[]"] len by (simp add: registry_build_def)
  have "map_sum id (\<lambda>m. (file_size m, map span_of (mf_tensors m))) (registry_finish demo_sort ''m'' 119 (read_back ?g))
     = Inr (119, [(1048704, 18446744073708503031)])" by code_simp
  then show ?thesis by (simp add: len b)
qed

end
