(* ===== verification/Lru_Trace.thy ===== *)
theory Lru_Trace
  imports Lru_Sim Registry
begin

text \<open>
  The trace file between two tools: what \<^verbatim>\<open>tools/touch-recorder.cpp\<close> writes and what \<^verbatim>\<open>tools/lru-sim.cpp\<close> reads. A line is a character list
  without the terminating zero; \<open>None\<close> stands for a null pointer that is dereferenced.
\<close>

section \<open>Scanning numbers and words\<close>

text \<open>White space, an optional sign and digits: the sign, the value and the rest, if there is a digit.\<close>

fun strip_sign :: "string \<Rightarrow> bool \<times> string" where
  "strip_sign [] = (False, [])"
| "strip_sign (c # q) = (if c = CHR ''-'' then (True, q) else if c = CHR ''+'' then (False, q) else (False, c # q))"

definition scan_digits :: "string \<Rightarrow> (bool \<times> nat \<times> string) option" where
  "scan_digits s =
     (let (neg, u) = strip_sign (dropWhile is_space s)
      in if takeWhile is_digit u = [] then None
         else Some (neg, digits_val 0 (takeWhile is_digit u), dropWhile is_digit u))"

text \<open>\<^verbatim>\<open>strtol\<close> and \<^verbatim>\<open>%ld\<close> saturate at 64 bits, \<^verbatim>\<open>%llu\<close> saturates and negates modulo 2 to the 64; \<^verbatim>\<open>%255s\<close> is a word of at most 255 characters.\<close>

definition scan_long :: "string \<Rightarrow> (int \<times> string) option" where
  "scan_long s = map_option (\<lambda>(neg, n, r). (max (- (2 ^ 63)) (min (2 ^ 63 - 1) (if neg then - int n else int n)), r)) (scan_digits s)"

definition scan_ull :: "string \<Rightarrow> (u64 \<times> string) option" where
  "scan_ull s = map_option (\<lambda>(neg, n, r). (if n \<ge> 2 ^ 64 then - 1 else if neg then - of_nat n else of_nat n, r)) (scan_digits s)"

definition scan_word :: "string \<Rightarrow> (string \<times> string) option" where
  "scan_word s =
     (let t = dropWhile is_space s; w = takeWhile (\<lambda>c. \<not> is_space c) (take 255 t)
      in if w = [] then None else Some (w, drop (length w) t))"

text \<open>\<^verbatim>\<open>strchr(s, ' ')\<close>: the text from the first space on.\<close>

definition strchr_space :: "string \<Rightarrow> string option" where
  "strchr_space s = (case dropWhile (\<lambda>c. c \<noteq> CHR '' '') s of [] \<Rightarrow> None | t \<Rightarrow> Some t)"

section \<open>The simulator's reader\<close>

record trace =
  tr_names :: "string list"
  tr_bytes :: "u64 list"
  tr_shared :: u64
  tr_dense :: u64
  tr_touches :: "sim_touch list"

definition new_trace :: trace where
  "new_trace = \<lparr>tr_names = [], tr_bytes = [], tr_shared = 0, tr_dense = 0, tr_touches = []\<rparr>"

lemma strip_sign_shorter: "length (snd (strip_sign t)) \<le> length t"
  by (cases t) auto

lemma scan_digits_shorter: "scan_digits p = Some (neg, n, r) \<Longrightarrow> length r < length p"
proof -
  assume a: "scan_digits p = Some (neg, n, r)"
  let ?u = "snd (strip_sign (dropWhile is_space p))"
  have u: "takeWhile is_digit ?u \<noteq> []" "r = dropWhile is_digit ?u"
    using a by (auto simp: scan_digits_def split_beta split: if_splits)
  have "length ?u = length (takeWhile is_digit ?u) + length r" unfolding u(2) by (metis length_append takeWhile_dropWhile_id)
  moreover have "0 < length (takeWhile is_digit ?u)" using u(1) by simp
  ultimately show ?thesis using strip_sign_shorter [of "dropWhile is_space p"] length_dropWhile_le [of is_space p] by linarith
qed

function parse_ids :: "string \<Rightarrow> int list" where
  "parse_ids p =
     (if p = [] then []
      else case scan_long p of
             None \<Rightarrow> parse_ids (tl p)
           | Some (v, e) \<Rightarrow> to_i32 v # parse_ids e)"
  by pat_completeness auto
termination
  by (relation "measure length") (auto simp: scan_long_def dest: scan_digits_shorter)

declare parse_ids.simps [simp del]

fun index_of :: "'a list \<Rightarrow> 'a \<Rightarrow> nat option" where
  "index_of [] x = None"
| "index_of (y # ys) x = (if y = x then Some 0 else map_option Suc (index_of ys x))"

definition parse_touch :: "trace \<Rightarrow> string \<Rightarrow> trace option" where
  "parse_touch tr line =
     (case scan_long (drop 1 line) of
        None \<Rightarrow> Some tr
      | Some (step, rest) \<Rightarrow>
          (case scan_word rest of
             None \<Rightarrow> Some tr
           | Some (name, _) \<Rightarrow>
               (case index_of (tr_names tr) name of
                  None \<Rightarrow> Some tr
                | Some i \<Rightarrow>
                    (case strchr_space line of
                       None \<Rightarrow> None
                     | Some p \<Rightarrow>
                         (let ids = (case strchr_space (tl p) of None \<Rightarrow> [] | Some p \<Rightarrow> parse_ids p)
                          in Some (tr\<lparr>tr_touches := tr_touches tr @ [\<lparr>tc_step = step, tc_t = of_nat i, tc_ids = ids\<rparr>]\<rparr>))))))"

definition parse_line :: "trace \<Rightarrow> string \<Rightarrow> trace option" where
  "parse_line tr line =
     (case line of
        [] \<Rightarrow> Some tr
      | c # rest \<Rightarrow>
          if c = CHR ''#'' then
            (case rest of
               [] \<Rightarrow> Some tr
             | d # s \<Rightarrow>
                 if d = CHR ''T'' then
                   (case scan_word s of
                      None \<Rightarrow> Some tr
                    | Some (name, s) \<Rightarrow>
                        (case scan_ull s of
                           None \<Rightarrow> Some tr
                         | Some (b, _) \<Rightarrow> Some (tr\<lparr>tr_names := tr_names tr @ [name], tr_bytes := tr_bytes tr @ [b]\<rparr>)))
                 else if d = CHR ''M'' then
                   (case scan_ull s of
                      None \<Rightarrow> Some tr
                    | Some (a, s) \<Rightarrow>
                        (case scan_ull s of
                           None \<Rightarrow> Some (tr\<lparr>tr_shared := a\<rparr>)
                         | Some (b, _) \<Rightarrow> Some (tr\<lparr>tr_shared := a, tr_dense := b\<rparr>)))
                 else Some tr)
          else if c = CHR ''S'' then parse_touch tr line
          else Some tr)"

text \<open>\<^verbatim>\<open>fgets\<close> with a buffer of 8192: up to and including a newline, at most 8191 characters.\<close>

definition fgets :: "string \<Rightarrow> string \<times> string" where
  "fgets s =
     (let l = takeWhile (\<lambda>c. c \<noteq> CHR 0x0A) s; n = min 8191 (if length l < length s then Suc (length l) else length l)
      in (take n s, drop n s))"

lemma fgets_shorter: "s \<noteq> [] \<Longrightarrow> length (snd (fgets s)) < length s"
proof -
  assume s: "s \<noteq> []"
  let ?l = "takeWhile (\<lambda>c. c \<noteq> CHR 0x0A) s"
  let ?n = "min 8191 (if length ?l < length s then Suc (length ?l) else length ?l)"
  have "0 < ?n" using s length_takeWhile_le [of "\<lambda>c. c \<noteq> CHR 0x0A" s]
    by (cases "length ?l < length s") simp_all
  then show ?thesis using s by (simp add: fgets_def Let_def)
qed

function parse_trace :: "trace \<Rightarrow> string \<Rightarrow> trace option" where
  "parse_trace tr text1 =
     (if text1 = [] then Some tr
      else case parse_line tr (fst (fgets text1)) of None \<Rightarrow> None | Some tr \<Rightarrow> parse_trace tr (snd (fgets text1)))"
  by pat_completeness auto
termination
  by (relation "measure (\<lambda>(tr, s). length s)") (auto intro: fgets_shorter)

declare parse_trace.simps [simp del]

section \<open>The recorder\<close>

definition touch_text :: "int \<Rightarrow> string \<Rightarrow> int list \<Rightarrow> string" where
  "touch_text step name ids =
     ''S '' @ to_string step @ '' '' @ name
     @ concat (map (\<lambda>(i, v). (if i \<noteq> 0 then '','' else '' '') @ to_string v) (enumerate 0 ids)) @ [CHR 0x0A]"

text \<open>A source of a graph node: its name, whether it holds 32-bit integers, and its data if it has any.\<close>

record rec_src =
  rs_name :: "string option"
  rs_i32 :: bool
  rs_data :: "int list option"

fun pick_srcs :: "(string \<Rightarrow> bool) \<Rightarrow> rec_src list \<Rightarrow> rec_src option \<Rightarrow> rec_src option \<Rightarrow> rec_src option \<times> rec_src option" where
  "pick_srcs routed [] w ids = (w, ids)"
| "pick_srcs routed (s # ss) w ids =
     (if ids = None \<and> rs_i32 s then pick_srcs routed ss w (Some s)
      else if w = None \<and> (\<exists>n. rs_name s = Some n \<and> routed n) then pick_srcs routed ss (Some s) ids
      else pick_srcs routed ss w ids)"

text \<open>The text the callback appends to the trace for a \<^verbatim>\<open>MUL_MAT_ID\<close> node after its execution.\<close>

definition record_node :: "(string \<Rightarrow> bool) \<Rightarrow> int \<Rightarrow> rec_src list \<Rightarrow> string" where
  "record_node routed step srcs =
     (case pick_srcs routed srcs None None of
        (Some w, Some s) \<Rightarrow>
          (case rs_data s of
             None \<Rightarrow> []
           | Some ids \<Rightarrow> if ids = [] \<or> length ids > 4096 then [] else touch_text step (the (rs_name w)) ids)
      | _ \<Rightarrow> [])"

text \<open>The header the recorder writes before it decodes.\<close>

definition tensor_text :: "tensor_info \<Rightarrow> string" where
  "tensor_text ti = ''#T '' @ ti_name ti @ '' '' @ dec (unat (bytes_per_expert ti)) @ [CHR 0x0A]"

definition header_text :: "model_manifest \<Rightarrow> string" where
  "header_text mf =
     (let sum = (\<lambda>P. sum_list (map bytes_total (filter P (mf_tensors mf))))
      in concat (map tensor_text (filter (\<lambda>ti. ti_kind ti = ROUTED_EXPERT) (mf_tensors mf)))
         @ ''#M '' @ dec (unat (sum (\<lambda>ti. ti_kind ti = SHARED_EXPERT)))
         @ '' '' @ dec (unat (sum (\<lambda>ti. ti_kind ti \<notin> {ROUTED_EXPERT, SHARED_EXPERT, SCALE}))) @ [CHR 0x0A])"

section \<open>Lemmas\<close>

lemma takeWhile_dec: "\<not> is_digit c \<Longrightarrow> takeWhile is_digit (dec n @ c # r) = dec n" "\<not> is_digit c \<Longrightarrow> dropWhile is_digit (dec n @ c # r) = c # r"
  using is_digit_dec [of n] by (simp_all add: list_all_iff takeWhile_append dropWhile_append)

lemma dec_first: obtains x xs where "dec n = x # xs" "is_digit x" "\<not> is_space x" "x \<noteq> CHR ''-''" "x \<noteq> CHR ''+''"
proof -
  obtain x xs where x: "dec n = x # xs" by (cases "dec n") auto
  have d: "is_digit x" using is_digit_dec [of n] x by simp
  then have "\<not> is_space x" "x \<noteq> CHR ''-''" "x \<noteq> CHR ''+''" by (auto simp: is_digit_def is_space_def Let_def)
  then show ?thesis using that [OF x d] by blast
qed

lemma scan_digits_dec:
  assumes "\<not> is_digit c" "list_all is_space ws"
  shows "scan_digits (ws @ dec n @ c # r) = Some (False, n, c # r)"
proof -
  obtain x xs where x: "dec n = x # xs" "is_digit x" "\<not> is_space x" "x \<noteq> CHR ''-''" "x \<noteq> CHR ''+''" by (rule dec_first)
  have "dropWhile is_space (ws @ dec n @ c # r) = dec n @ c # r"
    using assms(2) x by (simp add: dropWhile_append list_all_iff)
  moreover have "strip_sign (dec n @ c # r) = (False, dec n @ c # r)" using x by simp
  ultimately show ?thesis
    using takeWhile_dec [OF assms(1), of n r] digits_val_dec [of n] by (simp add: scan_digits_def)
qed

lemma scan_long_to_string:
  assumes "\<not> is_digit c" "list_all is_space ws" "- (2 ^ 63) \<le> v" "v < 2 ^ 63"
  shows "scan_long (ws @ to_string v @ c # r) = Some (v, c # r)"
proof (cases "v < 0")
  case False
  then show ?thesis using scan_digits_dec [OF assms(1,2), of "nat v" r] assms(3,4) by (simp add: scan_long_def to_string_def)
next
  case True
  have "dropWhile is_space (ws @ CHR ''-'' # dec (nat (- v)) @ c # r) = CHR ''-'' # dec (nat (- v)) @ c # r"
    using assms(2) by (simp add: dropWhile_append list_all_iff is_space_def)
  then have "scan_digits (ws @ CHR ''-'' # dec (nat (- v)) @ c # r) = Some (True, nat (- v), c # r)"
    using takeWhile_dec [OF assms(1), of "nat (- v)" r] digits_val_dec [of "nat (- v)"] by (simp add: scan_digits_def)
  then show ?thesis using True assms(3,4) by (simp add: scan_long_def to_string_def)
qed

lemma parse_ids_Nil [simp]: "parse_ids [] = []"
  by (simp add: parse_ids.simps [of "[]"])

lemma parse_ids_number:
  assumes "\<not> is_digit c" "list_all is_space ws" "- 2147483648 \<le> v" "v < 2147483648"
  shows "parse_ids (ws @ to_string v @ c # r) = v # parse_ids (c # r)"
  using scan_long_to_string [OF assms(1,2), of v r] assms(3,4) by (simp add: parse_ids.simps [of "ws @ to_string v @ c # r"])

text \<open>A character that starts no number is passed over.\<close>

lemma parse_ids_skip:
  assumes "\<not> is_digit c" "\<not> is_space c" "c \<in> {CHR ''-'', CHR ''+''} \<longrightarrow> (case r of [] \<Rightarrow> True | d # _ \<Rightarrow> \<not> is_digit d)"
  shows "parse_ids (c # r) = parse_ids r"
proof -
  have "scan_digits (c # r) = None" using assms by (cases r) (auto simp: scan_digits_def)
  then show ?thesis by (simp add: parse_ids.simps [of "c # r"] scan_long_def)
qed

lemma parse_ids_text:
  assumes "list_all (\<lambda>c. \<not> is_digit c \<and> \<not> is_space c) xs" "case r of [] \<Rightarrow> True | d # _ \<Rightarrow> \<not> is_digit d"
  shows "parse_ids (xs @ r) = parse_ids r"
  using assms
proof (induction xs)
  case (Cons c xs)
  have "case xs @ r of [] \<Rightarrow> True | d # _ \<Rightarrow> \<not> is_digit d" using Cons.prems by (cases xs) auto
  then show ?case using Cons parse_ids_skip [of c "xs @ r"] by simp
qed simp

lemma parse_ids_newline: "parse_ids [CHR 0x0A] = []"
proof -
  have "scan_long [CHR 0x0A] = None" by code_simp
  then show ?thesis by (simp add: parse_ids.simps [of "[CHR 0x0A]"])
qed

lemma parse_ids_blank:
  assumes "is_space c" "\<not> is_space d" "\<not> is_digit d" "d \<notin> {CHR ''-'', CHR ''+''}"
  shows "parse_ids (c # d # r) = parse_ids (d # r)"
proof -
  have "scan_digits (c # d # r) = None" using assms by (simp add: scan_digits_def)
  then show ?thesis by (simp add: parse_ids.simps [of "c # d # r"] scan_long_def)
qed

lemma space_chars [simp]:
  "is_space CHR '' ''" "is_space CHR 0x0A" "\<not> is_digit CHR '' ''" "\<not> is_digit CHR 0x0A" "\<not> is_digit CHR '',''" "\<not> is_space CHR '',''"
  by (simp_all add: is_space_def is_digit_def)

abbreviation id32 :: "int \<Rightarrow> bool" where
  "id32 v \<equiv> - 2147483648 \<le> v \<and> v < 2147483648"

lemma parse_ids_list:
  assumes "list_all id32 vs"
  shows "parse_ids (concat (map (\<lambda>v. CHR '','' # to_string v) vs) @ [CHR 0x0A]) = vs"
  using assms
proof (induction vs)
  case Nil
  show ?case using parse_ids_newline by simp
next
  case (Cons v vs)
  let ?t = "concat (map (\<lambda>v. CHR '','' # to_string v) vs) @ [CHR 0x0A]"
  obtain c r where c: "?t = c # r" "\<not> is_digit c" by (cases vs) auto
  have "parse_ids (CHR '','' # to_string v @ ?t) = parse_ids (to_string v @ ?t)" by (rule parse_ids_skip) simp_all
  also have "\<dots> = v # parse_ids ?t" using parse_ids_number [OF c(2), of "[]" v r] Cons.prems by (simp add: c(1))
  finally show ?case using Cons by simp
qed

lemma enumerate_commas:
  "concat (map (\<lambda>(i, v). (if i \<noteq> 0 then '','' else '' '') @ to_string v) (enumerate (Suc n) vs)) = concat (map (\<lambda>v. CHR '','' # to_string v) vs)"
  by (induction vs arbitrary: n) auto

lemma touch_text_Cons:
  "touch_text step name (v # vs) =
     ''S '' @ to_string step @ '' '' @ name @ '' '' @ to_string v @ concat (map (\<lambda>v. CHR '','' # to_string v) vs) @ [CHR 0x0A]"
  using enumerate_commas [of 0 vs] by (simp add: touch_text_def)

text \<open>The name of a tensor of layer \<open>l\<close>, and the names a trace line can carry.\<close>

definition layer_name :: "nat \<Rightarrow> string \<Rightarrow> string" where
  "layer_name l suf = ''blk.'' @ dec l @ CHR ''.'' # suf"

definition plain_suffix :: "string \<Rightarrow> bool" where
  "plain_suffix suf = list_all (\<lambda>c. \<not> is_digit c \<and> \<not> is_space c) suf"

definition word_name :: "string \<Rightarrow> bool" where
  "word_name name = (name \<noteq> [] \<and> length name \<le> 255 \<and> list_all (\<lambda>c. \<not> is_space c) name)"

lemma parse_ids_recorded:
  assumes "plain_suffix suf" "l < 2 ^ 31" "list_all id32 (v # vs)"
  shows "parse_ids ('' '' @ layer_name l suf @ '' '' @ to_string v @ concat (map (\<lambda>v. CHR '','' # to_string v) vs) @ [CHR 0x0A])
           = int l # v # vs"
proof -
  let ?t = "concat (map (\<lambda>v. CHR '','' # to_string v) vs) @ [CHR 0x0A]"
  obtain c r where c: "?t = c # r" "\<not> is_digit c" by (cases vs) auto
  have n: "parse_ids ('' '' @ to_string v @ ?t) = v # vs"
    using parse_ids_number [OF c(2), of "'' ''" v r] assms(3) parse_ids_list [of vs] by (simp add: c(1))
  have s: "parse_ids ((CHR ''.'' # suf) @ '' '' @ to_string v @ ?t) = v # vs"
    using assms(1) n by (subst parse_ids_text) (simp_all add: plain_suffix_def is_digit_def is_space_def)
  have "parse_ids (dec l @ (CHR ''.'' # suf) @ '' '' @ to_string v @ ?t) = int l # v # vs"
    using parse_ids_number [of "CHR ''.''" "[]" "int l" "suf @ '' '' @ to_string v @ ?t"] s assms(2)
    by (simp add: to_string_def is_digit_def)
  then show ?thesis
    by (simp add: layer_name_def parse_ids_blank parse_ids_skip is_digit_def is_space_def)
qed

lemma scan_word_name:
  assumes "word_name name" "is_space c" "list_all is_space ws"
  shows "scan_word (ws @ name @ c # r) = Some (name, c # r)"
proof -
  have n: "name \<noteq> []" "length name \<le> 255" "\<forall>x\<in>set name. \<not> is_space x" using assms(1) by (simp_all add: word_name_def list_all_iff)
  have d: "dropWhile is_space (ws @ name @ c # r) = name @ c # r"
    using assms(3) n(1,3) by (cases name) (simp_all add: dropWhile_append list_all_iff)
  have "takeWhile (\<lambda>x. \<not> is_space x) (take 255 (name @ c # r)) = name"
    using n(2,3) assms(2) by (cases "255 - length name") (simp_all add: takeWhile_append)
  then show ?thesis using d n(1) by (simp add: scan_word_def Let_def)
qed

lemma no_space_to_string: "\<forall>c\<in>set (to_string i). \<not> is_space c"
proof -
  have "\<forall>c\<in>set (dec n). \<not> is_space c" for n
    using is_digit_dec [of n] by (auto simp: list_all_iff is_digit_def is_space_def Let_def)
  then show ?thesis by (simp add: to_string_def is_space_def)
qed

lemma strchr_space_skip: "\<forall>c\<in>set xs. \<not> is_space c \<Longrightarrow> strchr_space (xs @ CHR '' '' # r) = Some (CHR '' '' # r)"
proof -
  assume "\<forall>c\<in>set xs. \<not> is_space c"
  then have "\<forall>c\<in>set xs. c \<noteq> CHR '' ''" by auto
  then show ?thesis by (simp add: strchr_space_def dropWhile_append)
qed

text \<open>One recorded line, read back.\<close>

lemma parse_touch_text:
  assumes "word_name (layer_name l suf)" "plain_suffix suf" "l < 2 ^ 31" "list_all id32 ids" "ids \<noteq> []" "0 \<le> step" "step < 2 ^ 63"
    and i: "index_of (tr_names tr) (layer_name l suf) = Some i"
  shows "parse_line tr (touch_text step (layer_name l suf) ids) =
           Some (tr\<lparr>tr_touches := tr_touches tr @ [\<lparr>tc_step = step, tc_t = of_nat i, tc_ids = int l # ids\<rparr>]\<rparr>)"
proof -
  obtain v vs where ids: "ids = v # vs" using assms(5) by (cases ids) auto
  let ?u = "'' '' @ to_string v @ concat (map (\<lambda>v. CHR '','' # to_string v) vs) @ [CHR 0x0A]"
  let ?r = "'' '' @ layer_name l suf @ ?u"
  have t: "touch_text step (layer_name l suf) ids = CHR ''S'' # CHR '' '' # to_string step @ ?r"
    by (simp add: ids touch_text_Cons)
  have 1: "scan_long (CHR '' '' # to_string step @ ?r) = Some (step, ?r)"
    using scan_long_to_string [of "CHR '' ''" "'' ''" step "layer_name l suf @ ?u"] assms(6,7) by simp
  have 2: "scan_word ?r = Some (layer_name l suf, ?u)"
    using scan_word_name [OF assms(1), of "CHR '' ''" "'' ''" "tl ?u"] by simp
  have 3: "strchr_space (CHR ''S'' # CHR '' '' # to_string step @ ?r) = Some (CHR '' '' # to_string step @ ?r)"
    using strchr_space_skip [of "''S''" "to_string step @ ?r"] by (simp add: is_space_def)
  have 4: "strchr_space (to_string step @ ?r) = Some ?r"
    using strchr_space_skip [OF no_space_to_string, of step "layer_name l suf @ ?u"] by simp
  have 5: "parse_ids ?r = int l # ids" using parse_ids_recorded [OF assms(2,3), of v vs] assms(4) by (simp add: ids)
  have "parse_touch tr (CHR ''S'' # CHR '' '' # to_string step @ ?r) =
          Some (tr\<lparr>tr_touches := tr_touches tr @ [\<lparr>tc_step = step, tc_t = of_nat i, tc_ids = int l # ids\<rparr>]\<rparr>)"
    unfolding parse_touch_def drop_Suc_Cons drop_0 One_nat_def 1 2 3 option.case prod.case i list.sel 4 5 Let_def ..
  then show ?thesis unfolding t parse_line_def by simp
qed

lemma scan_ull_dec:
  assumes "is_space c" "list_all is_space ws"
  shows "scan_ull (ws @ dec (unat x) @ c # r) = Some (x, c # r)"
proof -
  have "\<not> is_digit c" using assms(1) by (auto simp: is_digit_def is_space_def Let_def)
  moreover have "\<not> 18446744073709551616 \<le> unat x" using unat_lt64 [of x] by (simp only: not_le)
  ultimately show ?thesis using scan_digits_dec [of c ws "unat x" r] assms by (simp add: scan_ull_def)
qed

lemma parse_tensor_text:
  assumes "word_name (ti_name ti)"
  shows "parse_line tr (tensor_text ti) =
           Some (tr\<lparr>tr_names := tr_names tr @ [ti_name ti], tr_bytes := tr_bytes tr @ [bytes_per_expert ti]\<rparr>)"
  using scan_word_name [OF assms, of "CHR '' ''" "'' ''"] scan_ull_dec [of "CHR 0x0A" "'' ''" "bytes_per_expert ti" "[]"]
  by (simp add: parse_line_def tensor_text_def)

text \<open>Reading a file line by line.\<close>

definition short_line :: "string \<Rightarrow> bool" where
  "short_line l = (l \<noteq> [] \<and> last l = CHR 0x0A \<and> CHR 0x0A \<notin> set (butlast l) \<and> length l \<le> 8191)"

lemma fgets_line:
  assumes "short_line l"
  shows "fgets (l @ r) = (l, r)"
proof -
  have l: "l = butlast l @ [CHR 0x0A]" "CHR 0x0A \<notin> set (butlast l)" "length l \<le> 8191"
    using assms append_butlast_last_id [of l] by (simp_all add: short_line_def)
  have "l @ r = butlast l @ CHR 0x0A # r" by (subst l(1)) simp
  moreover have "\<forall>c\<in>set (butlast l). c \<noteq> CHR 0x0A" using l(2) by blast
  ultimately have "takeWhile (\<lambda>c. c \<noteq> CHR 0x0A) (l @ r) = butlast l" by (simp only: takeWhile_append2 takeWhile.simps) simp
  moreover have "Suc (length (butlast l)) = length l" using l(1) by (metis length_append_singleton)
  ultimately show ?thesis using l(3) by (simp add: fgets_def Let_def)
qed

lemma parse_trace_Nil [simp]: "parse_trace tr [] = Some tr"
  by (simp add: parse_trace.simps [of tr "[]"])

lemma parse_trace_line:
  assumes "short_line l" "parse_line tr l = Some tr'"
  shows "parse_trace tr (l @ r) = parse_trace tr' r"
  using assms fgets_line [OF assms(1), of r] by (simp add: parse_trace.simps [of tr "l @ r"] short_line_def)

lemma no_newline: "\<forall>c\<in>set xs. \<not> is_space c \<Longrightarrow> CHR 0x0A \<notin> set xs"
  by auto

lemma to_string_no_newline: "CHR 0x0A \<notin> set (to_string i)" "CHR 0x0A \<notin> set (dec n)"
  using no_newline [OF no_space_to_string [of i]] no_newline [OF no_space_to_string [of "int n"]] by (simp_all add: to_string_def)

lemma word_name_no_newline: "word_name name \<Longrightarrow> CHR 0x0A \<notin> set name"
  by (rule no_newline) (simp add: word_name_def list_all_iff)

lemma short_line_snoc: "CHR 0x0A \<notin> set xs \<Longrightarrow> length xs \<le> 8190 \<Longrightarrow> short_line (xs @ [CHR 0x0A])"
  by (simp add: short_line_def)

lemma length_dec_le: "n < 10 ^ Suc k \<Longrightarrow> length (dec n) \<le> Suc k"
proof (induction k arbitrary: n)
  case 0
  then show ?case by (simp add: dec.simps [of n])
next
  case (Suc k)
  have "n div 10 < 10 ^ Suc k" using Suc.prems by (simp add: less_mult_imp_div_less)
  then have "length (dec (n div 10)) \<le> Suc k" by (rule Suc.IH)
  then show ?case by (simp add: dec.simps [of n])
qed

lemma length_dec_u64: "length (dec (unat (x :: u64))) \<le> 20"
  using length_dec_le [of "unat x" 19] unat_lt64 [of x] by simp

lemma short_tensor_text: "word_name (ti_name ti) \<Longrightarrow> short_line (tensor_text ti)"
proof -
  assume w: "word_name (ti_name ti)"
  show ?thesis
    using length_dec_u64 [of "bytes_per_expert ti"] short_line_snoc [of "''#T '' @ ti_name ti @ '' '' @ dec (unat (bytes_per_expert ti))"] w word_name_no_newline [OF w] to_string_no_newline
    by (simp add: tensor_text_def word_name_def)
qed

lemma parse_tensors:
  assumes "list_all (\<lambda>ti. word_name (ti_name ti)) tis"
  shows "parse_trace tr (concat (map tensor_text tis) @ r) =
           parse_trace (tr\<lparr>tr_names := tr_names tr @ map ti_name tis, tr_bytes := tr_bytes tr @ map bytes_per_expert tis\<rparr>) r"
  using assms
proof (induction tis arbitrary: tr)
  case (Cons ti tis)
  then show ?case using parse_trace_line [OF short_tensor_text parse_tensor_text, of ti tr "concat (map tensor_text tis) @ r"] by simp
qed simp

text \<open>A whole recorded file: the header of a model's manifest and one line per recorded touch.\<close>

type_synonym rec_touch = "int \<times> nat \<times> string \<times> int list"

definition rec_text :: "rec_touch \<Rightarrow> string" where
  "rec_text = (\<lambda>(step, l, suf, ids). touch_text step (layer_name l suf) ids)"

definition recordable :: "string list \<Rightarrow> rec_touch \<Rightarrow> bool" where
  "recordable names = (\<lambda>(step, l, suf, ids).
     word_name (layer_name l suf) \<and> plain_suffix suf \<and> l < 2 ^ 31 \<and> list_all id32 ids \<and> ids \<noteq> [] \<and> 0 \<le> step \<and> step < 2 ^ 63
     \<and> layer_name l suf \<in> set names \<and> length (rec_text (step, l, suf, ids)) \<le> 8191)"

definition read_touch :: "string list \<Rightarrow> rec_touch \<Rightarrow> sim_touch" where
  "read_touch names = (\<lambda>(step, l, suf, ids).
     \<lparr>tc_step = step, tc_t = of_nat (the (index_of names (layer_name l suf))), tc_ids = int l # ids\<rparr>)"

lemma index_of_set: "x \<in> set xs \<Longrightarrow> index_of xs x = Some (the (index_of xs x))"
  by (induction xs) (auto split: option.splits, metis option.map(2) option.sel)

lemma short_touch_text:
  assumes "word_name name" "ids \<noteq> []" "length (touch_text step name ids) \<le> 8191"
  shows "short_line (touch_text step name ids)"
proof -
  obtain v vs where ids: "ids = v # vs" using assms(2) by (cases ids) auto
  let ?b = "''S '' @ to_string step @ '' '' @ name @ '' '' @ to_string v @ concat (map (\<lambda>v. CHR '','' # to_string v) vs)"
  have t: "touch_text step name ids = ?b @ [CHR 0x0A]" by (simp add: ids touch_text_Cons)
  have "CHR 0x0A \<notin> set ?b" using to_string_no_newline word_name_no_newline [OF assms(1)] by simp
  moreover have "length ?b \<le> 8190" using assms(3) unfolding t by simp
  ultimately show ?thesis unfolding t by (rule short_line_snoc)
qed

lemma parse_rec_texts:
  assumes "list_all (recordable (tr_names tr)) ts"
  shows "parse_trace tr (concat (map rec_text ts)) = Some (tr\<lparr>tr_touches := tr_touches tr @ map (read_touch (tr_names tr)) ts\<rparr>)"
  using assms
proof (induction ts arbitrary: tr)
  case (Cons t ts)
  obtain step l suf ids where t: "t = (step, l, suf, ids)" by (cases t) auto
  let ?tr = "tr\<lparr>tr_touches := tr_touches tr @ [read_touch (tr_names tr) t]\<rparr>"
  have g: "recordable (tr_names tr) (step, l, suf, ids)" using Cons.prems t by simp
  have i: "index_of (tr_names tr) (layer_name l suf) = Some (the (index_of (tr_names tr) (layer_name l suf)))"
    using g by (intro index_of_set) (simp add: recordable_def)
  have "parse_line tr (rec_text t) = Some ?tr"
    using parse_touch_text [OF _ _ _ _ _ _ _ i, of ids step] g by (simp add: t recordable_def rec_text_def read_touch_def)
  moreover have "short_line (rec_text t)" using g by (auto simp: t recordable_def rec_text_def intro: short_touch_text)
  ultimately have "parse_trace tr (rec_text t @ concat (map rec_text ts)) = parse_trace ?tr (concat (map rec_text ts))"
    by (intro parse_trace_line)
  then show ?case using Cons.IH [of ?tr] Cons.prems by simp
qed simp

lemma parse_sizes:
  "parse_trace tr (''#M '' @ dec (unat a) @ '' '' @ dec (unat b) @ CHR 0x0A # r) = parse_trace (tr\<lparr>tr_shared := a, tr_dense := b\<rparr>) r"
proof -
  let ?l = "(''#M '' @ dec (unat a) @ '' '' @ dec (unat b)) @ [CHR 0x0A]"
  have "parse_line tr ?l = Some (tr\<lparr>tr_shared := a, tr_dense := b\<rparr>)"
    using scan_ull_dec [of "CHR '' ''" "'' ''" a] scan_ull_dec [of "CHR 0x0A" "'' ''" b "[]"] by (simp add: parse_line_def)
  moreover have "short_line ?l"
    using length_dec_u64 [of a] length_dec_u64 [of b] to_string_no_newline by (intro short_line_snoc) simp_all
  ultimately have "parse_trace tr (?l @ r) = parse_trace (tr\<lparr>tr_shared := a, tr_dense := b\<rparr>) r" by (intro parse_trace_line)
  then show ?thesis by simp
qed

definition mandatory_sum :: "(tensor_kind \<Rightarrow> bool) \<Rightarrow> model_manifest \<Rightarrow> u64" where
  "mandatory_sum P mf = sum_list (map bytes_total (filter (\<lambda>ti. P (ti_kind ti)) (mf_tensors mf)))"

text \<open>
  Claim C40. The simulator reads what the recorder wrote, except for the expert ids: from a file with the header of any manifest whose routed
  tensors have plain names, and any recorded touches of at most 8191 characters each, it gets the tensor table, the slice sizes,
  the sizes of the shared and the other dense tensors and every touch in order, but with the layer number of the tensor's name in front of the
  ids that were recorded, as one more expert: the search for the ids starts before the name.
\<close>

theorem recorded_touch_gains_layer:
  fixes mf :: model_manifest and ts :: "rec_touch list"
  defines "routed \<equiv> filter (\<lambda>ti. ti_kind ti = ROUTED_EXPERT) (mf_tensors mf)"
  assumes "list_all (\<lambda>ti. word_name (ti_name ti)) routed" "list_all (recordable (map ti_name routed)) ts"
  shows "parse_trace new_trace (header_text mf @ concat (map (\<lambda>(step, l, suf, ids). touch_text step (layer_name l suf) ids) ts)) =
    Some \<lparr>tr_names = map ti_name routed, tr_bytes = map bytes_per_expert routed,
          tr_shared = mandatory_sum (\<lambda>k. k = SHARED_EXPERT) mf,
          tr_dense = mandatory_sum (\<lambda>k. k \<notin> {ROUTED_EXPERT, SHARED_EXPERT, SCALE}) mf,
          tr_touches = map (\<lambda>(step, l, suf, ids).
            \<lparr>tc_step = step, tc_t = of_nat (the (index_of (map ti_name routed) (layer_name l suf))), tc_ids = int l # ids\<rparr>) ts\<rparr>"
proof -
  let ?tr = "\<lparr>tr_names = map ti_name routed, tr_bytes = map bytes_per_expert routed,
          tr_shared = mandatory_sum (\<lambda>k. k = SHARED_EXPERT) mf,
          tr_dense = mandatory_sum (\<lambda>k. k \<notin> {ROUTED_EXPERT, SHARED_EXPERT, SCALE}) mf, tr_touches = []\<rparr>"
  have "parse_trace new_trace (header_text mf @ concat (map rec_text ts)) = parse_trace ?tr (concat (map rec_text ts))"
    using parse_tensors [OF assms(2), of new_trace] parse_sizes
    by (simp add: header_text_def Let_def routed_def mandatory_sum_def new_trace_def)
  also have "\<dots> = Some (?tr\<lparr>tr_touches := map (read_touch (map ti_name routed)) ts\<rparr>)"
    using parse_rec_texts [of ?tr ts] assms(3) by simp
  finally show ?thesis by (simp add: rec_text_def read_touch_def)
qed

definition demo_tensor :: "string \<Rightarrow> tensor_kind \<Rightarrow> u64 \<Rightarrow> tensor_info" where
  "demo_tensor name k b = \<lparr>ti_name = name, ti_kind = k, ti_layer = 7, abs_offset = 0, bytes_total = 8 * b, expert_count = 8, expert_axis = 2,
     bytes_per_expert = b, expert_contiguous = True, quant_type = ''Q4_K''\<rparr>"

definition demo_manifest :: model_manifest where
  "demo_manifest = new_model_manifest\<lparr>mf_tensors :=
     [demo_tensor ''blk.7.ffn_up_shexp.weight'' SHARED_EXPERT 16, demo_tensor ''blk.7.ffn_up_exps.weight'' ROUTED_EXPERT 64,
      demo_tensor ''output.weight'' OUTPUT 4]\<rparr>"

lemma demo_names: "layer_name 7 ''ffn_up_exps.weight'' = ''blk.7.ffn_up_exps.weight''"
  by code_simp

lemma demo_recordable: "recordable [''blk.7.ffn_up_exps.weight''] (5, 7, ''ffn_up_exps.weight'', [3, 2])"
  unfolding recordable_def prod.case rec_text_def demo_names
  by (simp add: word_name_def plain_suffix_def touch_text_def to_string_def dec.simps is_space_def is_digit_def)

theorem recorded_touch_gains_layer_witness:
  "\<exists>tr. parse_trace new_trace (header_text demo_manifest @ touch_text 5 ''blk.7.ffn_up_exps.weight'' [3, 2]) = Some tr
     \<and> tr_names tr = [''blk.7.ffn_up_exps.weight''] \<and> tr_bytes tr = [64] \<and> tr_shared tr = 128 \<and> tr_dense tr = 32
     \<and> tr_touches tr = [\<lparr>tc_step = 5, tc_t = 0, tc_ids = [7, 3, 2]\<rparr>]"
  using recorded_touch_gains_layer [of demo_manifest "[(5, 7, ''ffn_up_exps.weight'', [3, 2])]"] demo_recordable
  by (simp add: demo_manifest_def demo_tensor_def demo_names mandatory_sum_def new_model_manifest_def word_name_def is_space_def)

end
