(* ===== verification/Stream_Gate.thy ===== *)
theory Stream_Gate
  imports Binary64 Slice_Cache
begin

unbundle bit_operations_syntax

text \<open>
  \<^verbatim>\<open>runtime/cne_stream_cb.cpp\<close>, lines 406--432: expert-mass gating, the choice of how many ranked experts of a token are
  kept. The values it adds are doubles of which only the low four bytes are written, so every bit pattern can
  occur: IEEE-754 binary64 values are modelled with infinities, NaN and subnormal numbers, and the bytes that are never
  written are an argument. The two zeros are one value; none of the operations used tells them apart.
\<close>

section \<open>IEEE doubles\<close>

datatype fpv = NaN | Inf bool | Fin rat

definition round64 :: "rat \<Rightarrow> fpv" where
  "round64 x =
     (if x = 0 then Fin 0
      else let e = max (flog2 \<bar>x\<bar> - 52) (-1074); r = pow2 e * of_int (rne (\<bar>x\<bar> / pow2 e))
           in if flog2 r \<ge> 1024 then Inf (x < 0) else Fin (if x < 0 then - r else r))"

definition decode64 :: "u64 \<Rightarrow> fpv" where
  "decode64 w =
     (let sgn = bit w 63; ex = uint (drop_bit 52 w AND 2047); frac = uint (w AND mask 52);
          signed = (\<lambda>x. if sgn then - x else x)
      in if ex = 2047 then (if frac = 0 then Inf sgn else NaN)
         else if ex = 0 then Fin (signed (of_int frac * pow2 (-1074)))
         else Fin (signed (of_int (2 ^ 52 + frac) * pow2 (ex - 1075))))"

fun fadd :: "fpv \<Rightarrow> fpv \<Rightarrow> fpv" where
  "fadd (Fin x) (Fin y) = round64 (x + y)"
| "fadd (Inf a) (Fin y) = Inf a"
| "fadd (Fin x) (Inf b) = Inf b"
| "fadd (Inf a) (Inf b) = (if a = b then Inf a else NaN)"
| "fadd NaN v = NaN"
| "fadd u NaN = NaN"

text \<open>Division; the code divides by a positive sum only.\<close>

fun fdiv :: "fpv \<Rightarrow> fpv \<Rightarrow> fpv" where
  "fdiv (Fin x) (Fin y) = (if y = 0 then (if x = 0 then NaN else Inf (x < 0)) else round64 (x / y))"
| "fdiv (Inf a) (Fin y) = Inf (a \<noteq> (y < 0))"
| "fdiv (Fin x) (Inf b) = Fin 0"
| "fdiv (Inf a) (Inf b) = NaN"
| "fdiv NaN v = NaN"
| "fdiv u NaN = NaN"

fun fge :: "fpv \<Rightarrow> fpv \<Rightarrow> bool" where
  "fge (Fin x) (Fin y) = (x \<ge> y)"
| "fge (Inf a) (Fin y) = (\<not> a)"
| "fge (Fin x) (Inf b) = b"
| "fge (Inf a) (Inf b) = (a \<le> b)"
| "fge NaN v = False"
| "fge u NaN = False"

fun fpos :: "fpv \<Rightarrow> bool" where
  "fpos (Fin x) = (x > 0)"
| "fpos (Inf a) = (\<not> a)"
| "fpos NaN = False"

section \<open>The gate\<close>

definition load32 :: "memory \<Rightarrow> u64 \<Rightarrow> u32" where
  "load32 m a = ucast (m a) OR push_bit 8 (ucast (m (a + 1))) OR push_bit 16 (ucast (m (a + 2)))
     OR push_bit 24 (ucast (m (a + 3)))"

text \<open>\<^verbatim>\<open>double p; memcpy(&p, a, 4)\<close>: \<open>stale\<close> is what the other four bytes of \<open>p\<close> hold.\<close>

definition partial_double :: "u32 \<Rightarrow> memory \<Rightarrow> u64 \<Rightarrow> fpv" where
  "partial_double stale m a = decode64 (push_bit 32 (ucast stale) OR ucast (load32 m a))"

fun gate_rank :: "(nat \<Rightarrow> fpv) \<Rightarrow> fpv \<Rightarrow> fpv \<Rightarrow> fpv \<Rightarrow> nat list \<Rightarrow> nat option" where
  "gate_rank p sel mass cum [] = None"
| "gate_rank p sel mass cum (r # rs) =
     (let cum = fadd cum (fdiv (p r) sel) in if fge cum mass then Some (r + 1) else gate_rank p sel mass cum rs)"

definition gate_column :: "(nat \<Rightarrow> fpv) \<Rightarrow> nat \<Rightarrow> fpv \<Rightarrow> int \<Rightarrow> int option" where
  "gate_column p n_used mass min_k =
     (let rs = [0 ..< min n_used 4096]; sel = foldl fadd (Fin 0) (map p rs)
      in if \<not> fpos sel then None
         else let m = (case gate_rank p sel mass (Fin 0) rs of Some m \<Rightarrow> int m | None \<Rightarrow> int n_used)
              in Some (if m < min_k then min_k else m))"

lemma gate_rank_in: "gate_rank p sel mass cum rs = Some m \<Longrightarrow> \<exists>r \<in> set rs. m = r + 1"
  by (induction rs arbitrary: cum) (auto simp: Let_def split: if_splits)

text \<open>
  The gate keeps at least \<^verbatim>\<open>l2_min_k\<close> experts of a token and never more than are used, provided the model uses at least
  that many: whatever the values it adds, the kept ranks lie inside the ranked list.
\<close>

theorem gate_column_bounds:
  assumes "gate_column p n_used mass min_k = Some m" "0 < n_used" "min_k \<le> int n_used"
  shows "1 \<le> m \<and> min_k \<le> m \<and> m \<le> int n_used"
proof -
  define m0 where "m0 = (case gate_rank p (foldl fadd (Fin 0) (map p [0 ..< min n_used 4096])) mass (Fin 0) [0 ..< min n_used 4096] of
      Some m \<Rightarrow> int m | None \<Rightarrow> int n_used)"
  have "1 \<le> m0 \<and> m0 \<le> int n_used"
    using assms(2) gate_rank_in [of p _ mass "Fin 0" "[0 ..< min n_used 4096]"]
    by (fastforce simp: m0_def split: option.splits)
  moreover have "m = (if m0 < min_k then min_k else m0)"
    using assms(1) by (simp add: gate_column_def m0_def Let_def split: if_splits)
  ultimately show ?thesis using assms(3) by (simp split: if_splits)
qed

text \<open>
  Four bytes of a float are copied into a double whose other four bytes were never written, so the gate does not see the
  probabilities: for 0.75 and 0.25 and a mass of 0.7 it keeps two experts when the stale bytes are twice those of 1.0, and
  one when they are those of 16.0 and of 1.0.
\<close>

definition two_probs :: memory where
  "two_probs a = ([0, 0, 0x40, 0x3f, 0, 0, 0x80, 0x3e] :: u8 list) ! unat a"

lemma stale_values:
  "partial_double 0x3ff00000 two_probs 0 = Fin (1073742077 / 1073741824)"
  "partial_double 0x3ff00000 two_probs 4 = Fin (536871037 / 536870912)"
  "partial_double 0x40300000 two_probs 0 = Fin (1073742077 / 67108864)"
  by code_simp+

lemma stale_sums:
  "round64 (2147484151 / 1073741824) = Fin (2147484151 / 1073741824)"
  "round64 (9126807653 / 536870912) = Fin (9126807653 / 536870912)"
  "round64 (1073742077 / 1073741824) = Fin (1073742077 / 1073741824)"
  "round64 (1073742077 / 67108864) = Fin (1073742077 / 67108864)"
  by code_simp+

lemma gate_two_columns:
  "gate_column p 2 mass 1 =
     (let sel = fadd (fadd (Fin 0) (p 0)) (p 1) in
      if \<not> fpos sel then None
      else let c1 = fadd (Fin 0) (fdiv (p 0) sel); c2 = fadd c1 (fdiv (p 1) sel)
           in if fge c1 mass then Some 1 else Some 2)"
  by (simp add: gate_column_def Let_def upt_rec)

theorem gate_reads_stale_bytes:
  "gate_column (\<lambda>r. partial_double 0x3ff00000 two_probs (of_nat r * 4)) 2 (Fin (7 / 10)) 1 = Some 2
   \<and> gate_column (\<lambda>r. partial_double (if r = 0 then 0x40300000 else 0x3ff00000) two_probs (of_nat r * 4)) 2 (Fin (7 / 10)) 1 = Some 1"
proof
  have a: "fadd (Fin 0) (round64 (1073742077 / 2147484151)) = Fin (4503599633661951 / 9007199254740992)" by code_simp
  show "gate_column (\<lambda>r. partial_double 0x3ff00000 two_probs (of_nat r * 4)) 2 (Fin (7 / 10)) 1 = Some 2"
    by (simp add: gate_two_columns stale_values stale_sums a)
  have b: "fadd (Fin 0) (round64 (8589936616 / 9126807653)) = Fin (8477364005855373 / 9007199254740992)" by code_simp
  show "gate_column (\<lambda>r. partial_double (if r = 0 then 0x40300000 else 0x3ff00000) two_probs (of_nat r * 4)) 2 (Fin (7 / 10)) 1 = Some 1"
    by (simp add: gate_two_columns stale_values stale_sums b)
qed

theorem gate_column_bounds_witness:
  "\<exists>m. gate_column (\<lambda>r. partial_double 0x3ff00000 two_probs (of_nat r * 4)) 2 (Fin (7 / 10)) 1 = Some m \<and> 1 \<le> m \<and> m \<le> 2"
proof -
  have "fadd (Fin 0) (round64 (1073742077 / 2147484151)) = Fin (4503599633661951 / 9007199254740992)" by code_simp
  then have "gate_column (\<lambda>r. partial_double 0x3ff00000 two_probs (of_nat r * 4)) 2 (Fin (7 / 10)) 1 = Some 2"
    by (simp add: gate_two_columns stale_values stale_sums)
  with gate_column_bounds [OF this] show ?thesis by simp
qed

end
