(* ===== verification/Stream_Cb.thy ===== *)
theory Stream_Cb
  imports Stream_Gate Direct_Io Registry
begin

unbundle bit_operations_syntax

text \<open>
  \<^verbatim>\<open>runtime/cne_stream_cb.h\<close> and \<^verbatim>\<open>runtime/cne_stream_cb.cpp\<close>: the evaluation callback that serves expert slices on demand. The
  globals of the file are the record \<open>stream\<close>; process memory is the memory of the cache it owns, tensors of the compute graph live in
  a heap indexed by pointers because the callback repoints their \<^verbatim>\<open>data\<close>. The file is built without \<^verbatim>\<open>CNE_AUDIT\<close>. What
  the code takes from outside is the record \<open>host\<close>: the resolved knobs, \<^verbatim>\<open>ggml_nbytes\<close>, the allocators, the contents of file
  mappings, the enumeration order of hash sets, the completion order of the lanes and the bytes a declared but unwritten
  double holds. Log output, clocks and dump files are left out. \<^verbatim>\<open>exit(1)\<close>, an abort in the cache and a null dereference are \<open>None\<close>.
\<close>

section \<open>Data\<close>

datatype ggml_op = OP_ARGSORT | OP_MUL_MAT_ID | OP_OTHER

datatype ggml_type = TYPE_F32 | TYPE_I32 | TYPE_OTHER

type_synonym tptr = nat

text \<open>\<open>t_src\<close> lists the sources before the first null one.\<close>

record ggml_tensor =
  t_name :: string
  t_op :: ggml_op
  t_type :: ggml_type
  t_data :: u64
  ne0 :: int
  ne1 :: int
  nb0 :: u64
  nb1 :: u64
  t_src :: "tptr list"

datatype pf_mode = PF_OFF | PF_FULL | PF_LOOKAHEAD

record stream_config =
  cfg_rebind :: bool
  cfg_full_fill :: bool
  cfg_l2_mass :: fpv
  cfg_l2_min_k :: int
  cfg_pf_mode :: pf_mode

record window =
  win_base :: u64
  win_orig :: u64
  win_file_off :: u64
  win_rebound :: bool
  win_ti :: tensor_info

record stream =
  manifest :: "model_manifest option"
  cache :: slice_cache
  windows :: "string \<rightharpoonup> window"
  cur_step :: int
  heap :: "tptr \<Rightarrow> ggml_tensor"
  use_odirect :: bool
  direct_f :: direct_file
  fill_calls :: u64
  dense_bind :: "string \<rightharpoonup> u64"
  expert_mmap :: "u64 \<rightharpoonup> u64"
  dense_names :: "string set"
  dense_anon_bytes :: u64
  anon_scan :: bool
  l2_mass :: fpv
  l2_min_k :: int
  l2_dropped :: nat
  pfmode :: pf_mode
  pi_q :: "(string \<times> int list) list"
  pi_stop :: bool
  step_ids :: "nat \<Rightarrow> string \<rightharpoonup> int list"
  id_slot :: nat
  looked :: "string set"
  looked_step :: int
  fresh_kept :: "int \<rightharpoonup> int list"
  rebind :: bool
  full_fill :: bool

text \<open>The globals before \<^verbatim>\<open>stream_init\<close>; the memory and the graph are the process's.\<close>

definition new_stream :: "memory \<Rightarrow> (tptr \<Rightarrow> ggml_tensor) \<Rightarrow> stream" where
  "new_stream m hp =
     \<lparr>manifest = None, cache = new_slice_cache 0 m, windows = Map.empty, cur_step = -1, heap = hp, use_odirect = False,
      direct_f = new_direct_file, fill_calls = 0, dense_bind = Map.empty, expert_mmap = Map.empty, dense_names = {},
      dense_anon_bytes = 0, anon_scan = False, l2_mass = Fin 0, l2_min_k = 2, l2_dropped = 0, pfmode = PF_OFF, pi_q = [],
      pi_stop = False, step_ids = (\<lambda>_. Map.empty), id_slot = 0, looked = {}, looked_step = -1, fresh_kept = Map.empty,
      rebind = True, full_fill = False\<rparr>"

record host =
  h_env :: "string \<Rightarrow> string option"
  h_nbytes :: "ggml_tensor \<Rightarrow> u64"
  h_page :: u64
  h_memalign :: "stream \<Rightarrow> u64 \<Rightarrow> u64 option"
  h_mmap :: "stream \<Rightarrow> u64 \<Rightarrow> u64 option"
  h_file :: "u64 \<Rightarrow> u8 option"
  h_enum :: "int list \<Rightarrow> int list"
  h_lanes :: "miss list \<Rightarrow> miss list"
  h_stale :: "nat \<Rightarrow> nat \<Rightarrow> u32"

abbreviation smem :: "stream \<Rightarrow> memory" where
  "smem s \<equiv> mem (cache s)"

definition set_mem :: "stream \<Rightarrow> memory \<Rightarrow> stream" where
  "set_mem s m = s\<lparr>cache := (cache s)\<lparr>mem := m\<rparr>\<rparr>"

definition kLookaheadNodes :: nat where
  "kLookaheadNodes = 6"

section \<open>Dense residency\<close>

definition page_size :: "host \<Rightarrow> u64" where
  "page_size h = (if h_page h \<noteq> 0 then h_page h else 4096)"

text \<open>\<^verbatim>\<open>MADV_DONTNEED\<close>: a page of a file mapping reads as the file afterwards, an anonymous one as zero.\<close>

definition dontneed :: "host \<Rightarrow> memory \<Rightarrow> u64 \<Rightarrow> u64 \<Rightarrow> memory" where
  "dontneed h m addr len =
     (\<lambda>a. if a - addr < len then (case h_file h a of Some b \<Rightarrow> b | None \<Rightarrow> 0) else m a)"

definition drop_resident_pages :: "host \<Rightarrow> memory \<Rightarrow> u64 \<Rightarrow> u64 \<Rightarrow> memory" where
  "drop_resident_pages h m p nbytes =
     (if p = 0 \<or> nbytes = 0 then m
      else let psz = page_size h; start = p AND NOT (psz - 1); e = (p + nbytes + psz - 1) AND NOT (psz - 1)
           in if e \<le> start then m else dontneed h m start (e - start))"

definition dense_drop_mmap_enabled :: "host \<Rightarrow> bool" where
  "dense_drop_mmap_enabled h = (case h_env h ''DENSE_DROP_MMAP'' of None \<Rightarrow> True | Some e \<Rightarrow> e \<noteq> ''0'')"

definition try_bind_dense :: "host \<Rightarrow> stream \<Rightarrow> tptr \<Rightarrow> stream" where
  "try_bind_dense h s p =
     (let t = heap s p; nm = t_name t; bytes = h_nbytes h t in
      if t_data t = 0 \<or> t_type t = TYPE_I32 then s
      else if nm \<notin> dense_names s \<or> dense_bind s nm \<noteq> None then s
      else if bytes = 0 \<or> bytes > 2147483648 then s
      else case h_memalign h s bytes of
             None \<Rightarrow> s
           | Some buf \<Rightarrow>
               (let orig = t_data t;
                    s = set_mem s (memcpy (smem s) buf orig bytes);
                    s = s\<lparr>heap := (heap s)(p := t\<lparr>t_data := buf\<rparr>), dense_bind := (dense_bind s)(nm \<mapsto> buf),
                          dense_anon_bytes := dense_anon_bytes s + bytes\<rparr>
                in if dense_drop_mmap_enabled h then set_mem s (drop_resident_pages h (smem s) orig bytes) else s))"

definition try_record_expert_mmap :: "host \<Rightarrow> stream \<Rightarrow> tptr \<Rightarrow> stream" where
  "try_record_expert_mmap h s p =
     (let t = heap s p; nm = t_name t; bytes = h_nbytes h t in
      if t_data t = 0 \<or> t_type t = TYPE_I32 then s
      else if nm \<in> dense_names s \<or> \<not> str_contains nm ''_exps'' then s
      else if bytes = 0 then s
      else case expert_mmap s (t_data t) of
             Some old \<Rightarrow> if old < bytes then s\<lparr>expert_mmap := (expert_mmap s)(t_data t \<mapsto> bytes)\<rparr> else s
           | None \<Rightarrow> s\<lparr>expert_mmap := (expert_mmap s)(t_data t \<mapsto> bytes)\<rparr>)"

fun scan_srcs :: "host \<Rightarrow> stream \<Rightarrow> tptr list \<Rightarrow> stream" where
  "scan_srcs h s [] = s"
| "scan_srcs h s (p # ps) = scan_srcs h (try_bind_dense h (try_record_expert_mmap h s p) p) ps"

definition scan_dense_srcs :: "host \<Rightarrow> stream \<Rightarrow> tptr \<Rightarrow> stream" where
  "scan_dense_srcs h s t = scan_srcs h s (t_src (heap s t))"

section \<open>Routing\<close>

definition read_ids_strided :: "memory \<Rightarrow> ggml_tensor \<Rightarrow> int list" where
  "read_ids_strided m ids =
     concat (map (\<lambda>i1. map (\<lambda>i0. sint (load32 m (t_data ids + of_nat i1 * nb1 ids + of_nat i0 * nb0 ids)))
       [0 ..< nat (ne0 ids)]) [0 ..< nat (ne1 ids)])"

definition kinds :: "string list" where
  "kinds = [''ffn_gate_exps'', ''ffn_up_exps'', ''ffn_down_exps'']"

text \<open>\<^verbatim>\<open>snprintf(buf, n, "blk.%d.%s.weight", L, kind)\<close> for \<open>L \<ge> 0\<close>; the buffers are longer than any such name.\<close>

definition expert_name :: "nat \<Rightarrow> string \<Rightarrow> string" where
  "expert_name L kind = ''blk.'' @ dec L @ ''.'' @ kind @ ''.weight''"

definition node_rank :: "string \<Rightarrow> int" where
  "node_rank name =
     (let L = parse_layer_index name;
          kind = (if str_contains name ''ffn_gate_exps'' then 0 else if str_contains name ''ffn_up_exps'' then 1 else 2)
      in if L \<ge> 0 then to_i32 (L * 3 + kind) else -1)"

definition rank_name :: "nat \<Rightarrow> string" where
  "rank_name rank = expert_name (rank div 3) (kinds ! (rank mod 3))"

fun lookahead_loop :: "(string \<rightharpoonup> int list) \<Rightarrow> stream \<Rightarrow> nat list \<Rightarrow> stream" where
  "lookahead_loop prev s [] = s"
| "lookahead_loop prev s (r # rs) =
     (let rn = rank_name r in
      case prev rn of
        None \<Rightarrow> lookahead_loop prev s rs
      | Some ids \<Rightarrow>
          if ids = [] \<or> rn \<in> looked s then lookahead_loop prev s rs
          else lookahead_loop prev (s\<lparr>looked := insert rn (looked s), pi_q := pi_q s @ [(rn, ids)]\<rparr>) rs)"

definition lookahead_push :: "stream \<Rightarrow> string \<Rightarrow> stream" where
  "lookahead_push s name =
     (if pfmode s \<noteq> PF_LOOKAHEAD then s
      else let rank = node_rank name in
        if rank < 0 then s
        else let s = (if looked_step s \<noteq> cur_step s then s\<lparr>looked_step := cur_step s, looked := {}\<rparr> else s)
             in lookahead_loop (step_ids s (id_slot s XOR 1)) s (map (\<lambda>a. nat rank + a) [1 ..< kLookaheadNodes + 1]))"

section \<open>Windows\<close>

definition layer_limit :: "host \<Rightarrow> int" where
  "layer_limit h = (case h_env h ''LAYER_LIMIT'' of Some v \<Rightarrow> atoi v | None \<Rightarrow> -1)"

definition new_window :: "stream \<Rightarrow> tensor_info \<Rightarrow> u64 \<Rightarrow> u64 \<Rightarrow> window" where
  "new_window s ti base wdata =
     \<lparr>win_base = base, win_orig = (if use_odirect s then 0 else wdata), win_file_off = abs_offset ti,
      win_rebound = False, win_ti = ti\<rparr>"

text \<open>A new anonymous mapping reads as zero. The window is stored before the full-fill mode marks its local copy as rebound.\<close>

definition ensure_window :: "host \<Rightarrow> stream \<Rightarrow> string \<Rightarrow> tptr \<Rightarrow> stream option" where
  "ensure_window h s name w =
     (if \<not> rebind s then Some s
      else if layer_limit h \<ge> 0 \<and> (parse_layer_index name < 0 \<or> parse_layer_index name \<ge> layer_limit h) then Some s
      else if windows s name \<noteq> None then Some s
      else case manifest s of
             None \<Rightarrow> None
           | Some mf \<Rightarrow>
               (case find (\<lambda>ti. ti_name ti = name \<and> ti_kind ti = ROUTED_EXPERT) (mf_tensors mf) of
                  None \<Rightarrow> Some s
                | Some ti \<Rightarrow>
                    (case h_mmap h s (bytes_total ti) of
                       None \<Rightarrow> None
                     | Some base \<Rightarrow>
                         (let win = new_window s ti base (t_data (heap s w));
                              s = set_mem s (madvise_dontneed (smem s) base (bytes_total ti));
                              s = s\<lparr>windows := (windows s)(name \<mapsto> win)\<rparr>
                          in if \<not> full_fill s then Some s
                             else if win_orig win = 0 then None
                             else Some (set_mem (s\<lparr>heap := (heap s)(w := (heap s w)\<lparr>t_data := base\<rparr>)\<rparr>)
                                          (memcpy (smem s) base (win_orig win) (bytes_total ti)))))))"

section \<open>The callback\<close>

definition is_router :: "ggml_tensor \<Rightarrow> bool" where
  "is_router t \<longleftrightarrow> t_op t = OP_ARGSORT \<and> starts_with (t_name t) ''ffn_moe_argsort''"

definition can_gate :: "stream \<Rightarrow> ggml_tensor \<Rightarrow> int \<Rightarrow> bool" where
  "can_gate s t n_used \<longleftrightarrow> fpos (l2_mass s) \<and> \<not> anon_scan s
     \<and> (case t_src t of [] \<Rightarrow> False
         | p # _ \<Rightarrow> t_type (heap s p) = TYPE_F32 \<and> t_data (heap s p) \<noteq> 0
             \<and> ne0 (heap s p) = ne0 t \<and> ne1 (heap s p) = ne1 t)
     \<and> n_used > 0 \<and> n_used \<le> ne0 t"

definition column_ids :: "memory \<Rightarrow> ggml_tensor \<Rightarrow> nat \<Rightarrow> int \<Rightarrow> int list" where
  "column_ids m t col n = map (\<lambda>r. sint (load32 m (t_data t + of_nat r * nb0 t + of_nat col * nb1 t))) [0 ..< nat n]"

text \<open>The kept ids and the number of dropped slices, column by column; \<open>probs\<close> is the first source.\<close>

fun gate_columns :: "host \<Rightarrow> stream \<Rightarrow> ggml_tensor \<Rightarrow> ggml_tensor \<Rightarrow> int \<Rightarrow> nat list \<Rightarrow> int list \<times> nat" where
  "gate_columns h s t probs n_used [] = ([], 0)"
| "gate_columns h s t probs n_used (col # cols) =
     (let p = (\<lambda>r. partial_double (h_stale h col r) (smem s) (t_data probs + of_nat r * nb0 probs + of_nat col * nb1 probs));
          (ids, dropped) = gate_columns h s t probs n_used cols
      in case gate_column p (nat n_used) (l2_mass s) (l2_min_k s) of
           None \<Rightarrow> (ids, dropped)
         | Some m \<Rightarrow> (column_ids (smem s) t col m @ ids, nat (n_used - m) + dropped))"

definition kept_ids :: "host \<Rightarrow> stream \<Rightarrow> ggml_tensor \<Rightarrow> int list \<times> nat" where
  "kept_ids h s t =
     (let n_used = (case manifest s of Some mf \<Rightarrow> n_experts_used mf | None \<Rightarrow> 0); cols = [0 ..< nat (ne1 t)]
      in if \<not> can_gate s t n_used then (concat (map (\<lambda>col. column_ids (smem s) t col n_used) cols), 0)
         else gate_columns h s t (heap s (hd (t_src t))) n_used cols)"

definition fill_window :: "host \<Rightarrow> stream \<Rightarrow> string \<Rightarrow> window \<Rightarrow> int list \<Rightarrow> stream option" where
  "fill_window h s name win ids =
     (case touch_batch_at (h_enum h) (h_lanes h) (cache s) name ids (win_base win) (win_file_off win)
             (bytes_per_expert (win_ti win)) of
        None \<Rightarrow> None
      | Some (n, c) \<Rightarrow> Some (s\<lparr>cache := c, fill_calls := fill_calls s + 1\<rparr>))"

fun serve_layer :: "host \<Rightarrow> stream \<Rightarrow> nat \<Rightarrow> int list \<Rightarrow> string list \<Rightarrow> stream option" where
  "serve_layer h s L kept [] = Some s"
| "serve_layer h s L kept (k # ks) =
     (case windows s (expert_name L k) of
        None \<Rightarrow> serve_layer h s L kept ks
      | Some win \<Rightarrow>
          if win_base win = 0 \<or> kept = [] then serve_layer h s L kept ks
          else (case fill_window h s (expert_name L k) win kept of
                  None \<Rightarrow> None
                | Some s \<Rightarrow> serve_layer h s L kept ks))"

definition router_done :: "host \<Rightarrow> stream \<Rightarrow> ggml_tensor \<Rightarrow> (bool \<times> stream) option" where
  "router_done h s t =
     (let L = parse_layer_index (t_name t) in
      if L < 0 \<or> t_data t = 0 \<or> t_type t \<noteq> TYPE_I32 then Some (True, s)
      else if read_ids_strided (smem s) t = [] then Some (True, s)
      else let (kept, dropped) = kept_ids h s t;
               s = s\<lparr>fresh_kept := (fresh_kept s)(L \<mapsto> kept), l2_dropped := l2_dropped s + dropped\<rparr>
           in if \<not> rebind s \<or> \<not> use_odirect s \<or> full_fill s then Some (True, s)
              else map_option (\<lambda>s. (True, s)) (serve_layer h s (nat L) kept kinds))"

definition routed_name :: "stream \<Rightarrow> string \<Rightarrow> bool option" where
  "routed_name s nm =
     (if windows s nm \<noteq> None then Some True
      else case manifest s of
             None \<Rightarrow> None
           | Some mf \<Rightarrow> Some (case find (\<lambda>ti. ti_name ti = nm) (mf_tensors mf) of
                                 Some ti \<Rightarrow> ti_kind ti = ROUTED_EXPERT | None \<Rightarrow> False))"

fun discover :: "stream \<Rightarrow> tptr list \<Rightarrow> tptr option \<Rightarrow> tptr option \<Rightarrow> (tptr option \<times> tptr option) option" where
  "discover s [] w ids = Some (w, ids)"
| "discover s (p # ps) w ids =
     (if ids = None \<and> t_type (heap s p) = TYPE_I32 then discover s ps w (Some p)
      else if w = None
      then (case routed_name s (t_name (heap s p)) of
              None \<Rightarrow> None
            | Some b \<Rightarrow> discover s ps (if b then Some p else None) ids)
      else discover s ps w ids)"

definition routing :: "stream \<Rightarrow> string \<Rightarrow> tptr \<Rightarrow> int list" where
  "routing s name ids =
     (case fresh_kept s (parse_layer_index name) of
        Some v \<Rightarrow> if v \<noteq> [] then v else read_ids_strided (smem s) (heap s ids)
      | None \<Rightarrow> read_ids_strided (smem s) (heap s ids))"

definition demand_fill :: "host \<Rightarrow> stream \<Rightarrow> string \<Rightarrow> window \<Rightarrow> int list \<Rightarrow> stream option" where
  "demand_fill h s name win v =
     (if full_fill s then Some s
      else if use_odirect s then fill_window h s name win v
      else case touch_batch (h_enum h) (cache s) name v (win_base win) (win_orig win) (bytes_per_expert (win_ti win)) of
             None \<Rightarrow> None
           | Some (n, c) \<Rightarrow> Some (s\<lparr>cache := c, fill_calls := fill_calls s + 1\<rparr>))"

definition record_ids :: "stream \<Rightarrow> string \<Rightarrow> int list \<Rightarrow> stream" where
  "record_ids s name v =
     (if pfmode s = PF_OFF then s
      else s\<lparr>step_ids := (step_ids s)(id_slot s := (step_ids s (id_slot s))(name \<mapsto> v))\<rparr>)"

definition repoint :: "stream \<Rightarrow> tptr \<Rightarrow> string \<Rightarrow> window \<Rightarrow> stream" where
  "repoint s w name win =
     (if \<not> win_rebound win \<and> t_data (heap s w) \<noteq> win_base win
      then s\<lparr>heap := (heap s)(w := (heap s w)\<lparr>t_data := win_base win\<rparr>),
             windows := (windows s)(name \<mapsto> win\<lparr>win_rebound := True\<rparr>)\<rparr>
      else s)"

definition serve_mmid :: "host \<Rightarrow> stream \<Rightarrow> tptr \<Rightarrow> tptr \<Rightarrow> (bool \<times> stream) option" where
  "serve_mmid h s w ids =
     (let name = t_name (heap s w) in
      case windows s name of
        None \<Rightarrow> Some (True, s)
      | Some win \<Rightarrow>
          if win_base win = 0 \<or> t_data (heap s w) = 0 then Some (True, s)
          else if \<not> use_odirect s \<and> win_orig win = 0 then Some (True, s)
          else let v = routing s name ids in
            if v = [] \<or> length v > 8192 then Some (True, s)
            else (case demand_fill h s name win v of
                    None \<Rightarrow> None
                  | Some s \<Rightarrow> Some (True, repoint (lookahead_push (record_ids s name v) name) w name win)))"

definition ask_mmid :: "host \<Rightarrow> stream \<Rightarrow> tptr \<Rightarrow> (bool \<times> stream) option" where
  "ask_mmid h s t =
     (case discover s (t_src (heap s t)) None None of
        None \<Rightarrow> None
      | Some (Some w, Some ids) \<Rightarrow>
          if t_data (heap s ids) = 0 then Some (True, s)
          else (case ensure_window h s (t_name (heap s w)) w of None \<Rightarrow> None | Some s \<Rightarrow> serve_mmid h s w ids)
      | Some _ \<Rightarrow> Some (True, s))"

definition stream_cb_eval :: "host \<Rightarrow> stream \<Rightarrow> tptr option \<Rightarrow> bool \<Rightarrow> (bool \<times> stream) option" where
  "stream_cb_eval h s tp ask =
     (case tp of
        None \<Rightarrow> Some (True, s)
      | Some t \<Rightarrow>
          if anon_scan s then Some (True, scan_dense_srcs h s t)
          else if is_router (heap s t) then (if ask then Some (True, s) else router_done h s (heap s t))
          else if t_op (heap s t) = OP_MUL_MAT_ID then (if ask then ask_mmid h s t else Some (True, s))
          else Some (\<not> ask, s))"

section \<open>The driver's interface\<close>

definition stream_init :: "stream \<Rightarrow> model_manifest \<Rightarrow> slice_cache \<Rightarrow> stream_config \<Rightarrow> stream" where
  "stream_init s mf c cfg =
     s\<lparr>manifest := Some mf, cache := c, rebind := cfg_rebind cfg, full_fill := cfg_full_fill cfg,
       l2_mass := cfg_l2_mass cfg, l2_min_k := cfg_l2_min_k cfg, pfmode := cfg_pf_mode cfg,
       dense_names := dense_names s \<union> ti_name ` set (filter (\<lambda>ti. ti_kind ti \<noteq> ROUTED_EXPERT) (mf_tensors mf))\<rparr>"

definition stream_open_fill_backend ::
  "(bool \<Rightarrow> errno + nat) \<Rightarrow> kernel \<Rightarrow> stream \<Rightarrow> (bool \<times> stream) option" where
  "stream_open_fill_backend sys_open kern s =
     (case manifest s of
        None \<Rightarrow> None
      | Some mf \<Rightarrow>
          if mf_io_alignment mf \<ge> 4096 \<and> all_slices_aligned mf = routed_expert_tensors mf
          then (let (ok, d) = open_read sys_open (direct_f s); s = s\<lparr>direct_f := d\<rparr>
                in if ok \<and> valid d
                   then Some (True, s\<lparr>use_odirect := True, cache := set_source (cache s) (direct_source kern d)\<rparr>)
                   else Some (False, s))
          else Some (False, s))"

definition stream_anon_scan_begin :: "stream \<Rightarrow> stream" where
  "stream_anon_scan_begin s = s\<lparr>anon_scan := True\<rparr>"

definition stream_anon_scan_end :: "stream \<Rightarrow> stream" where
  "stream_anon_scan_end s = s\<lparr>anon_scan := False\<rparr>"

text \<open>\<open>trim\<close> enumerates the trim list.\<close>

definition drop_spans :: "host \<Rightarrow> stream \<Rightarrow> (u64 \<times> u64) list \<Rightarrow> stream" where
  "drop_spans h s trim = set_mem s (foldl (\<lambda>m (p, b). drop_resident_pages h m p b) (smem s) trim)"

definition stream_anon_finalize :: "host \<Rightarrow> stream \<Rightarrow> (u64 \<times> u64) list \<Rightarrow> u64 \<times> stream" where
  "stream_anon_finalize h s trim =
     (if \<not> dense_drop_mmap_enabled h then (0, s) else (sum_list (map snd trim), drop_spans h s trim))"

definition stream_expert_mmap_trim :: "host \<Rightarrow> stream \<Rightarrow> (u64 \<times> u64) list \<Rightarrow> stream" where
  "stream_expert_mmap_trim h s trim =
     (if \<not> dense_drop_mmap_enabled h \<or> rebind s then s else drop_spans h s trim)"

text \<open>\<open>order\<close> enumerates the current slot of recorded routings.\<close>

definition stream_prefetch_kick_full :: "stream \<Rightarrow> string list \<Rightarrow> stream" where
  "stream_prefetch_kick_full s order =
     (if pfmode s \<noteq> PF_FULL then s
      else s\<lparr>pi_q := filter (\<lambda>(nm, ids). ids \<noteq> []) (map (\<lambda>nm. (nm, the (step_ids s (id_slot s) nm))) order)\<rparr>)"

definition stream_prefetch_stop :: "stream \<Rightarrow> stream" where
  "stream_prefetch_stop s = s\<lparr>pi_stop := True\<rparr>"

definition stream_set_step :: "stream \<Rightarrow> int \<Rightarrow> stream" where
  "stream_set_step s step = s\<lparr>cur_step := step\<rparr>"

definition stream_step_boundary :: "host \<Rightarrow> stream \<Rightarrow> (u64 \<times> u64) list \<Rightarrow> stream" where
  "stream_step_boundary h s trim =
     (let s = stream_expert_mmap_trim h s trim; slot = id_slot s XOR 1
      in s\<lparr>id_slot := slot, step_ids := (step_ids s)(slot := Map.empty), looked := {}, looked_step := -1\<rparr>)"

text \<open>
  One round of the worker thread: it waits while the queue is empty and no stop is requested (\<open>Waiting\<close>), returns on a stop with
  an empty queue, else takes the front item and speculates it if its window exists.
\<close>

datatype worker = Waiting | Returned | Round "stream option"

definition prefetch_item :: "host \<Rightarrow> stream \<Rightarrow> string \<times> int list \<Rightarrow> stream option" where
  "prefetch_item h s it =
     (case windows s (fst it) of
        None \<Rightarrow> Some s
      | Some win \<Rightarrow>
          if win_base win = 0 then Some s
          else map_option (\<lambda>c. s\<lparr>cache := c\<rparr>)
                 (prefetch_batch_at (h_enum h) (h_lanes h) (cache s) (fst it) (snd it) (win_base win) (win_file_off win)
                    (bytes_per_expert (win_ti win))))"

definition prefetch_worker :: "host \<Rightarrow> stream \<Rightarrow> worker" where
  "prefetch_worker h s =
     (case pi_q s of
        [] \<Rightarrow> if pi_stop s then Returned else Waiting
      | it # q \<Rightarrow> Round (prefetch_item h (s\<lparr>pi_q := q\<rparr>) it))"

section \<open>Names and ranks\<close>

lemma str_contains_skip:
  "list_all (\<lambda>c. c \<noteq> x) a \<Longrightarrow> str_contains (a @ s) (x # p) = str_contains s (x # p)"
  by (induction a) (auto simp: str_contains_def starts_with_def)

lemma digits_no_f: "list_all (\<lambda>c. c \<noteq> CHR ''f'') (dec n)"
proof (rule list.pred_mono_strong [OF is_digit_dec [of n]])
  fix c assume "is_digit c"
  then show "c \<noteq> CHR ''f''" by (auto simp: is_digit_def)
qed

lemma expert_name_contains:
  assumes "k \<in> {''ffn_gate_exps'', ''ffn_up_exps'', ''ffn_down_exps''}"
  shows "str_contains (expert_name L k) ''ffn_gate_exps'' \<longleftrightarrow> k = ''ffn_gate_exps''"
    "str_contains (expert_name L k) ''ffn_up_exps'' \<longleftrightarrow> k = ''ffn_up_exps''"
proof -
  have s: "str_contains (expert_name L k) (CHR ''f'' # p) = str_contains (k @ ''.weight'') (CHR ''f'' # p)" for p
    using str_contains_skip [of "CHR ''f''" "''blk.'' @ dec L @ ''.''"] digits_no_f [of L] by (simp add: expert_name_def)
  show "str_contains (expert_name L k) ''ffn_gate_exps'' \<longleftrightarrow> k = ''ffn_gate_exps''"
    "str_contains (expert_name L k) ''ffn_up_exps'' \<longleftrightarrow> k = ''ffn_up_exps''"
    unfolding s using assms by (auto simp: str_contains_def starts_with_def)
qed

lemma node_rank_expert_name:
  assumes "int L * 3 + 2 < 2147483648" "i < 3"
  shows "node_rank (expert_name L (kinds ! i)) = int L * 3 + int i"
proof -
  have "kinds ! i \<in> {''ffn_gate_exps'', ''ffn_up_exps'', ''ffn_down_exps''}"
    using assms(2) by (auto simp: kinds_def less_Suc_eq numeral_eq_Suc)
  note c = expert_name_contains [OF this, of L]
  have "parse_layer_index (expert_name L (kinds ! i)) = int L"
    using parse_layer_index_blk [of L "kinds ! i @ ''.weight''"] assms(1) by (simp add: expert_name_def)
  moreover have "i = 0 \<or> i = 1 \<or> i = 2" using assms(2) by auto
  ultimately show ?thesis
    unfolding node_rank_def Let_def c using assms(1) by (auto simp: kinds_def)
qed

text \<open>
  \<^verbatim>\<open>rank_name\<close> inverts \<^verbatim>\<open>node_rank\<close>: on every rank whose layer number fits the rank arithmetic, and on the name of every expert
  node of such a layer.
\<close>

theorem rank_round_trip:
  assumes "int L * 3 + 2 < 2147483648" "i < 3"
  shows "node_rank (rank_name (L * 3 + i)) = int (L * 3 + i)
    \<and> rank_name (nat (node_rank (expert_name L (kinds ! i)))) = expert_name L (kinds ! i)"
proof -
  have "(L * 3 + i) div 3 = L" "(L * 3 + i) mod 3 = i" using assms(2) by simp_all
  moreover have "nat (int L * 3 + int i) = L * 3 + i" by simp
  ultimately show ?thesis
    using node_rank_expert_name [OF assms] by (simp add: rank_name_def)
qed

theorem rank_round_trip_witness:
  "node_rank (rank_name (47 * 3 + 2)) = 143 \<and> rank_name (nat (node_rank (expert_name 47 (kinds ! 2)))) = expert_name 47 (kinds ! 2)"
  using rank_round_trip [of 47 2] by simp

section \<open>The router branch\<close>

lemma router_name_no_layer: "parse_layer_index (''ffn_moe_argsort-'' @ dec n) = -1"
proof -
  have "list_all (\<lambda>c. c \<noteq> CHR ''b'') (dec n)"
  proof (rule list.pred_mono_strong [OF is_digit_dec [of n]])
    fix c assume "is_digit c"
    then show "c \<noteq> CHR ''b''" by (auto simp: is_digit_def)
  qed
  then have "\<not> str_contains ((''ffn_moe_argsort-'' @ dec n) @ []) ''blk.''"
    using str_contains_skip [of "CHR ''b''" "''ffn_moe_argsort-'' @ dec n" "[]" "''lk.''"] by (simp add: str_contains_def)
  then show ?thesis by (simp add: parse_layer_index_def str_find_def str_contains_def)
qed

text \<open>
  The router harvest never happens: for a routing node named as llama.cpp names it, \<^verbatim>\<open>ffn_moe_argsort-<layer>\<close>, the callback looks for
  a layer of the form \<^verbatim>\<open>blk.<layer>.\<close> in the name, finds none and returns. So no mass filtering and no early fill takes place,
  whatever the configuration, and every expert matmul is served from the full routing tensor.
\<close>

theorem router_never_harvested:
  assumes "t_name (heap s t) = ''ffn_moe_argsort-'' @ dec n" "t_op (heap s t) = OP_ARGSORT" "\<not> anon_scan s"
  shows "stream_cb_eval h s (Some t) ask = Some (True, s)"
  using assms router_name_no_layer [of n] by (simp add: stream_cb_eval_def is_router_def router_done_def starts_with_def)

section \<open>Lookahead\<close>

definition fresh_looked :: "stream \<Rightarrow> string set" where
  "fresh_looked s = (if looked_step s \<noteq> cur_step s then {} else looked s)"

lemma lookahead_loop_spec:
  "\<exists>new. lookahead_loop prev s rs = s\<lparr>looked := looked s \<union> fst ` set new, pi_q := pi_q s @ new\<rparr>
     \<and> distinct (map fst new) \<and> fst ` set new \<inter> looked s = {} \<and> length new \<le> length rs
     \<and> (\<forall>(nm, ids) \<in> set new. prev nm = Some ids \<and> ids \<noteq> [] \<and> nm \<in> rank_name ` set rs)
     \<and> (\<forall>r \<in> set rs. prev (rank_name r) \<noteq> None \<and> prev (rank_name r) \<noteq> Some [] \<longrightarrow> rank_name r \<in> looked s \<union> fst ` set new)"
proof (induction rs arbitrary: s)
  case Nil
  then show ?case by (intro exI [of _ "[]"]) simp
next
  case (Cons r rs)
  let ?rn = "rank_name r"
  show ?case
  proof (cases "prev ?rn = None \<or> prev ?rn = Some [] \<or> ?rn \<in> looked s")
    case True
    then have "lookahead_loop prev s (r # rs) = lookahead_loop prev s rs" by (auto simp: Let_def split: option.splits)
    moreover obtain new where n: "lookahead_loop prev s rs = s\<lparr>looked := looked s \<union> fst ` set new, pi_q := pi_q s @ new\<rparr>"
      "distinct (map fst new)" "fst ` set new \<inter> looked s = {}" "length new \<le> length rs"
      "\<forall>(nm, ids) \<in> set new. prev nm = Some ids \<and> ids \<noteq> [] \<and> nm \<in> rank_name ` set rs"
      "\<forall>r \<in> set rs. prev (rank_name r) \<noteq> None \<and> prev (rank_name r) \<noteq> Some [] \<longrightarrow> rank_name r \<in> looked s \<union> fst ` set new"
      using Cons.IH [of s] by blast
    ultimately show ?thesis using True
      by (intro exI [of _ new] conjI) (simp_all del: lookahead_loop.simps, auto)
  next
    case False
    then obtain ids where ids: "prev ?rn = Some ids" "ids \<noteq> []" "?rn \<notin> looked s" by auto
    let ?s = "s\<lparr>looked := insert ?rn (looked s), pi_q := pi_q s @ [(?rn, ids)]\<rparr>"
    obtain new where n: "lookahead_loop prev ?s rs = ?s\<lparr>looked := looked ?s \<union> fst ` set new, pi_q := pi_q ?s @ new\<rparr>"
      "distinct (map fst new)" "fst ` set new \<inter> looked ?s = {}" "length new \<le> length rs"
      "\<forall>(nm, ids) \<in> set new. prev nm = Some ids \<and> ids \<noteq> [] \<and> nm \<in> rank_name ` set rs"
      "\<forall>r \<in> set rs. prev (rank_name r) \<noteq> None \<and> prev (rank_name r) \<noteq> Some [] \<longrightarrow> rank_name r \<in> looked ?s \<union> fst ` set new"
      using Cons.IH [of ?s] by blast
    have "lookahead_loop prev s (r # rs) = s\<lparr>looked := looked s \<union> fst ` set ((?rn, ids) # new), pi_q := pi_q s @ (?rn, ids) # new\<rparr>"
      using ids n(1) by (simp add: Let_def)
    moreover have "distinct (map fst ((?rn, ids) # new))" "fst ` set ((?rn, ids) # new) \<inter> looked s = {}"
      using n(2,3) ids(3) by auto
    ultimately show ?thesis using n(4,5,6) ids by (intro exI [of _ "(?rn, ids) # new"]) auto
  qed
qed

text \<open>
  Lookahead speculation: after a node of rank \<open>r\<close> the queue grows by at most six items, each one the routing the previous step
  recorded for a node of rank \<open>r + 1\<close> to \<open>r + 6\<close>, never the same node twice and never one already speculated in this step; each of
  the six nodes with a recorded routing is speculated by then. Nothing else changes.
\<close>

theorem lookahead_push_spec:
  assumes "pfmode s = PF_LOOKAHEAD" "node_rank name = int r"
  shows "\<exists>new. lookahead_push s name = s\<lparr>looked_step := cur_step s, looked := fresh_looked s \<union> fst ` set new, pi_q := pi_q s @ new\<rparr>
     \<and> length new \<le> kLookaheadNodes \<and> distinct (map fst new) \<and> fst ` set new \<inter> fresh_looked s = {}
     \<and> (\<forall>(nm, ids) \<in> set new. step_ids s (id_slot s XOR 1) nm = Some ids \<and> ids \<noteq> [] \<and> (\<exists>a \<in> {1 .. 6}. nm = rank_name (r + a)))
     \<and> (\<forall>a \<in> {1 .. 6}. \<forall>ids. step_ids s (id_slot s XOR 1) (rank_name (r + a)) = Some ids \<and> ids \<noteq> []
           \<longrightarrow> rank_name (r + a) \<in> fresh_looked s \<union> fst ` set new)"
proof -
  let ?s = "if looked_step s \<noteq> cur_step s then s\<lparr>looked_step := cur_step s, looked := {}\<rparr> else s"
  let ?rs = "map (\<lambda>a. r + a) [1 ..< kLookaheadNodes + 1]" and ?prev = "step_ids s (id_slot s XOR 1)"
  have p: "lookahead_push s name = lookahead_loop ?prev ?s ?rs"
    using assms by (simp add: lookahead_push_def Let_def)
  have l: "looked ?s = fresh_looked s" "looked_step ?s = cur_step s" "pi_q ?s = pi_q s"
    and u: "\<And>L Q. ?s\<lparr>looked := L, pi_q := Q\<rparr> = s\<lparr>looked_step := cur_step s, looked := L, pi_q := Q\<rparr>"
    by (simp_all add: fresh_looked_def)
  have rs: "set ?rs = (\<lambda>a. r + a) ` {1 .. 6}" "length ?rs = 6"
    by (auto simp: kLookaheadNodes_def)
  from lookahead_loop_spec [of ?prev ?s ?rs] obtain new where
    n: "lookahead_loop ?prev ?s ?rs = ?s\<lparr>looked := fresh_looked s \<union> fst ` set new, pi_q := pi_q s @ new\<rparr>"
      "distinct (map fst new)" "fst ` set new \<inter> fresh_looked s = {}" "length new \<le> 6"
      "\<forall>(nm, ids) \<in> set new. ?prev nm = Some ids \<and> ids \<noteq> [] \<and> nm \<in> rank_name ` set ?rs"
      "\<forall>r \<in> set ?rs. ?prev (rank_name r) \<noteq> None \<and> ?prev (rank_name r) \<noteq> Some [] \<longrightarrow> rank_name r \<in> fresh_looked s \<union> fst ` set new"
    unfolding l rs(2) by blast
  show ?thesis
  proof (intro exI [of _ new] conjI)
    show "\<forall>(nm, ids) \<in> set new. ?prev nm = Some ids \<and> ids \<noteq> [] \<and> (\<exists>a \<in> {1 .. 6}. nm = rank_name (r + a))"
      using n(5) unfolding rs(1) by fast
    show "\<forall>a \<in> {1 .. 6}. \<forall>ids. ?prev (rank_name (r + a)) = Some ids \<and> ids \<noteq> [] \<longrightarrow> rank_name (r + a) \<in> fresh_looked s \<union> fst ` set new"
      using n(6) unfolding rs(1) by force
  qed (use n p u in \<open>simp_all add: kLookaheadNodes_def\<close>)
qed

text \<open>A node with one weight, eight bytes at address 16, for the concrete runs below.\<close>

definition demo_graph :: "tptr \<Rightarrow> ggml_tensor" where
  "demo_graph q = \<lparr>t_name = (if q = 0 then ''node_0'' else ''output.weight''), t_op = OP_OTHER, t_type = TYPE_OTHER,
     t_data = 16, ne0 = 8, ne1 = 1, nb0 = 1, nb1 = 8, t_src = (if q = 0 then [1] else [])\<rparr>"

theorem lookahead_push_spec_witness:
  "\<exists>new. lookahead_push ((new_stream (\<lambda>_. 0) demo_graph)\<lparr>pfmode := PF_LOOKAHEAD,
        step_ids := (\<lambda>i. if i = 1 then [rank_name 4 \<mapsto> [3, 7], rank_name 9 \<mapsto> [1]] else Map.empty)\<rparr>) (rank_name (1 * 3 + 0))
      = (new_stream (\<lambda>_. 0) demo_graph)\<lparr>pfmode := PF_LOOKAHEAD,
        step_ids := (\<lambda>i. if i = 1 then [rank_name 4 \<mapsto> [3, 7], rank_name 9 \<mapsto> [1]] else Map.empty),
        looked_step := -1, looked := fst ` set new, pi_q := new\<rparr>
     \<and> length new \<le> kLookaheadNodes \<and> distinct (map fst new)"
proof -
  let ?s = "(new_stream (\<lambda>_. 0) demo_graph)\<lparr>pfmode := PF_LOOKAHEAD,
        step_ids := (\<lambda>i. if i = 1 then [rank_name 4 \<mapsto> [3, 7], rank_name 9 \<mapsto> [1]] else Map.empty)\<rparr>"
  have r: "node_rank (rank_name (1 * 3 + 0)) = int 3" using node_rank_expert_name [of 1 0] by (simp add: rank_name_def)
  have f: "fresh_looked ?s = {}" "cur_step ?s = -1" "pi_q ?s = []" by (simp_all add: new_stream_def fresh_looked_def)
  from lookahead_push_spec [OF _ r, of ?s] f show ?thesis by auto
qed

theorem router_never_harvested_witness:
  "\<forall>h. stream_cb_eval h ((new_stream (\<lambda>_. 0) (\<lambda>_. \<lparr>t_name = ''ffn_moe_argsort-'' @ dec 12, t_op = OP_ARGSORT, t_type = TYPE_I32, t_data = 4096,
        ne0 = 4, ne1 = 1, nb0 = 4, nb1 = 16, t_src = []\<rparr>))\<lparr>l2_mass := Fin 1\<rparr>) (Some 0) False
   = Some (True, (new_stream (\<lambda>_. 0) (\<lambda>_. \<lparr>t_name = ''ffn_moe_argsort-'' @ dec 12, t_op = OP_ARGSORT, t_type = TYPE_I32, t_data = 4096,
        ne0 = 4, ne1 = 1, nb0 = 4, nb1 = 16, t_src = []\<rparr>))\<lparr>l2_mass := Fin 1\<rparr>)"
  by (intro allI router_never_harvested [where n = 12]) (simp_all add: new_stream_def)

section \<open>Dense binding\<close>

text \<open>
  What binding relies on: the size of a tensor does not depend on where its data is, fresh memory is not part of a file mapping or of
  a tensor, and the unbound dense weights lie in unmodified file mappings up to page boundaries.
\<close>

definition page_range :: "host \<Rightarrow> u64 \<Rightarrow> u64 \<Rightarrow> u64 \<Rightarrow> bool" where
  "page_range h p n a \<longleftrightarrow> (let psz = page_size h; start = p AND NOT (psz - 1); e = (p + n + psz - 1) AND NOT (psz - 1)
     in start < e \<and> a - start < e - start)"

definition alloc_fresh :: "host \<Rightarrow> bool" where
  "alloc_fresh h \<longleftrightarrow>
     (\<forall>t b. h_nbytes h (t\<lparr>t_data := b\<rparr>) = h_nbytes h t)
     \<and> (\<forall>s n buf. h_memalign h s n = Some buf \<longrightarrow>
          (\<forall>a. in_range buf n a \<longrightarrow> h_file h a = None \<and> (\<forall>q. \<not> in_range (t_data (heap s q)) (h_nbytes h (heap s q)) a)))"

definition bindable :: "stream \<Rightarrow> tptr \<Rightarrow> bool" where
  "bindable s q \<longleftrightarrow> t_data (heap s q) \<noteq> 0 \<and> t_type (heap s q) \<noteq> TYPE_I32 \<and> t_name (heap s q) \<in> dense_names s
     \<and> dense_bind s (t_name (heap s q)) = None"

definition file_backed :: "host \<Rightarrow> stream \<Rightarrow> bool" where
  "file_backed h s \<longleftrightarrow> (\<forall>a b. h_file h a = Some b \<longrightarrow> smem s a = b)
     \<and> (\<forall>q a. bindable s q \<and> page_range h (t_data (heap s q)) (h_nbytes h (heap s q)) a \<longrightarrow> h_file h a \<noteq> None)"

definition tensor_byte :: "stream \<Rightarrow> tptr \<Rightarrow> u64 \<Rightarrow> u8" where
  "tensor_byte s q i = smem s (t_data (heap s q) + i)"

definition same_bytes :: "host \<Rightarrow> stream \<Rightarrow> stream \<Rightarrow> bool" where
  "same_bytes h s s' \<longleftrightarrow> (\<forall>q. h_nbytes h (heap s' q) = h_nbytes h (heap s q)
     \<and> (\<forall>i. i < h_nbytes h (heap s q) \<longrightarrow> tensor_byte s' q i = tensor_byte s q i))"

lemma set_mem_simps [simp]:
  "smem (set_mem s m) = m" "heap (set_mem s m) = heap s" "dense_bind (set_mem s m) = dense_bind s"
  "dense_names (set_mem s m) = dense_names s" "windows (set_mem s m) = windows s" "manifest (set_mem s m) = manifest s"
  "rebind (set_mem s m) = rebind s" "use_odirect (set_mem s m) = use_odirect s" "full_fill (set_mem s m) = full_fill s"
  "anon_scan (set_mem s m) = anon_scan s" "cache (set_mem s m) = (cache s)\<lparr>mem := m\<rparr>"
  by (simp_all add: set_mem_def)

lemma drop_file_backed:
  assumes "\<And>a b. h_file h a = Some b \<Longrightarrow> m a = b" "\<And>a. page_range h p n a \<Longrightarrow> h_file h a \<noteq> None"
  shows "drop_resident_pages h m p n = m"
proof -
  have "dontneed h m st (e - st) = m"
    if "st = p AND NOT (page_size h - 1)" "e = (p + n + page_size h - 1) AND NOT (page_size h - 1)" "\<not> e \<le> st" for st e
    using assms that by (fastforce simp: dontneed_def page_range_def Let_def fun_eq_iff)
  then show ?thesis by (simp add: drop_resident_pages_def Let_def)
qed

lemma try_bind_dense_safe:
  assumes "alloc_fresh h" "file_backed h s"
  shows "same_bytes h s (try_bind_dense h s p) \<and> file_backed h (try_bind_dense h s p)"
proof (cases "try_bind_dense h s p = s")
  case True
  then show ?thesis using assms(2) by (simp add: same_bytes_def)
next
  case False
  let ?t = "heap s p" and ?n = "h_nbytes h (heap s p)"
  obtain buf where buf: "h_memalign h s ?n = Some buf" and bd: "bindable s p"
    using False by (auto simp: try_bind_dense_def bindable_def Let_def split: if_splits option.splits)
  have sz: "?n \<noteq> 0" "\<not> ?n > 2147483648" using False by (auto simp: try_bind_dense_def Let_def)
  define m where "m = memcpy (smem s) buf (t_data ?t) ?n"
  have nb: "h_nbytes h (t\<lparr>t_data := b\<rparr>) = h_nbytes h t" for t b using assms(1) by (simp add: alloc_fresh_def)
  have fr: "h_file h a = None" "\<not> in_range (t_data (heap s q)) (h_nbytes h (heap s q)) a" if "in_range buf ?n a" for a q
    using assms(1) buf that by (auto simp: alloc_fresh_def)
  have out: "m a = smem s a" if "\<not> in_range buf ?n a" for a using that by (simp add: m_def memcpy_def in_range_def)
  have fm: "m a = b" if "h_file h a = Some b" for a b
    using that assms(2) fr(1) [of a] out [of a] by (auto simp: file_backed_def)
  have "page_range h (t_data ?t) ?n a \<Longrightarrow> h_file h a \<noteq> None" for a
    using assms(2) bd by (auto simp: file_backed_def)
  with fm have "drop_resident_pages h m (t_data ?t) ?n = m" by (rule drop_file_backed)
  then have s': "heap (try_bind_dense h s p) = (heap s)(p := ?t\<lparr>t_data := buf\<rparr>)" "smem (try_bind_dense h s p) = m"
    "dense_bind (try_bind_dense h s p) = (dense_bind s)(t_name ?t \<mapsto> buf)" "dense_names (try_bind_dense h s p) = dense_names s"
    using buf bd sz by (simp_all add: try_bind_dense_def Let_def m_def bindable_def)
  have "tensor_byte (try_bind_dense h s p) q i = tensor_byte s q i" if i: "i < h_nbytes h (heap s q)" for q i
  proof (cases "q = p")
    case True
    then show ?thesis using i by (simp add: tensor_byte_def s' m_def memcpy_def)
  next
    case False
    have "in_range (t_data (heap s q)) (h_nbytes h (heap s q)) (t_data (heap s q) + i)" using i by (simp add: in_range_def)
    then have "\<not> in_range buf ?n (t_data (heap s q) + i)" using fr(2) by blast
    with out False show ?thesis by (simp add: tensor_byte_def s')
  qed
  moreover have "file_backed h (try_bind_dense h s p)"
    using fm assms(2) nb unfolding file_backed_def by (auto simp: bindable_def s' split: if_splits)
  ultimately show ?thesis by (simp add: same_bytes_def s' nb)
qed

lemma same_bytes_trans: "same_bytes h a b \<Longrightarrow> same_bytes h b c \<Longrightarrow> same_bytes h a c"
  by (simp add: same_bytes_def)

lemma record_expert_frame:
  "smem (try_record_expert_mmap h s p) = smem s \<and> heap (try_record_expert_mmap h s p) = heap s
   \<and> dense_bind (try_record_expert_mmap h s p) = dense_bind s \<and> dense_names (try_record_expert_mmap h s p) = dense_names s"
  by (simp add: try_record_expert_mmap_def Let_def split: option.split)

lemma record_expert_safe:
  "same_bytes h s (try_record_expert_mmap h s p) \<and> (file_backed h s \<longrightarrow> file_backed h (try_record_expert_mmap h s p))"
  using record_expert_frame [of h s p] by (simp add: same_bytes_def file_backed_def bindable_def tensor_byte_def)

lemma scan_srcs_safe: "alloc_fresh h \<Longrightarrow> file_backed h s \<Longrightarrow> same_bytes h s (scan_srcs h s ps)"
proof (induction ps arbitrary: s)
  case Nil
  then show ?case by (simp add: same_bytes_def)
next
  case (Cons p ps)
  let ?r = "try_record_expert_mmap h s p"
  have r: "same_bytes h s ?r" "file_backed h ?r" using record_expert_safe Cons.prems(2) by blast+
  note b = try_bind_dense_safe [OF Cons.prems(1) r(2), of p]
  from Cons.IH [OF Cons.prems(1)] b r(1) show ?case by (auto intro: same_bytes_trans)
qed

text \<open>
  Claim C27. Dense binding is transparent: a scan pass over the sources of a node may move dense weights into anonymous memory and
  drop the pages they came from, but every tensor of the graph, moved or not, reads the same bytes as before.
\<close>

theorem anon_scan_transparent:
  assumes "alloc_fresh h" "file_backed h s" "anon_scan s"
  shows "\<exists>s'. stream_cb_eval h s (Some t) ask = Some (True, s')
    \<and> (\<forall>q i. i < h_nbytes h (heap s q) \<longrightarrow> tensor_byte s' q i = tensor_byte s q i)"
  using scan_srcs_safe [OF assms(1,2), of "t_src (heap s t)"] assms(3)
  by (simp add: stream_cb_eval_def scan_dense_srcs_def same_bytes_def)

text \<open>A host with one page of file mapping and one allocation at address 8192.\<close>

definition demo_host :: host where
  "demo_host = \<lparr>h_env = (\<lambda>_. None), h_nbytes = (\<lambda>_. 8), h_page = 4096,
     h_memalign = (\<lambda>s n. if n = 8 \<and> heap s = demo_graph then Some 8192 else None), h_mmap = (\<lambda>s n. None),
     h_file = (\<lambda>a. if a < 4096 then Some 5 else None), h_enum = remdups, h_lanes = id, h_stale = (\<lambda>_ _. 0)\<rparr>"

definition demo_scan :: stream where
  "demo_scan = (new_stream (\<lambda>a. if a < 4096 then 5 else 0) demo_graph)\<lparr>anon_scan := True, dense_names := {''output.weight''}\<rparr>"

lemma word_range_nat: "a - lo < n \<Longrightarrow> unat lo + unat n \<le> 2 ^ 64 \<Longrightarrow> unat lo \<le> unat a \<and> unat a < unat lo + unat (n :: u64)"
proof -
  assume "a - lo < n" and w: "unat lo + unat n \<le> 2 ^ 64"
  then have "unat (a - lo) < unat n" by (simp add: word_less_nat_alt)
  moreover from this w have "unat (lo + (a - lo)) = unat lo + unat (a - lo)" by (intro unat_add_nowrap) simp
  ultimately show ?thesis by simp
qed

theorem anon_scan_transparent_witness:
  "\<exists>s'. stream_cb_eval demo_host demo_scan (Some 0) True = Some (True, s')
     \<and> t_data (heap s' 1) = 8192 \<and> tensor_byte s' 1 3 = tensor_byte demo_scan 1 3"
proof -
  have sc: "heap demo_scan = demo_graph" "anon_scan demo_scan" by (simp_all add: demo_scan_def new_stream_def)
  have far: "\<not> in_range 16 8 a" if "in_range 8192 8 a" for a :: u64
    using that word_range_nat [of a 8192 8] word_range_nat [of a 16 8] by (auto simp: in_range_def)
  have nof: "\<not> a < 4096" if "in_range 8192 8 a" for a :: u64
    using that word_range_nat [of a 8192 8] by (auto simp: in_range_def word_less_nat_alt)
  have "alloc_fresh demo_host"
    using far nof by (auto simp: alloc_fresh_def demo_host_def demo_graph_def)
  moreover have "file_backed demo_host demo_scan"
    by (auto simp: file_backed_def demo_host_def demo_scan_def new_stream_def new_slice_cache_def demo_graph_def page_range_def page_size_def
        split: if_splits)
  ultimately obtain s' where s': "stream_cb_eval demo_host demo_scan (Some 0) True = Some (True, s')"
    "tensor_byte s' 1 3 = tensor_byte demo_scan 1 3"
    using anon_scan_transparent [of demo_host demo_scan 0 True] sc(2) by (auto simp: demo_host_def)
  have "t_data (heap (scan_dense_srcs demo_host demo_scan 0) 1) = 8192"
    by (simp add: scan_dense_srcs_def sc demo_graph_def [of 0])
       (simp add: try_bind_dense_def try_record_expert_mmap_def demo_scan_def new_stream_def demo_host_def demo_graph_def Let_def
          str_contains_def starts_with_def)
  then have "t_data (heap s' 1) = 8192" using s'(1) sc(2) by (simp add: stream_cb_eval_def)
  with s' show ?thesis by blast
qed

end
