(* ===== verification/Slice_Prefetch.thy ===== *)
theory Slice_Prefetch
  imports Slice_Integrity
begin

text \<open>
  \<^verbatim>\<open>SliceCache::prefetch_batch_at\<close> when no demand operation runs between its phases: it always returns, and resident slices
  keep the bytes of the file. (With a demand touch in between they need not, see \<open>Slice_Integrity\<close>.)
\<close>

lemma make_room_pending:
  "make_room_locked c b = Some c' \<Longrightarrow> separated lay K \<Longrightarrow> integrity file lay K c \<Longrightarrow> k \<in> K \<Longrightarrow> cmap c k = None \<Longrightarrow>
   holds_file file (lay k) (mem c) \<Longrightarrow> holds_file file (lay k) (mem c')"
proof (induction c b rule: make_room_locked.induct)
  case (1 c b)
  show ?case
  proof (cases "used_bytes c + b > hard_cap_bytes c \<and> lru_list c \<noteq> [] \<and> choose_victim c \<noteq> None")
    case False
    then show ?thesis using "1.prems" by (auto simp: make_room_locked.simps [of c b] choose_victim_def split: if_splits option.splits)
  next
    case True
    then obtain v e where v: "choose_victim c = Some v" "cmap c v = Some e"
      using "1.prems"(1) by (auto simp: make_room_locked.simps [of c b] split: if_splits option.splits)
    let ?c = "evict_key c v e"
    have r: "make_room_locked ?c b = Some c'" using "1.prems"(1) v True by (simp add: make_room_locked.simps [of c b])
    have e: "v \<in> K" "slice_addr e = sl_dest (lay v)" "entry_bytes e = sl_bytes (lay v)"
      using "1.prems"(3) v(2) unfolding integrity_def by blast+
    have "v \<noteq> k" using v(2) "1.prems"(5) by auto
    have "holds_file file (lay k) (mem ?c)"
    proof (rule holds_file_other [OF "1.prems"(6)])
      fix a assume "in_slice (lay k) a"
      then have "\<not> in_pages (lay v) a" using "1.prems"(2,4) e(1) \<open>v \<noteq> k\<close> unfolding separated_def by blast
      then show "mem ?c a = mem c a" using e(2,3) by (simp add: evict_key_def madvise_dontneed_def in_pages_def in_range_def)
    qed
    moreover have "cmap ?c k = None" using "1.prems"(5) by (simp add: evict_key_def)
    ultimately show ?thesis
      using "1.IH" [OF _ v(1,2) r "1.prems"(2) evict_integrity [OF "1.prems"(2,3) v(2)] "1.prems"(4)] True by simp
  qed
qed

text \<open>The reads write nothing but their slices, and when all succeed each slice holds the file.\<close>

lemma prefetch_read_hold:
  "prefetch_read rd b xs m = (ok, m') \<Longrightarrow> separated lay K \<Longrightarrow> faithful file rd \<Longrightarrow> distinct (map miss_k xs) \<Longrightarrow>
   list_all (miss_in lay K b) xs \<Longrightarrow> S \<subseteq> K \<Longrightarrow> S \<inter> miss_k ` set xs = {} \<Longrightarrow> \<forall>k \<in> S. holds_file file (lay k) m \<Longrightarrow>
   (\<forall>k \<in> S. holds_file file (lay k) m') \<and> (ok \<longrightarrow> (\<forall>k \<in> miss_k ` set xs. holds_file file (lay k) m'))"
proof (induction xs arbitrary: m S ok)
  case Nil
  then show ?case by simp
next
  case (Cons x xs)
  let ?k = "miss_k x"
  have lay: "?k \<in> K" "lay ?k = \<lparr>sl_dest = miss_dest x, sl_off = miss_off x, sl_bytes = b\<rparr>"
    using Cons.prems(5) by (simp_all add: miss_in_def)
  obtain ok1 m1 ok2 where rd: "rd m (miss_dest x) (miss_off x) b = (ok1, m1)" and f: "prefetch_read rd b xs m1 = (ok2, m')"
    and ok: "ok = (ok1 \<and> ok2)"
    using Cons.prems(1) by (auto simp: Let_def split: prod.splits)
  note ff = faithful_fill [OF Cons.prems(3) rd]
  have keep: "holds_file file (lay k) m1" if "k \<in> S" for k
  proof (rule holds_file_other)
    show "holds_file file (lay k) m" using that Cons.prems(8) by simp
    fix a assume a: "in_slice (lay k) a"
    have "k \<noteq> ?k" "k \<in> K" using that Cons.prems(6,7) by auto
    with Cons.prems(2) lay(1) a have "\<not> in_slice (lay ?k) a" by (auto simp: separated_def)
    with ff lay(2) show "m1 a = m a" by (simp add: in_slice_def)
  qed
  show ?case
  proof (cases ok1)
    case True
    then have "holds_file file (lay ?k) m1" using ff lay(2) by (simp add: holds_file_def in_slice_def)
    with keep Cons.IH [OF f Cons.prems(2,3), of "insert ?k S"] Cons.prems(4-7) lay(1) ok True show ?thesis by auto
  next
    case False
    with keep Cons.IH [OF f Cons.prems(2,3), of S] Cons.prems(4-7) ok show ?thesis by auto
  qed
qed

lemma commit_serving:
  assumes "cache_inv c" "cmap c k = None" "unat (hard_cap_bytes c) < 4611686018427387904"
    "used_bytes c = 0 \<or> unat (used_bytes c) + unat b \<le> unat (hard_cap_bytes c)" "unat b < 9223372036854775808"
  shows "serving_inv (commit_locked c k t e d b)"
proof -
  have "unat (used_bytes c) + unat b < 2 ^ 64" using assms(3-5) by auto
  note r = commit_refines [OF assms(1,2) this, of t e d]
  then have "unat (used_bytes (commit_locked c k t e d b)) = lru_bytes (alpha (commit_locked c k t e d b))"
    "unat (used_bytes c) = lru_bytes (alpha c)" using assms(1) by (simp_all add: cache_inv_def)
  with r assms(3,4) show ?thesis by (auto simp: serving_inv_nat split: if_splits)
qed

lemma prefetch_commit_spec:
  "serving_inv c \<Longrightarrow> unat b < 9223372036854775808 \<Longrightarrow> separated lay K \<Longrightarrow> integrity file lay K c \<Longrightarrow>
   distinct (map miss_k xs) \<Longrightarrow> list_all (miss_in lay K b) xs \<Longrightarrow>
   \<forall>x \<in> set xs. cmap c (miss_k x) = None \<and> holds_file file (lay (miss_k x)) (mem c) \<Longrightarrow>
   \<exists>c'. prefetch_commit c t b xs = Some c' \<and> serving_inv c' \<and> integrity file lay K c' \<and> src_read c' = src_read c
     \<and> hard_cap_bytes c' = hard_cap_bytes c"
proof (induction xs arbitrary: c)
  case Nil
  then show ?case by simp
next
  case (Cons x xs)
  let ?k = "miss_k x"
  have x: "cmap c ?k = None" "holds_file file (lay ?k) (mem c)" "?k \<in> K"
    "lay ?k = \<lparr>sl_dest = miss_dest x, sl_off = miss_off x, sl_bytes = b\<rparr>"
    using Cons.prems(6,7) by (simp_all add: miss_in_def)
  have room: "room_inv c b" using Cons.prems(1,2) by (simp add: room_inv_def serving_inv_nat)
  obtain c1 where c1: "make_room_locked c b = Some c1" using make_room_refines [of c b] room by (auto simp: room_inv_def)
  note r = make_room_room [OF room c1]
  have i1: "integrity file lay K c1" using make_room_integrity [OF c1 Cons.prems(3,4)] .
  have pend: "cmap c1 (miss_k y) = None \<and> holds_file file (lay (miss_k y)) (mem c1)" if "y \<in> set (x # xs)" for y
  proof -
    have y: "miss_k y \<in> K" "cmap c (miss_k y) = None" "holds_file file (lay (miss_k y)) (mem c)"
      using that Cons.prems(6,7) unfolding list_all_iff miss_in_def by blast+
    with make_room_absent [OF c1 y(2)] make_room_pending [OF c1 Cons.prems(3,4) y] show ?thesis by blast
  qed
  let ?c = "commit_locked c1 ?k t (miss_expert x) (miss_dest x) b"
  let ?d = "?c\<lparr>stats := (stats ?c)\<lparr>prefetched := prefetched (stats ?c) + 1\<rparr>\<rparr>"
  have "serving_inv ?c"
    using commit_serving [of c1 ?k b t "miss_expert x" "miss_dest x"] r pend [of x] Cons.prems(1,2)
    by (simp add: room_inv_def serving_inv_nat)
  moreover have "integrity file lay K ?c"
    using commit_integrity [OF i1 _ x(3) _ x(4)] pend [of x] by simp
  moreover have "\<forall>y \<in> set xs. cmap ?d (miss_k y) = None \<and> holds_file file (lay (miss_k y)) (mem ?d)"
    using pend Cons.prems(5) by (auto simp: commit_cmap rev_image_eqI)
  ultimately have "\<exists>c'. prefetch_commit ?d t b xs = Some c' \<and> serving_inv c' \<and> integrity file lay K c' \<and> src_read c' = src_read ?d
     \<and> hard_cap_bytes c' = hard_cap_bytes ?d"
    using Cons.IH [of ?d] Cons.prems(2,3,5,6) by simp
  then show ?case using x(1) c1 r by (simp add: Let_def)
qed

lemma prefetch_batch_at_spec:
  assumes "separated lay K" "faithful file rd" "src_read c = Some rd" "integrity file lay K c" "serving_inv c"
    "enumerates (enum experts) experts" "list_all int32 experts" "unat bytes < 9223372036854775808"
    "\<And>ms. mset (lanes ms) = mset ms" "batch_layout lay K t dest_base src_base bytes experts"
  shows "\<exists>c'. prefetch_batch_at enum lanes c t experts dest_base src_base bytes = Some c' \<and> serving_inv c'
     \<and> integrity file lay K c' \<and> src_read c' = Some rd \<and> hard_cap_bytes c' = hard_cap_bytes c"
proof -
  let ?ab = "prefetch_absent enum c t experts"
  let ?jobs = "prefetch_jobs t ?ab dest_base src_base bytes"
  obtain ok m where rd: "prefetch_read rd bytes (lanes ?jobs) (mem c) = (ok, m)" by fastforce
  have ab: "set ?ab \<subseteq> set experts" "distinct ?ab" "\<forall>e \<in> set ?ab. cmap c (key t e) = None"
    using assms(6) by (auto simp: prefetch_absent_def enumerates_def)
  have ks: "map miss_k ?jobs = map (key t) ?ab" by (simp add: prefetch_jobs_def)
  have dj: "distinct (map miss_k ?jobs)"
    unfolding ks using ab assms(7) by (intro key_distinct) (auto simp: list_all_iff)
  have mi: "list_all (miss_in lay K bytes) ?jobs"
    using assms(10) ab(1) by (auto simp: list_all_iff prefetch_jobs_def miss_in_def batch_layout_def)
  have none: "\<forall>x \<in> set ?jobs. cmap c (miss_k x) = None" using ab(3) by (auto simp: prefetch_jobs_def)
  have ln: "set (lanes ?jobs) = set ?jobs" using assms(9) [of ?jobs] by (metis set_mset_mset)
  have dl: "distinct (map miss_k (lanes ?jobs))" using dj assms(9) [of ?jobs] by (metis mset_map mset_eq_imp_distinct_iff)
  have dk: "dom (cmap c) \<subseteq> K" "\<forall>k \<in> dom (cmap c). holds_file file (lay k) (mem c)"
    using assms(4) unfolding integrity_def by blast+
  have "dom (cmap c) \<inter> miss_k ` set (lanes ?jobs) = {}" unfolding ln using none by (auto simp: dom_def)
  moreover have "list_all (miss_in lay K bytes) (lanes ?jobs)" using mi ln by (simp add: list_all_iff)
  ultimately have h: "\<forall>k \<in> dom (cmap c). holds_file file (lay k) m"
    "ok \<longrightarrow> (\<forall>k \<in> miss_k ` set ?jobs. holds_file file (lay k) m)"
    using prefetch_read_hold [OF rd assms(1,2) dl _ dk(1) _ dk(2)] ln by auto
  then have im: "integrity file lay K (c\<lparr>mem := m\<rparr>)" using assms(4) unfolding integrity_def by (auto simp: dom_def)
  show ?thesis
  proof (cases "?ab = [] \<or> \<not> ok")
    case True
    then show ?thesis using rd im assms(3,4,5) by (auto simp: prefetch_batch_at_def Let_def)
  next
    case False
    have "\<forall>x \<in> set ?jobs. cmap (c\<lparr>mem := m\<rparr>) (miss_k x) = None \<and> holds_file file (lay (miss_k x)) (mem (c\<lparr>mem := m\<rparr>))"
      using none h(2) False by simp
    with prefetch_commit_spec [of "c\<lparr>mem := m\<rparr>", OF _ assms(8,1) im dj mi] assms(5)
    have "\<exists>c'. prefetch_commit (c\<lparr>mem := m\<rparr>) t bytes ?jobs = Some c' \<and> serving_inv c' \<and> integrity file lay K c'
        \<and> src_read c' = src_read c \<and> hard_cap_bytes c' = hard_cap_bytes c" by simp
    then show ?thesis using rd False assms(3) by (simp add: prefetch_batch_at_def Let_def)
  qed
qed

end
