(* ===== verification/Stream_Inv.thy ===== *)
theory Stream_Inv
  imports Stream_Cb Slice_Prefetch
begin

unbundle bit_operations_syntax

text \<open>
  Serving expert matmuls in O_DIRECT mode: the invariant that ties windows, manifest, graph and cache together, established at
  start-up and kept by every callback, generation-loop hook and prefetch round.
\<close>

section \<open>What serving relies on\<close>

definition routed_ti :: "model_manifest \<Rightarrow> string \<Rightarrow> tensor_info option" where
  "routed_ti mf nm = find (\<lambda>ti. ti_name ti = nm \<and> ti_kind ti = ROUTED_EXPERT) (mf_tensors mf)"

text \<open>Whole pages per slice, and as many slices as fit the tensor's span, which is less than the largest file offset.\<close>

definition sliced :: "tensor_info \<Rightarrow> bool" where
  "sliced ti \<longleftrightarrow> bytes_per_expert ti AND 4095 = 0 \<and> abs_offset ti AND 4095 = 0 \<and> 0 < expert_count ti \<and> expert_count ti < 2147483648
     \<and> uint (bytes_per_expert ti) * expert_count ti \<le> uint (bytes_total ti) \<and> uint (bytes_total ti) < 2 ^ 63"

text \<open>The 64-bit slice keys of the model do not collide.\<close>

definition no_collisions :: "model_manifest \<Rightarrow> bool" where
  "no_collisions mf \<longleftrightarrow> (\<forall>nm nm' ti ti' e e'. routed_ti mf nm = Some ti \<longrightarrow> routed_ti mf nm' = Some ti' \<longrightarrow>
     0 \<le> e \<and> e < expert_count ti \<longrightarrow> 0 \<le> e' \<and> e' < expert_count ti' \<longrightarrow> key nm e = key nm' e' \<longrightarrow> nm = nm' \<and> e = e')"

definition manifest_ok :: "model_manifest \<Rightarrow> bool" where
  "manifest_ok mf \<longleftrightarrow> (\<forall>nm ti. routed_ti mf nm = Some ti \<longrightarrow> sliced ti) \<and> no_collisions mf"

text \<open>
  \<^verbatim>\<open>mmap\<close> returns a page-aligned region inside the address space that no window uses; enumeration and lane order are
  orders.
\<close>

definition in_window :: "window \<Rightarrow> u64 \<Rightarrow> bool" where
  "in_window win a \<longleftrightarrow> in_range (win_base win) (bytes_total (win_ti win)) a"

definition host_ok :: "host \<Rightarrow> bool" where
  "host_ok h \<longleftrightarrow> (\<forall>xs. enumerates (h_enum h xs) xs) \<and> (\<forall>ms. mset (h_lanes h ms) = mset ms)
     \<and> (\<forall>s n base. h_mmap h s n = Some base \<longrightarrow>
          base \<noteq> 0 \<and> base AND 4095 = 0 \<and> unat base + unat n \<le> 2 ^ 64
          \<and> (\<forall>nm win a. windows s nm = Some win \<longrightarrow> in_range base n a \<longrightarrow> \<not> in_window win a))"

section \<open>The invariant\<close>

definition slice_of :: "window \<Rightarrow> int \<Rightarrow> slice" where
  "slice_of win e = \<lparr>sl_dest = win_base win + word_of_int e * bytes_per_expert (win_ti win),
     sl_off = win_file_off win + word_of_int e * bytes_per_expert (win_ti win), sl_bytes = bytes_per_expert (win_ti win)\<rparr>"

definition expert_of :: "window \<Rightarrow> int \<Rightarrow> bool" where
  "expert_of win e \<longleftrightarrow> 0 \<le> e \<and> e < expert_count (win_ti win)"

definition wkeys :: "(string \<rightharpoonup> window) \<Rightarrow> u64 set" where
  "wkeys W = {k. \<exists>nm e. k = key nm e \<and> (\<exists>win. W nm = Some win \<and> expert_of win e)}"

definition window_ok :: "model_manifest \<Rightarrow> string \<Rightarrow> window \<Rightarrow> bool" where
  "window_ok mf nm win \<longleftrightarrow> routed_ti mf nm = Some (win_ti win) \<and> win_base win \<noteq> 0 \<and> win_base win AND 4095 = 0
     \<and> unat (win_base win) + unat (bytes_total (win_ti win)) \<le> 2 ^ 64 \<and> win_file_off win = abs_offset (win_ti win)"

definition windows_ok :: "model_manifest \<Rightarrow> (string \<rightharpoonup> window) \<Rightarrow> bool" where
  "windows_ok mf W \<longleftrightarrow> (\<forall>nm win. W nm = Some win \<longrightarrow> window_ok mf nm win)
     \<and> (\<forall>nm nm' win win' a. W nm = Some win \<longrightarrow> W nm' = Some win' \<longrightarrow> nm \<noteq> nm' \<longrightarrow> in_window win a \<longrightarrow> \<not> in_window win' a)"

definition lays :: "layout \<Rightarrow> (string \<rightharpoonup> window) \<Rightarrow> bool" where
  "lays lay W \<longleftrightarrow> (\<forall>nm win e. W nm = Some win \<longrightarrow> expert_of win e \<longrightarrow> lay (key nm e) = slice_of win e)"

text \<open>One tensor per routed weight, and a rebound weight points at its window.\<close>

definition graph_ok :: "model_manifest \<Rightarrow> stream \<Rightarrow> bool" where
  "graph_ok mf s \<longleftrightarrow>
     (\<forall>p q. t_name (heap s p) = t_name (heap s q) \<longrightarrow> routed_ti mf (t_name (heap s p)) \<noteq> None \<longrightarrow> p = q)
     \<and> (\<forall>p win. windows s (t_name (heap s p)) = Some win \<longrightarrow> win_rebound win \<longrightarrow> t_data (heap s p) = win_base win)"

definition cache_ok :: "(u64 \<Rightarrow> u8) \<Rightarrow> stream \<Rightarrow> bool" where
  "cache_ok file s \<longleftrightarrow> (\<exists>rd. src_read (cache s) = Some rd \<and> faithful file rd) \<and> serving_inv (cache s)
     \<and> (\<exists>lay. lays lay (windows s) \<and> integrity file lay (wkeys (windows s)) (cache s))"

definition serving :: "stream \<Rightarrow> bool" where
  "serving s \<longleftrightarrow> rebind s \<and> use_odirect s \<and> \<not> full_fill s \<and> \<not> anon_scan s"

definition stream_inv :: "(u64 \<Rightarrow> u8) \<Rightarrow> model_manifest \<Rightarrow> stream \<Rightarrow> bool" where
  "stream_inv file mf s \<longleftrightarrow> manifest s = Some mf \<and> serving s \<and> windows_ok mf (windows s) \<and> graph_ok mf s \<and> cache_ok file s"

section \<open>Slices of a window\<close>

lemma word_of_expert:
  assumes "sliced ti" "0 \<le> e" "e < expert_count ti"
  shows "unat (word_of_int e * bytes_per_expert ti) = nat e * unat (bytes_per_expert ti)"
    "nat e * unat (bytes_per_expert ti) + unat (bytes_per_expert ti) \<le> unat (bytes_total ti)"
proof -
  let ?b = "bytes_per_expert ti"
  have "(e + 1) * uint ?b \<le> expert_count ti * uint ?b" using assms(3) by (intro mult_right_mono) auto
  also have "\<dots> \<le> uint (bytes_total ti)" using assms(1) by (simp add: sliced_def mult.commute)
  finally have "int (nat e * unat ?b + unat ?b) \<le> int (unat (bytes_total ti))"
    using assms(2) by (simp add: algebra_simps)
  then show le: "nat e * unat ?b + unat ?b \<le> unat (bytes_total ti)" by linarith
  have e: "unat (word_of_int e :: u64) = nat e"
    using assms by (simp add: unat_eq_nat_uint uint_word_of_int sliced_def)
  have "nat e * unat ?b < 18446744073709551616" using le unat_lt64 [of "bytes_total ti"] by linarith
  then show "unat (word_of_int e * ?b) = nat e * unat ?b" using e by (simp add: unat_word_ariths)
qed

lemma range_offset:
  assumes "in_range (base + x) n a" "unat x + unat n \<le> 2 ^ 64"
  shows "unat x \<le> unat (a - base) \<and> unat (a - base) < unat x + unat (n :: u64)"
proof -
  have "a - base - x < n" using assms(1) by (simp add: in_range_def diff_diff_eq)
  from word_range_nat [OF this assms(2)] show ?thesis .
qed

lemma slice_in_window:
  assumes "sliced (win_ti win)" "expert_of win e" "in_slice (slice_of win e) a"
  shows "in_window win a" "unat (a - win_base win) div unat (bytes_per_expert (win_ti win)) = nat e"
proof -
  let ?b = "bytes_per_expert (win_ti win)"
  note w = word_of_expert [OF assms(1), of e]
  have lt: "nat e * unat ?b + unat ?b \<le> 18446744073709551616"
    using w(2) assms(2) less_imp_le [OF unat_lt64 [of "bytes_total (win_ti win)"]] unfolding expert_of_def by (meson le_trans)
  have r: "nat e * unat ?b \<le> unat (a - win_base win) \<and> unat (a - win_base win) < nat e * unat ?b + unat ?b"
    using range_offset [of "win_base win" "word_of_int e * ?b" ?b a] w assms(2,3) lt
    by (simp add: expert_of_def in_slice_def slice_of_def)
  then show "in_window win a"
    using w(2) assms(2) by (simp add: in_window_def in_range_def word_less_nat_alt expert_of_def)
  from r have "unat ?b \<noteq> 0" by linarith
  with r show "unat (a - win_base win) div unat ?b = nat e"
    by (metis add.commute div_nat_eqI mult.commute mult_Suc_right)
qed

lemma page_dvd: "(x :: u64) AND 4095 = 0 \<longleftrightarrow> 4096 dvd unat x"
proof -
  have "x AND 4095 = take_bit 12 x" by (simp add: take_bit_eq_mask mask_eq_exp_minus_1)
  then have "unat (x AND 4095) = unat x mod 4096" by (simp add: take_bit_eq_mod unat_mod)
  then show ?thesis by (metis dvd_eq_mod_eq_0 unat_eq_0)
qed

lemma page_mul: "(b :: u64) AND 4095 = 0 \<Longrightarrow> (x * b) AND 4095 = 0"
  by (simp add: page_dvd unat_word_ariths dvd_mod)

lemma page_add: "(a :: u64) AND 4095 = 0 \<Longrightarrow> b AND 4095 = 0 \<Longrightarrow> (a + b) AND 4095 = 0"
  by (simp add: page_dvd unat_word_ariths dvd_mod)

lemma slice_aligned: "sliced (win_ti win) \<Longrightarrow> win_base win AND 4095 = 0 \<Longrightarrow> aligned (slice_of win e)"
  by (simp add: aligned_def slice_of_def sliced_def page_add page_mul)

text \<open>Windows give a separated layout.\<close>

lemma wkeysE:
  assumes "k \<in> wkeys W"
  obtains nm win e where "k = key nm e" "W nm = Some win" "expert_of win e"
  using assms by (auto simp: wkeys_def)

lemma window_sliced:
  "manifest_ok mf \<Longrightarrow> windows_ok mf W \<Longrightarrow> W nm = Some win \<Longrightarrow> sliced (win_ti win) \<and> window_ok mf nm win"
  unfolding manifest_ok_def windows_ok_def window_ok_def by blast

lemma windows_separated:
  assumes "manifest_ok mf" "windows_ok mf W" "lays lay W"
  shows "separated lay (wkeys W)"
proof (rule aligned_separated)
  have sl: "sliced (win_ti win)" "win_base win AND 4095 = 0" if "W nm = Some win" for nm win
    using window_sliced [OF assms(1,2) that] by (simp_all add: window_ok_def)
  have la: "lay (key nm e) = slice_of win e" if "W nm = Some win" "expert_of win e" for nm win e
    using assms(3) that by (simp add: lays_def)
  show "\<forall>k \<in> wkeys W. aligned (lay k)"
    using la sl slice_aligned by (auto simp: wkeys_def)
  show "disjoint_slices lay (wkeys W)"
    unfolding disjoint_slices_def
  proof (intro ballI impI allI notI)
    fix k k' a assume k: "k \<in> wkeys W" "k' \<in> wkeys W" "k \<noteq> k'" and a: "in_slice (lay k) a" "in_slice (lay k') a"
    obtain nm win e where x: "k = key nm e" "W nm = Some win" "expert_of win e" using k(1) by (rule wkeysE)
    obtain nm' win' e' where y: "k' = key nm' e'" "W nm' = Some win'" "expert_of win' e'" using k(2) by (rule wkeysE)
    note p = slice_in_window [OF sl(1) [OF x(2)] x(3), of a] and q = slice_in_window [OF sl(1) [OF y(2)] y(3), of a]
    have i: "in_slice (slice_of win e) a" "in_slice (slice_of win' e') a" using a x y la by simp_all
    show False
    proof (cases "nm = nm'")
      case True
      then have "nat e = nat e'" using p(2) q(2) i x(2) y(2) by simp
      then have "e = e'" using x(3) y(3) by (simp add: expert_of_def eq_nat_nat_iff)
      then show False using x(1) y(1) True k(3) by simp
    next
      case False
      then show False using p(1) q(1) i x(2) y(2) assms(2) unfolding windows_ok_def by blast
    qed
  qed
qed

section \<open>Filling a window\<close>

definition in_experts :: "window \<Rightarrow> int list \<Rightarrow> bool" where
  "in_experts win v \<longleftrightarrow> list_all (expert_of win) v"

definition fits_cap :: "host \<Rightarrow> stream \<Rightarrow> window \<Rightarrow> int list \<Rightarrow> bool" where
  "fits_cap h s win v \<longleftrightarrow>
     int (length (h_enum h v)) * uint (bytes_per_expert (win_ti win)) \<le> uint (hard_cap_bytes (cache s))"

definition served :: "(u64 \<Rightarrow> u8) \<Rightarrow> stream \<Rightarrow> string \<Rightarrow> window \<Rightarrow> int \<Rightarrow> bool" where
  "served file s nm win e \<longleftrightarrow> resident (cache s) nm e \<and> holds_file file (slice_of win e) (smem s)"

lemma served_cache: "cache s' = cache s \<Longrightarrow> served file s' = served file s"
  by (simp add: served_def fun_eq_iff)

lemma fill_window_spec:
  assumes "host_ok h" "manifest_ok mf" "stream_inv file mf s" "windows s nm = Some win" "in_experts win v" "fits_cap h s win v"
    "fill_window h s nm win v = Some s'"
  shows "(\<exists>c k. s' = s\<lparr>cache := c, fill_calls := k\<rparr>) \<and> cache_ok file s' \<and> list_all (served file s' nm win) v"
proof -
  let ?b = "bytes_per_expert (win_ti win)" and ?K = "wkeys (windows s)"
  obtain n c where t: "touch_batch_at (h_enum h) (h_lanes h) (cache s) nm v (win_base win) (win_file_off win) ?b = Some (n, c)"
    and s': "s' = s\<lparr>cache := c, fill_calls := fill_calls s + 1\<rparr>"
    using assms(7) by (auto simp: fill_window_def split: option.splits)
  have w: "windows_ok mf (windows s)" and co: "cache_ok file s" using assms(3) by (simp_all add: stream_inv_def)
  obtain rd lay where rd: "src_read (cache s) = Some rd" "faithful file rd" and si: "serving_inv (cache s)"
    and lay: "lays lay (windows s)" "integrity file lay ?K (cache s)"
    using co by (auto simp: cache_ok_def)
  have sep: "separated lay ?K" using windows_separated [OF assms(2) w lay(1)] .
  have en: "enumerates (h_enum h v) v" and ln: "\<And>ms. mset (h_lanes h ms) = mset ms" using assms(1) by (simp_all add: host_ok_def)
  have "sliced (win_ti win)" using window_sliced [OF assms(2) w assms(4)] by simp
  then have i32: "list_all int32 v" using assms(5)
    by (auto simp: in_experts_def list_all_iff expert_of_def int32_def sliced_def)
  have le: "key nm e \<in> ?K \<and> lay (key nm e) = slice_of win e" if "e \<in> set v" for e
    using that assms(4,5) lay(1) by (auto simp: in_experts_def list_all_iff wkeys_def lays_def)
  then have bl: "batch_layout lay ?K nm (win_base win) (win_file_off win) ?b v"
    by (simp add: batch_layout_def list_all_iff slice_of_def)
  have un: "uniform (cache s) nm ?b v"
    using le lay(2) by (auto simp: uniform_def list_all_iff integrity_def slice_of_def split: option.splits)
  note fit = assms(6) [unfolded fits_cap_def]
  note r = touch_batch_at_serves [OF si en i32 fit un t] and i = touch_batch_at_serving_inv [OF si en i32 fit un t]
    and g = touch_batch_at_holds [OF sep rd(2,1) lay(2) si en i32 fit ln bl t]
  have "cache_ok file s'" using g i rd(2) lay(1) s' by (auto simp: cache_ok_def)
  moreover have "served file s' nm win e" if ev: "e \<in> set v" for e
  proof -
    obtain x where x: "cmap c (key nm e) = Some x" using r ev by (auto simp: list_all_iff resident_def)
    with g have "holds_file file (lay (key nm e)) (mem c)" unfolding integrity_def by blast
    with x le [OF ev] s' show ?thesis by (simp add: served_def resident_def)
  qed
  ultimately show ?thesis using s' by (auto simp: list_all_iff)
qed

section \<open>Creating a window\<close>

text \<open>The part of the state the invariant speaks of.\<close>

definition core :: "stream \<Rightarrow> model_manifest option \<times> slice_cache \<times> (string \<rightharpoonup> window) \<times> (tptr \<Rightarrow> ggml_tensor) \<times> bool \<times> bool \<times> bool \<times> bool" where
  "core s = (manifest s, cache s, windows s, heap s, rebind s, use_odirect s, full_fill s, anon_scan s)"

lemma stream_inv_core: "core s' = core s \<Longrightarrow> stream_inv file mf s' = stream_inv file mf s"
  by (simp add: core_def stream_inv_def serving_def graph_ok_def cache_ok_def)

text \<open>The layout with the slices of a new window.\<close>

definition extend_layout :: "layout \<Rightarrow> string \<Rightarrow> window \<Rightarrow> layout" where
  "extend_layout lay nm win k =
     (if k \<in> key nm ` Collect (expert_of win) then slice_of win (inv_into (Collect (expert_of win)) (key nm) k) else lay k)"

lemma extend_layout_new:
  "inj_on (key nm) (Collect (expert_of win)) \<Longrightarrow> expert_of win e \<Longrightarrow> extend_layout lay nm win (key nm e) = slice_of win e"
  by (simp add: extend_layout_def)

lemma new_window_cache_ok:
  assumes mo: "manifest_ok mf" and w: "windows_ok mf W" and none: "W nm = None" and rt: "routed_ti mf nm = Some (win_ti win)"
    and lay: "lays lay W" and int: "integrity file lay (wkeys W) c"
    and out: "\<And>nm' win' a. W nm' = Some win' \<Longrightarrow> in_window win' a \<Longrightarrow> m a = mem c a"
  shows "\<exists>lay. lays lay (W(nm \<mapsto> win)) \<and> integrity file lay (wkeys (W(nm \<mapsto> win))) (c\<lparr>mem := m\<rparr>)"
proof (intro exI conjI)
  let ?lay = "extend_layout lay nm win" and ?W = "W(nm \<mapsto> win)"
  have nc: "no_collisions mf" using mo by (simp add: manifest_ok_def)
  have inj: "inj_on (key nm) (Collect (expert_of win))"
    using nc rt by (auto simp: inj_on_def no_collisions_def expert_of_def)
  have old: "?lay (key nm' e) = lay (key nm' e)" if "W nm' = Some win'" "expert_of win' e" for nm' win' e
  proof -
    have "routed_ti mf nm' = Some (win_ti win')" using window_sliced [OF mo w that(1)] by (simp add: window_ok_def)
    with nc rt that none have "key nm' e \<noteq> key nm e'" if "expert_of win e'" for e'
      using that unfolding no_collisions_def expert_of_def by (metis option.distinct(1))
    then show ?thesis by (auto simp: extend_layout_def)
  qed
  show "lays ?lay ?W"
    using lay old extend_layout_new [OF inj] by (auto simp: lays_def split: if_splits)
  have "k \<in> wkeys ?W \<and> slice_addr x = sl_dest (?lay k) \<and> entry_bytes x = sl_bytes (?lay k) \<and> holds_file file (?lay k) m"
    if x: "cmap c k = Some x" for k x
  proof -
    from int x have k: "k \<in> wkeys W" "slice_addr x = sl_dest (lay k)" "entry_bytes x = sl_bytes (lay k)"
      "holds_file file (lay k) (mem c)" unfolding integrity_def by blast+
    obtain nm' win' e where y: "k = key nm' e" "W nm' = Some win'" "expert_of win' e" using k(1) by (rule wkeysE)
    have l: "lay k = slice_of win' e" "?lay k = lay k" using lay old y by (auto simp: lays_def)
    have "m a = mem c a" if "in_slice (lay k) a" for a
      using out [OF y(2)] slice_in_window(1) [OF _ y(3)] window_sliced [OF mo w y(2)] that l(1) by auto
    then have "holds_file file (lay k) m" using k(4) by (simp add: holds_file_def)
    moreover have "k \<in> wkeys ?W" using y none unfolding wkeys_def by (auto intro!: exI [of _ nm'] exI [of _ e])
    ultimately show ?thesis using k l by simp
  qed
  then show "integrity file ?lay (wkeys ?W) (c\<lparr>mem := m\<rparr>)" by (simp add: integrity_def)
qed

lemma ensure_window_spec:
  assumes "host_ok h" "manifest_ok mf" "stream_inv file mf s" "ensure_window h s nm w = Some s'"
  shows "stream_inv file mf s' \<and> (\<exists>W m. s' = set_mem s m\<lparr>windows := W\<rparr> \<and> windows s \<subseteq>\<^sub>m W)"
proof (cases "s' = s")
  case True
  then have "s' = set_mem s (smem s)\<lparr>windows := windows s\<rparr>" by (simp add: set_mem_def)
  with True assms(3) show ?thesis by (metis map_le_refl)
next
  case False
  have inv: "manifest s = Some mf" "serving s" "windows_ok mf (windows s)" "graph_ok mf s" "cache_ok file s"
    using assms(3) by (simp_all add: stream_inv_def)
  obtain ti base where ti: "routed_ti mf nm = Some ti" and base: "h_mmap h s (bytes_total ti) = Some base"
    and none: "windows s nm = None"
    and s': "s' = (set_mem s (madvise_dontneed (smem s) base (bytes_total ti)))\<lparr>windows := (windows s)(nm \<mapsto> new_window s ti base (t_data (heap s w)))\<rparr>"
    using assms(4) False inv(1,2)
    by (auto simp: ensure_window_def routed_ti_def serving_def Let_def split: if_splits option.splits)
  let ?win = "new_window s ti base (t_data (heap s w))" and ?m = "madvise_dontneed (smem s) base (bytes_total ti)"
  let ?W = "(windows s)(nm \<mapsto> ?win)"
  have b: "base \<noteq> 0" "base AND 4095 = 0" "unat base + unat (bytes_total ti) \<le> 2 ^ 64"
    and dj: "windows s nm' = Some win' \<Longrightarrow> in_range base (bytes_total ti) a \<Longrightarrow> \<not> in_window win' a" for nm' win' a
    using assms(1) base unfolding host_ok_def by blast+
  have nw: "win_ti ?win = ti" "win_base ?win = base" "win_file_off ?win = abs_offset ti" "\<not> win_rebound ?win"
    by (simp_all add: new_window_def)
  have iw: "in_window ?win a \<longleftrightarrow> in_range base (bytes_total ti) a" for a by (simp add: in_window_def nw)
  have "windows_ok mf ?W"
    using inv(3) ti b dj unfolding windows_ok_def by (auto simp: window_ok_def nw iw split: if_splits)
  moreover have "graph_ok mf s'"
    using inv(4) unfolding graph_ok_def by (auto simp: s' nw split: if_splits)
  moreover have "cache_ok file s'"
  proof -
    obtain rd lay where r: "src_read (cache s) = Some rd" "faithful file rd" "serving_inv (cache s)"
      "lays lay (windows s)" "integrity file lay (wkeys (windows s)) (cache s)"
      using inv(5) by (auto simp: cache_ok_def)
    have "?m a = smem s a" if "windows s nm' = Some win'" "in_window win' a" for nm' win' a
      using dj [OF that(1), of a] that(2) by (auto simp: madvise_dontneed_def in_range_def)
    from new_window_cache_ok [OF assms(2) inv(3) none _ r(4,5) this, where win = ?win] ti r(1-3)
    show ?thesis by (simp add: cache_ok_def s' nw)
  qed
  moreover have "windows s \<subseteq>\<^sub>m ?W" using none by (auto simp: map_le_def)
  ultimately show ?thesis using inv(1,2) s' by (auto simp: stream_inv_def serving_def)
qed

section \<open>Serving a matmul\<close>

lemma core_lookahead_loop: "core (lookahead_loop prev s rs) = core s"
  by (induction rs arbitrary: s) (auto simp: Let_def core_def split: option.splits)

lemma core_after_fill [simp]: "core (lookahead_push (record_ids s nm v) nm) = core s"
  by (simp add: lookahead_push_def record_ids_def Let_def core_lookahead_loop) (simp add: core_def)

lemma repoint_spec:
  assumes "manifest_ok mf" "stream_inv file mf s" "windows s nm = Some win" "nm = t_name (heap s w)"
  shows "stream_inv file mf (repoint s w nm win) \<and> t_data (heap (repoint s w nm win) w) = win_base win
    \<and> cache (repoint s w nm win) = cache s \<and> (\<forall>p. t_name (heap (repoint s w nm win) p) = t_name (heap s p))"
proof (cases "\<not> win_rebound win \<and> t_data (heap s w) \<noteq> win_base win")
  case False
  then have "repoint s w nm win = s" by (auto simp: repoint_def)
  moreover have "t_data (heap s w) = win_base win"
    using False assms by (auto simp: stream_inv_def graph_ok_def)
  ultimately show ?thesis using assms(2) by simp
next
  case True
  let ?r = "repoint s w nm win" and ?win = "win\<lparr>win_rebound := True\<rparr>"
  have r: "?r = s\<lparr>heap := (heap s)(w := (heap s w)\<lparr>t_data := win_base win\<rparr>), windows := (windows s)(nm \<mapsto> ?win)\<rparr>"
    using True by (simp add: repoint_def)
  have same: "slice_of ?win = slice_of win" "expert_of ?win = expert_of win" "in_window ?win = in_window win"
    "window_ok mf nm ?win = window_ok mf nm win"
    by (simp_all add: slice_of_def expert_of_def in_window_def window_ok_def fun_eq_iff)
  have inv: "windows_ok mf (windows s)" "graph_ok mf s" using assms(2) by (simp_all add: stream_inv_def)
  have lift: "\<exists>y. windows s n = Some y \<and> window_ok mf n x = window_ok mf n y \<and> in_window x = in_window y
      \<and> slice_of x = slice_of y \<and> expert_of x = expert_of y"
    if "((windows s)(nm \<mapsto> ?win)) n = Some x" for n x
    using that assms(3) same by (cases "n = nm") auto
  have W: "windows_ok mf ((windows s)(nm \<mapsto> ?win))"
    unfolding windows_ok_def
  proof (intro conjI allI impI)
    fix n x assume "((windows s)(nm \<mapsto> ?win)) n = Some x"
    from lift [OF this] inv(1) show "window_ok mf n x" unfolding windows_ok_def by blast
  next
    fix n n' x x' a assume x: "((windows s)(nm \<mapsto> ?win)) n = Some x" "((windows s)(nm \<mapsto> ?win)) n' = Some x'" "n \<noteq> n'" "in_window x a"
    from lift [OF x(1)] lift [OF x(2)] inv(1) x(3,4) show "\<not> in_window x' a" unfolding windows_ok_def by metis
  qed
  have "(\<exists>x. ((windows s)(nm \<mapsto> ?win)) n = Some x \<and> expert_of x e) \<longleftrightarrow> (\<exists>x. windows s n = Some x \<and> expert_of x e)" for n e
    using assms(3) by (cases "n = nm") (simp_all add: same)
  then have K: "wkeys ((windows s)(nm \<mapsto> ?win)) = wkeys (windows s)" by (simp only: wkeys_def)
  have L: "lays lay ((windows s)(nm \<mapsto> ?win))" if "lays lay (windows s)" for lay
    unfolding lays_def
  proof (intro allI impI)
    fix n x e assume x: "((windows s)(nm \<mapsto> ?win)) n = Some x" "expert_of x e"
    from lift [OF x(1)] x(2) that show "lay (key n e) = slice_of x e" unfolding lays_def by metis
  qed
  have rt: "routed_ti mf nm = Some (win_ti win)" using window_sliced [OF assms(1) inv(1) assms(3)] by (simp add: window_ok_def)
  have g: "graph_ok mf ?r"
    unfolding graph_ok_def
  proof (intro conjI allI impI)
    fix p q assume "t_name (heap ?r p) = t_name (heap ?r q)" "routed_ti mf (t_name (heap ?r p)) \<noteq> None"
    then show "p = q" using inv(2) unfolding graph_ok_def by (auto simp: r split: if_splits)
  next
    fix p x assume x: "windows ?r (t_name (heap ?r p)) = Some x" "win_rebound x"
    have u: "p = w" if "t_name (heap s p) = nm" using that inv(2) rt assms(4) unfolding graph_ok_def by blast
    show "t_data (heap ?r p) = win_base x"
    proof (cases "p = w")
      case True
      then show ?thesis using x(1) assms(4) unfolding r by auto
    next
      case False
      then have "t_name (heap s p) \<noteq> nm" using u by blast
      then show ?thesis using x False inv(2) unfolding graph_ok_def r by simp
    qed
  qed
  show ?thesis
    using assms(2) g W K L unfolding r by (auto simp: stream_inv_def serving_def cache_ok_def)
qed

text \<open>The routing that one matmul is served from, once its window exists.\<close>

definition routable :: "host \<Rightarrow> stream \<Rightarrow> tptr \<Rightarrow> tptr \<Rightarrow> window \<Rightarrow> bool" where
  "routable h s w ids win \<longleftrightarrow>
     (let v = routing s (t_name (heap s w)) ids in in_experts win v \<and> fits_cap h s win v)"

lemma serve_mmid_spec:
  assumes "host_ok h" "manifest_ok mf" "stream_inv file mf s" "windows s (t_name (heap s w)) = Some win" "routable h s w ids win"
    "serve_mmid h s w ids = Some (r, s')"
  shows "r \<and> stream_inv file mf s' \<and> (\<forall>p. t_name (heap s' p) = t_name (heap s p))
    \<and> (let v = routing s (t_name (heap s w)) ids
        in t_data (heap s w) \<noteq> 0 \<and> v \<noteq> [] \<and> length v \<le> 8192 \<longrightarrow>
           t_data (heap s' w) = win_base win \<and> list_all (served file s' (t_name (heap s w)) win) v)"
proof -
  let ?nm = "t_name (heap s w)" and ?v = "routing s (t_name (heap s w)) ids"
  have sv: "serving s" and wk: "windows_ok mf (windows s)" using assms(3) by (simp_all add: stream_inv_def)
  have b: "win_base win \<noteq> 0" using window_sliced [OF assms(2) wk assms(4)] by (simp add: window_ok_def)
  show ?thesis
  proof (cases "t_data (heap s w) \<noteq> 0 \<and> ?v \<noteq> [] \<and> length ?v \<le> 8192")
    case False
    then have "r" "s' = s" using assms(4,6) b sv by (auto simp: serve_mmid_def Let_def serving_def split: if_splits)
    then show ?thesis using assms(3) False by auto
  next
    case True
    obtain s1 where f: "fill_window h s ?nm win ?v = Some s1"
      and s': "r" "s' = repoint (lookahead_push (record_ids s1 ?nm ?v) ?nm) w ?nm win"
      using assms(4,6) True b sv by (auto simp: serve_mmid_def Let_def serving_def demand_fill_def split: option.splits)
    have "in_experts win ?v" "fits_cap h s win ?v" using assms(5) by (simp_all add: routable_def Let_def)
    note fs = fill_window_spec [OF assms(1-4) this f]
    obtain c k where s1: "s1 = s\<lparr>cache := c, fill_calls := k\<rparr>" using fs by blast
    have i1: "stream_inv file mf s1" using fs assms(3) by (simp add: s1 stream_inv_def serving_def graph_ok_def)
    let ?s2 = "lookahead_push (record_ids s1 ?nm ?v) ?nm"
    have c2: "core ?s2 = core s1" by simp
    then have i2: "stream_inv file mf ?s2" using i1 stream_inv_core by blast
    have h2: "windows ?s2 = windows s" "heap ?s2 = heap s" "cache ?s2 = cache s1" using c2 by (simp_all add: core_def s1)
    then have w2: "windows ?s2 ?nm = Some win" "?nm = t_name (heap ?s2 w)" using assms(4) by simp_all
    note rp = repoint_spec [OF assms(2) i2 w2]
    have "list_all (served file s' ?nm win) ?v"
      using fs served_cache [of s' s1] rp h2(3) s'(2) by simp
    then show ?thesis using rp s'(1) h2(2) unfolding s'(2) by (simp add: Let_def)
  qed
qed

section \<open>The callback\<close>

text \<open>What is asked of the graph at one callback: the routing of a matmul names experts of its tensor and their slices fit the cache.\<close>

definition well_routed :: "host \<Rightarrow> stream \<Rightarrow> tptr \<Rightarrow> bool" where
  "well_routed h s t \<longleftrightarrow>
     (is_router (heap s t) \<longrightarrow> parse_layer_index (t_name (heap s t)) < 0)
     \<and> (\<forall>w ids s1 win. discover s (t_src (heap s t)) None None = Some (Some w, Some ids) \<longrightarrow>
          ensure_window h s (t_name (heap s w)) w = Some s1 \<longrightarrow> windows s1 (t_name (heap s w)) = Some win \<longrightarrow>
          routable h s1 w ids win)"

lemma ask_mmid_spec:
  assumes "host_ok h" "manifest_ok mf" "stream_inv file mf s" "well_routed h s t" "ask_mmid h s t = Some (r, s')"
  shows "r \<and> stream_inv file mf s' \<and> (\<forall>w ids s1 win.
      discover s (t_src (heap s t)) None None = Some (Some w, Some ids) \<longrightarrow> t_data (heap s ids) \<noteq> 0 \<longrightarrow> t_data (heap s w) \<noteq> 0 \<longrightarrow>
      ensure_window h s (t_name (heap s w)) w = Some s1 \<longrightarrow> windows s1 (t_name (heap s w)) = Some win \<longrightarrow>
      (let v = routing s1 (t_name (heap s w)) ids
       in v \<noteq> [] \<and> length v \<le> 8192 \<longrightarrow>
          t_data (heap s' w) = win_base win \<and> list_all (served file s' (t_name (heap s w)) win) v))"
proof (cases "\<exists>w ids. discover s (t_src (heap s t)) None None = Some (Some w, Some ids) \<and> t_data (heap s ids) \<noteq> 0")
  case False
  then have "r" "s' = s" using assms(5) by (auto simp: ask_mmid_def split: option.splits if_splits)
  with assms(3) False show ?thesis by auto
next
  case True
  then obtain w ids where d: "discover s (t_src (heap s t)) None None = Some (Some w, Some ids)" "t_data (heap s ids) \<noteq> 0" by blast
  let ?nm = "t_name (heap s w)"
  obtain s1 where e: "ensure_window h s ?nm w = Some s1" and m: "serve_mmid h s1 w ids = Some (r, s')"
    using assms(5) d by (auto simp: ask_mmid_def split: option.splits)
  note es = ensure_window_spec [OF assms(1-3) e]
  have hp: "heap s1 = heap s" using es by auto
  show ?thesis
  proof (cases "windows s1 ?nm")
    case None
    then have "r" "s' = s1" using m hp by (auto simp: serve_mmid_def)
    with es d e None show ?thesis by auto
  next
    case (Some win)
    have ro: "routable h s1 w ids win" using assms(4) d e Some unfolding well_routed_def by blast
    from serve_mmid_spec [OF assms(1,2) _ _ ro m] es Some hp d e show ?thesis by (auto simp: Let_def)
  qed
qed

lemma stream_cb_eval_inv:
  assumes "host_ok h" "manifest_ok mf" "stream_inv file mf s" "\<And>t. tp = Some t \<Longrightarrow> well_routed h s t"
    "stream_cb_eval h s tp ask = Some (r, s')"
  shows "stream_inv file mf s'"
proof (cases tp)
  case None
  then show ?thesis using assms(3,5) by (simp add: stream_cb_eval_def)
next
  case (Some t)
  have an: "\<not> anon_scan s" using assms(3) by (simp add: stream_inv_def serving_def)
  have wr: "well_routed h s t" using assms(4) Some by blast
  show ?thesis
  proof (cases "\<not> is_router (heap s t) \<and> t_op (heap s t) = OP_MUL_MAT_ID \<and> ask")
    case True
    then have "ask_mmid h s t = Some (r, s')" using assms(5) Some an by (simp add: stream_cb_eval_def)
    from ask_mmid_spec [OF assms(1-3) wr this] show ?thesis by simp
  next
    case False
    then have "s' = s" using assms(5) Some an wr
      by (auto simp: stream_cb_eval_def router_done_def well_routed_def Let_def split: if_splits)
    then show ?thesis using assms(3) by simp
  qed
qed

section \<open>The callback returns\<close>

lemma discover_total: "manifest s = Some mf \<Longrightarrow> \<exists>r. discover s ps w ids = Some r"
  by (induction ps arbitrary: w ids) (auto simp: routed_name_def split: option.splits)

lemma ensure_window_total:
  assumes "\<And>ti. routed_ti mf nm = Some ti \<Longrightarrow> h_mmap h s (bytes_total ti) \<noteq> None" "serving s" "manifest s = Some mf"
  shows "\<exists>s'. ensure_window h s nm w = Some s'"
proof (cases "routed_ti mf nm")
  case None
  then show ?thesis using assms(2,3) by (auto simp: ensure_window_def serving_def routed_ti_def)
next
  case (Some ti)
  then obtain base where "h_mmap h s (bytes_total ti) = Some base" using assms(1) by blast
  then show ?thesis using Some assms(2,3) by (auto simp: ensure_window_def serving_def routed_ti_def Let_def)
qed

lemma aligned_mask: "is_aligned x \<longleftrightarrow> x AND 4095 = 0"
proof -
  have "unat (x mod 4096) = unat x mod 4096" by (simp add: unat_mod)
  then show ?thesis by (metis is_aligned_def kAlign_def page_dvd dvd_eq_mod_eq_0 unat_eq_0)
qed

lemma window_reads_ok:
  assumes "manifest_ok mf" "windows_ok mf W" "W nm = Some win" "in_experts win v" "reads_aligned src"
  shows "reads_ok src (win_base win) (win_file_off win) (bytes_per_expert (win_ti win)) v"
proof -
  let ?b = "bytes_per_expert (win_ti win)"
  have w: "window_ok mf nm win" and sl: "sliced (win_ti win)" using window_sliced [OF assms(1-3)] by simp_all
  have "fst (src m (win_base win + word_of_int e * ?b) (win_file_off win + word_of_int e * ?b) ?b)" if "e \<in> set v" for m e
  proof -
    have e: "0 \<le> e" "e < expert_count (win_ti win)" using that assms(4) by (auto simp: in_experts_def list_all_iff expert_of_def)
    note x = word_of_expert [OF sl e]
    have al: "(word_of_int e * ?b) AND 4095 = 0" using sl by (simp add: sliced_def page_mul)
    have nz: "win_base win + word_of_int e * ?b \<noteq> 0"
    proof (cases "?b = 0")
      case True
      then show ?thesis using w by (simp add: window_ok_def)
    next
      case False
      then have "0 < unat ?b" by (simp add: unat_gt_0)
      then have "unat (win_base win) + unat (word_of_int e * ?b) < 2 ^ 64" using x w by (simp add: window_ok_def)
      then have "unat (win_base win + word_of_int e * ?b) = unat (win_base win) + unat (word_of_int e * ?b)" by (rule unat_add_nowrap)
      moreover have "unat (win_base win) \<noteq> 0" using w by (simp add: window_ok_def unat_eq_0)
      ultimately show ?thesis by (metis add_is_0 unat_0)
    qed
    then show ?thesis
      using assms(5) w sl al page_add unfolding reads_aligned_def aligned_mask by (simp add: window_ok_def sliced_def)
  qed
  then show ?thesis by (simp add: reads_ok_def)
qed

lemma serve_mmid_total:
  assumes "host_ok h" "manifest_ok mf" "stream_inv file mf s" "src_read (cache s) = Some src" "reads_aligned src"
    "\<And>win. windows s (t_name (heap s w)) = Some win \<Longrightarrow> routable h s w ids win"
  shows "\<exists>r s'. serve_mmid h s w ids = Some (r, s')"
proof (cases "windows s (t_name (heap s w))")
  case None
  then have "serve_mmid h s w ids = Some (True, s)" by (simp add: serve_mmid_def)
  then show ?thesis by blast
next
  case (Some win)
  let ?v = "routing s (t_name (heap s w)) ids"
  have ro: "fits_cap h s win ?v" "in_experts win ?v" using assms(6) [OF Some] by (simp_all add: routable_def Let_def)
  have i: "serving_inv (cache s)" "serving s" "windows_ok mf (windows s)" using assms(3) by (simp_all add: stream_inv_def cache_ok_def)
  have en: "enumerates (h_enum h ?v) ?v" and ln: "set (h_lanes h ms) = set ms" for ms
    using assms(1) unfolding host_ok_def by (blast, metis set_mset_mset)
  obtain r where "touch_batch_at (h_enum h) (h_lanes h) (cache s) (t_name (heap s w)) ?v (win_base win) (win_file_off win)
      (bytes_per_expert (win_ti win)) = Some r"
    using touch_batch_at_returns [where enum = "h_enum h", OF i(1) ro(1) [unfolded fits_cap_def] en assms(4) window_reads_ok [OF assms(2) i(3) Some ro(2) assms(5)], of "h_lanes h"] ln by blast
  then have "demand_fill h s (t_name (heap s w)) win ?v \<noteq> None"
    using i(2) by (cases r) (simp add: demand_fill_def fill_window_def serving_def)
  then show ?thesis using Some by (auto simp: serve_mmid_def Let_def)
qed

lemma stream_cb_eval_total:
  assumes "host_ok h" "manifest_ok mf" "stream_inv file mf s" "src_read (cache s) = Some src" "reads_aligned src"
    "\<forall>nm ti. routed_ti mf nm = Some ti \<longrightarrow> h_mmap h s (bytes_total ti) \<noteq> None" "well_routed h s t"
  shows "\<exists>r s'. stream_cb_eval h s (Some t) ask = Some (r, s')"
proof -
  have sv: "serving s" and mf: "manifest s = Some mf" using assms(3) by (simp_all add: stream_inv_def)
  have ask: "\<exists>r. ask_mmid h s t = Some r"
  proof (cases "\<exists>w ids. discover s (t_src (heap s t)) None None = Some (Some w, Some ids) \<and> t_data (heap s ids) \<noteq> 0")
    case False
    then show ?thesis using discover_total [OF mf, of "t_src (heap s t)" None None]
      by (auto simp: ask_mmid_def split: option.splits)
  next
    case True
    then obtain w ids where d: "discover s (t_src (heap s t)) None None = Some (Some w, Some ids)" "t_data (heap s ids) \<noteq> 0" by blast
    obtain s1 where e: "ensure_window h s (t_name (heap s w)) w = Some s1"
      using ensure_window_total [OF _ sv mf] assms(6) by blast
    note es = ensure_window_spec [OF assms(1-3) e]
    have hp: "heap s1 = heap s" "src_read (cache s1) = Some src" using es assms(4) by auto
    have "\<exists>r s'. serve_mmid h s1 w ids = Some (r, s')"
      using serve_mmid_total [OF assms(1,2) _ hp(2) assms(5), of "file" w ids] es hp(1) assms(7) d(1) e
      unfolding well_routed_def by fastforce
    then show ?thesis using d e by (auto simp: ask_mmid_def)
  qed
  have ro: "router_done h s (heap s t) = Some (True, s)" if "is_router (heap s t)"
    using that assms(7) by (auto simp: router_done_def well_routed_def Let_def)
  from ask ro sv show ?thesis by (auto simp: stream_cb_eval_def serving_def)
qed

section \<open>Runs\<close>

text \<open>Only routings that were served are recorded, so their experts belong to the window.\<close>

definition recorded :: "stream \<Rightarrow> string \<Rightarrow> int list \<Rightarrow> bool" where
  "recorded s nm ids \<longleftrightarrow> (nm, ids) \<in> set (pi_q s) \<or> (\<exists>i. step_ids s i nm = Some ids)"

definition queue_ok :: "stream \<Rightarrow> bool" where
  "queue_ok s \<longleftrightarrow> (\<forall>nm ids. recorded s nm ids \<longrightarrow> (\<exists>win. windows s nm = Some win \<and> in_experts win ids))"

lemma queue_ok_mono:
  assumes "queue_ok s" "\<And>nm ids. recorded s' nm ids \<Longrightarrow> recorded s nm ids"
    "\<And>nm win. windows s nm = Some win \<Longrightarrow> \<exists>win'. windows s' nm = Some win' \<and> win_ti win' = win_ti win"
  shows "queue_ok s'"
  unfolding queue_ok_def
proof (intro allI impI)
  fix nm ids assume "recorded s' nm ids"
  with assms(1,2) obtain win where w: "windows s nm = Some win" "in_experts win ids" unfolding queue_ok_def by blast
  from assms(3) [OF w(1)] obtain win' where "windows s' nm = Some win'" "win_ti win' = win_ti win" by blast
  with w(2) show "\<exists>win. windows s' nm = Some win \<and> in_experts win ids"
    by (auto simp: in_experts_def list_all_iff expert_of_def)
qed

lemma recorded_lookahead_loop:
  "recorded (lookahead_loop (step_ids s i) s rs) nm ids \<Longrightarrow> recorded s nm ids"
proof -
  obtain new where n: "lookahead_loop (step_ids s i) s rs = s\<lparr>looked := looked s \<union> fst ` set new, pi_q := pi_q s @ new\<rparr>"
    "\<forall>(nm, ids) \<in> set new. step_ids s i nm = Some ids \<and> ids \<noteq> [] \<and> nm \<in> rank_name ` set rs"
    using lookahead_loop_spec [of "step_ids s i" s rs] by blast
  assume "recorded (lookahead_loop (step_ids s i) s rs) nm ids"
  then show ?thesis using n(2) unfolding n(1) recorded_def by auto
qed

lemma recorded_lookahead: "recorded (lookahead_push s nm') nm ids \<Longrightarrow> recorded s nm ids"
proof -
  let ?s = "if looked_step s \<noteq> cur_step s then s\<lparr>looked_step := cur_step s, looked := {}\<rparr> else s"
  have i: "step_ids ?s = step_ids s" "id_slot ?s = id_slot s" and r: "recorded ?s nm ids = recorded s nm ids"
    by (simp_all add: recorded_def)
  assume "recorded (lookahead_push s nm') nm ids"
  then show ?thesis
    using recorded_lookahead_loop [of ?s "id_slot s XOR 1" _ nm ids] r unfolding i lookahead_push_def Let_def by (auto split: if_splits)
qed

lemma recorded_record_ids: "recorded (record_ids s nm v) nm' ids \<Longrightarrow> recorded s nm' ids \<or> nm' = nm \<and> ids = v"
  by (auto simp: recorded_def record_ids_def split: if_splits)

lemma repoint_windows:
  "windows s nm = Some win \<Longrightarrow> windows s n = Some x \<Longrightarrow> \<exists>y. windows (repoint s w nm win) n = Some y \<and> win_ti y = win_ti x"
  by (auto simp: repoint_def)

lemma recorded_repoint [simp]: "recorded (repoint s w nm win) = recorded s"
  by (simp add: recorded_def repoint_def fun_eq_iff)

lemma serve_mmid_queue:
  assumes "stream_inv file mf s" "queue_ok s" "\<And>win. windows s (t_name (heap s w)) = Some win \<Longrightarrow> routable h s w ids win"
    "serve_mmid h s w ids = Some (r, s')"
  shows "queue_ok s'"
proof (cases "s' = s")
  case True
  then show ?thesis using assms(2) by simp
next
  case False
  let ?nm = "t_name (heap s w)" and ?v = "routing s (t_name (heap s w)) ids"
  have sv: "serving s" using assms(1) by (simp add: stream_inv_def)
  obtain win s1 where w: "windows s ?nm = Some win" and f: "fill_window h s ?nm win ?v = Some s1"
    and s': "s' = repoint (lookahead_push (record_ids s1 ?nm ?v) ?nm) w ?nm win"
    using assms(4) False sv
    by (auto simp: serve_mmid_def Let_def serving_def demand_fill_def split: option.splits if_splits)
  let ?s2 = "lookahead_push (record_ids s1 ?nm ?v) ?nm"
  have s1: "windows s1 = windows s" "recorded s1 = recorded s"
    using f by (auto simp: fill_window_def recorded_def fun_eq_iff split: option.splits)
  have "core ?s2 = core s1" by simp
  then have w2: "windows ?s2 = windows s" using s1(1) by (simp add: core_def)
  have ie: "in_experts win ?v" using assms(3) [OF w] by (simp add: routable_def Let_def)
  have "queue_ok ?s2"
    unfolding queue_ok_def w2
  proof (intro allI impI)
    fix nm ids assume "recorded ?s2 nm ids"
    then consider "recorded s nm ids" | "nm = ?nm" "ids = ?v"
      using recorded_lookahead recorded_record_ids s1(2) by metis
    then show "\<exists>win. windows s nm = Some win \<and> in_experts win ids"
      using assms(2) w ie unfolding queue_ok_def by cases auto
  qed
  then show ?thesis
    unfolding s' by (rule queue_ok_mono) (use repoint_windows [of ?s2 ?nm win] w w2 in auto)
qed

lemma prefetch_item_spec:
  assumes "host_ok h" "manifest_ok mf" "stream_inv file mf s" "\<And>win. windows s (fst it) = Some win \<Longrightarrow> in_experts win (snd it)"
  shows "\<exists>s'. prefetch_item h s it = Some s' \<and> stream_inv file mf s'"
proof (cases "windows s (fst it)")
  case None
  then show ?thesis using assms(3) by (simp add: prefetch_item_def)
next
  case (Some win)
  let ?b = "bytes_per_expert (win_ti win)" and ?K = "wkeys (windows s)"
  have w: "windows_ok mf (windows s)" and co: "cache_ok file s" using assms(3) by (simp_all add: stream_inv_def)
  obtain rd lay where rd: "src_read (cache s) = Some rd" "faithful file rd" and si: "serving_inv (cache s)"
    and lay: "lays lay (windows s)" "integrity file lay ?K (cache s)"
    using co by (auto simp: cache_ok_def)
  have sl: "sliced (win_ti win)" using window_sliced [OF assms(2) w Some] by simp
  have en: "enumerates (h_enum h (snd it)) (snd it)" and ln: "\<And>ms. mset (h_lanes h ms) = mset ms"
    using assms(1) by (simp_all add: host_ok_def)
  have ie: "in_experts win (snd it)" using assms(4) [OF Some] .
  have i32: "list_all int32 (snd it)"
    using ie sl by (auto simp: in_experts_def list_all_iff expert_of_def int32_def sliced_def)
  have bl: "batch_layout lay ?K (fst it) (win_base win) (win_file_off win) ?b (snd it)"
    using ie Some lay(1) by (auto simp: batch_layout_def in_experts_def list_all_iff wkeys_def lays_def slice_of_def)
  have "expert_of win 0" using sl by (simp add: expert_of_def sliced_def)
  from word_of_expert(2) [OF sl, of 0] this have "unat ?b \<le> unat (bytes_total (win_ti win))" by (simp add: expert_of_def)
  moreover have "unat (bytes_total (win_ti win)) < 9223372036854775808"
    using sl uint_unat_less [of "bytes_total (win_ti win)"] by (simp add: sliced_def)
  ultimately have "unat ?b < 9223372036854775808" by linarith
  from prefetch_batch_at_spec [where enum = "h_enum h" and lanes = "h_lanes h", OF windows_separated [OF assms(2) w lay(1)] rd(2,1) lay(2) si en i32 this ln bl]
  obtain c' where c': "prefetch_batch_at (h_enum h) (h_lanes h) (cache s) (fst it) (snd it) (win_base win) (win_file_off win) ?b = Some c'"
    "serving_inv c'" "integrity file lay ?K c'" "src_read c' = Some rd" by blast
  have "stream_inv file mf (s\<lparr>cache := c'\<rparr>)"
    using assms(3) c'(2-4) rd(2) lay(1) by (auto simp: stream_inv_def serving_def graph_ok_def cache_ok_def)
  moreover have "win_base win \<noteq> 0" using window_sliced [OF assms(2) w Some] by (simp add: window_ok_def)
  ultimately show ?thesis using Some c'(1) by (simp add: prefetch_item_def)
qed

text \<open>
  Runs of the engine in O_DIRECT mode: callbacks of well-routed nodes, the hooks of the generation loop, and rounds of the
  prefetch worker, each round as one step.
\<close>

inductive serve_step :: "host \<Rightarrow> stream \<Rightarrow> stream \<Rightarrow> bool" for h where
  eval: "well_routed h s t \<Longrightarrow> stream_cb_eval h s (Some t) ask = Some (r, s') \<Longrightarrow> serve_step h s s'"
| set_step: "serve_step h s (stream_set_step s n)"
| boundary: "serve_step h s (stream_step_boundary h s trim)"
| kick: "set order = dom (step_ids s (id_slot s)) \<Longrightarrow> serve_step h s (stream_prefetch_kick_full s order)"
| stop: "serve_step h s (stream_prefetch_stop s)"
| worker: "prefetch_worker h s = Round (Some s') \<Longrightarrow> serve_step h s s'"

definition run_inv :: "(u64 \<Rightarrow> u8) \<Rightarrow> model_manifest \<Rightarrow> stream \<Rightarrow> bool" where
  "run_inv file mf s \<longleftrightarrow> stream_inv file mf s \<and> queue_ok s"

lemma eval_queue:
  assumes "host_ok h" "manifest_ok mf" "run_inv file mf s" "well_routed h s t" "stream_cb_eval h s (Some t) ask = Some (r, s')"
  shows "queue_ok s'"
proof (cases "s' = s")
  case True
  then show ?thesis using assms(3) by (simp add: run_inv_def)
next
  case False
  have inv: "stream_inv file mf s" "queue_ok s" using assms(3) by (simp_all add: run_inv_def)
  then have "\<not> anon_scan s" by (simp add: stream_inv_def serving_def)
  then have a: "ask_mmid h s t = Some (r, s')"
    using False assms(4,5) by (auto simp: stream_cb_eval_def router_done_def well_routed_def Let_def split: if_splits)
  obtain w ids s1 where d: "discover s (t_src (heap s t)) None None = Some (Some w, Some ids)"
    and e: "ensure_window h s (t_name (heap s w)) w = Some s1" and m: "serve_mmid h s1 w ids = Some (r, s')"
    using a False by (auto simp: ask_mmid_def split: option.splits if_splits)
  note es = ensure_window_spec [OF assms(1,2) inv(1) e]
  obtain W m' where s1: "s1 = set_mem s m'\<lparr>windows := W\<rparr>" "windows s \<subseteq>\<^sub>m W" using es by blast
  have "queue_ok s1"
    using inv(2) by (rule queue_ok_mono) (use s1 in \<open>auto simp: recorded_def set_mem_def map_le_def dom_def\<close>)
  moreover have "heap s1 = heap s" using s1 by simp
  ultimately show ?thesis
    using serve_mmid_queue [OF _ _ _ m] es assms(4) d e unfolding well_routed_def by fastforce
qed

lemma worker_step:
  assumes "host_ok h" "manifest_ok mf" "run_inv file mf s"
  shows "case prefetch_worker h s of Round None \<Rightarrow> False
    | Round (Some s') \<Rightarrow> run_inv file mf s' \<and> pi_stop s' = pi_stop s \<and> Suc (length (pi_q s')) = length (pi_q s) | _ \<Rightarrow> pi_q s = []"
proof (cases "pi_q s")
  case Nil
  then show ?thesis by (simp add: prefetch_worker_def)
next
  case (Cons it q)
  let ?s = "s\<lparr>pi_q := q\<rparr>"
  have inv: "stream_inv file mf ?s"
    using assms(3) stream_inv_core [of ?s s "file" mf] by (simp add: run_inv_def core_def)
  have "queue_ok s" using assms(3) by (simp add: run_inv_def)
  moreover have "recorded s (fst it) (snd it)" using Cons by (simp add: recorded_def)
  ultimately obtain win where "windows s (fst it) = Some win" "in_experts win (snd it)" unfolding queue_ok_def by blast
  then obtain s' where s': "prefetch_item h ?s it = Some s'" "stream_inv file mf s'"
    using prefetch_item_spec [OF assms(1,2) inv, of it] by auto
  have f: "windows s' = windows s" "pi_q s' = q" "step_ids s' = step_ids s" "pi_stop s' = pi_stop s"
    using s'(1) by (auto simp: prefetch_item_def split: option.splits if_splits)
  have "queue_ok s'"
    using \<open>queue_ok s\<close> by (rule queue_ok_mono) (use f Cons in \<open>auto simp: recorded_def\<close>)
  then show ?thesis using s' f Cons by (simp add: prefetch_worker_def run_inv_def)
qed

lemma serve_step_inv:
  "serve_step h s s' \<Longrightarrow> host_ok h \<Longrightarrow> manifest_ok mf \<Longrightarrow> run_inv file mf s \<Longrightarrow> run_inv file mf s'"
proof (induction rule: serve_step.induct)
  case (eval s t ask r s')
  then show ?case
    using eval_queue stream_cb_eval_inv [OF eval.prems(1,2) _ _ eval.hyps(2)] by (auto simp: run_inv_def)
next
  case (set_step s n)
  then show ?case using stream_inv_core [of "stream_set_step s n" s]
    by (simp add: run_inv_def core_def stream_set_step_def queue_ok_def recorded_def)
next
  case (boundary s trim)
  have "rebind s" using boundary.prems(3) by (simp add: run_inv_def stream_inv_def serving_def)
  then have c: "core (stream_step_boundary h s trim) = core s"
    by (simp add: core_def stream_step_boundary_def stream_expert_mmap_trim_def Let_def)
  have "queue_ok (stream_step_boundary h s trim)"
    by (rule queue_ok_mono [of s])
       (use boundary.prems(3) \<open>rebind s\<close> in
         \<open>auto simp: run_inv_def recorded_def stream_step_boundary_def stream_expert_mmap_trim_def Let_def split: if_splits\<close>)
  then show ?case using boundary.prems(3) stream_inv_core [OF c] by (simp add: run_inv_def)
next
  case (kick order s)
  let ?s = "stream_prefetch_kick_full s order"
  have c: "core ?s = core s" by (simp add: core_def stream_prefetch_kick_full_def)
  have "queue_ok ?s"
    by (rule queue_ok_mono [of s])
       (use kick in \<open>auto simp: run_inv_def recorded_def stream_prefetch_kick_full_def dom_def split: if_splits\<close>)
  then show ?case using kick.prems(3) stream_inv_core [OF c] by (simp add: run_inv_def)
next
  case (stop s)
  then show ?case using stream_inv_core [of "stream_prefetch_stop s" s]
    by (simp add: run_inv_def core_def stream_prefetch_stop_def queue_ok_def recorded_def)
next
  case (worker s s')
  then show ?case using worker_step [OF worker.prems] by simp
qed

lemma serve_run_inv:
  "(serve_step h)\<^sup>*\<^sup>* s s' \<Longrightarrow> host_ok h \<Longrightarrow> manifest_ok mf \<Longrightarrow> run_inv file mf s \<Longrightarrow> run_inv file mf s'"
  by (induction rule: rtranclp_induct) (auto intro: serve_step_inv)

section \<open>From the model file to a serving engine\<close>

definition unique_weights :: "model_manifest \<Rightarrow> (tptr \<Rightarrow> ggml_tensor) \<Rightarrow> bool" where
  "unique_weights mf hp \<longleftrightarrow> (\<forall>p q. t_name (hp p) = t_name (hp q) \<longrightarrow> routed_ti mf (t_name (hp p)) \<noteq> None \<longrightarrow> p = q)"

lemma routed_tiD: "routed_ti mf nm = Some ti \<Longrightarrow> ti \<in> set (mf_tensors mf) \<and> is_routed ti \<and> ti_name ti = nm"
  by (auto simp: routed_ti_def find_Some_iff is_routed_def)

lemma registry_manifest_ok:
  assumes "registry_build srt max_size path fl = Inr mf" "all_slices_aligned mf = routed_expert_tensors mf" "no_collisions mf"
    "list_all (\<lambda>ti. uint (bytes_total ti) < 2 ^ 63) (mf_tensors mf)"
  shows "manifest_ok mf"
proof -
  have "sliced ti" if "routed_ti mf nm = Some ti" for nm ti
  proof -
    have t: "ti \<in> set (mf_tensors mf)" "is_routed ti" using routed_tiD [OF that] by simp_all
    from registry_slices [OF assms(1) t] registry_aligned [OF assms(1,2) t] aligned_mask assms(4) t(1) show ?thesis
      by (simp add: sliced_def list_all_iff is_aligned_def kAlign_def)
  qed
  then show ?thesis using assms(3) by (simp add: manifest_ok_def)
qed

lemma start_run_inv:
  assumes "uint cap < 2 ^ 62" "pread_ok file kern" "eventually_quiet kern" "cfg_rebind cfg" "\<not> cfg_full_fill cfg" "unique_weights mf hp"
    "stream_open_fill_backend sys_open kern (stream_init (new_stream m hp) mf (new_slice_cache cap m) cfg) = Some (True, s)"
  shows "run_inv file mf s \<and> all_slices_aligned mf = routed_expert_tensors mf"
proof -
  let ?s = "stream_init (new_stream m hp) mf (new_slice_cache cap m) cfg"
  obtain d where s: "s = ?s\<lparr>direct_f := d, use_odirect := True, cache := set_source (cache ?s) (direct_source kern d)\<rparr>"
    and al: "all_slices_aligned mf = routed_expert_tensors mf"
    using assms(7) by (auto simp: stream_open_fill_backend_def stream_init_def Let_def split: if_splits prod.splits)
  have f: "manifest s = Some mf" "windows s = Map.empty" "heap s = hp" "serving s" "pi_q s = []" "step_ids s = (\<lambda>_. Map.empty)"
    "cache s = set_source (new_slice_cache cap m) (direct_source kern d)"
    using assms(4,5) by (simp_all add: s stream_init_def new_stream_def serving_def)
  have "integrity file lay {} (cache s)" "lays lay (windows s)" for lay
    by (simp_all add: f integrity_def lays_def new_slice_cache_def)
  moreover have "wkeys (windows s) = {}" by (simp add: wkeys_def f)
  moreover have "src_read (cache s) = Some (direct_source kern d)" by (simp add: f set_source_def)
  moreover have "serving_inv (cache s)" using serving_inv_new [OF assms(1), of m] by (simp add: f)
  ultimately have "cache_ok file s"
    using direct_source_faithful_aux [OF assms(2,3), of d] unfolding cache_ok_def by auto
  then have "stream_inv file mf s"
    using assms(6) f by (simp add: stream_inv_def windows_ok_def graph_ok_def unique_weights_def)
  moreover have "queue_ok s" by (simp add: queue_ok_def recorded_def f)
  ultimately show ?thesis using al by (simp add: run_inv_def)
qed

fun worker_rounds :: "nat \<Rightarrow> host \<Rightarrow> stream \<Rightarrow> worker" where
  "worker_rounds 0 h s = prefetch_worker h s"
| "worker_rounds (Suc n) h s = (case prefetch_worker h s of Round (Some s') \<Rightarrow> worker_rounds n h s' | r \<Rightarrow> r)"

end
