(* ===== verification/Stream_Serve.thy ===== *)
theory Stream_Serve
  imports Stream_Inv
begin

text \<open>
  The properties of demand serving in O_DIRECT mode, end to end: after the callback for an expert matmul the weight tensor points at its
  window and every routed slice of the window holds the bytes of the model file; this holds in every reachable state for every resident
  slice; callbacks return; a stopped prefetch worker ends. A concrete model, graph and engine instantiate them.
\<close>

section \<open>A concrete engine\<close>

text \<open>A model with one routed tensor of two page-sized slices, its graph, and the engine after start-up.\<close>

definition serve_meta :: gmeta where
  "serve_meta = \<lparr>gm_version = 3,
     gm_kvs = [(''general.architecture'', GStr ''moe''), (''general.alignment'', GScalar 4 4096), (''moe.block_count'', GScalar 4 1),
               (''moe.expert_count'', GScalar 4 2), (''moe.expert_used_count'', GScalar 4 1)],
     gm_tensors = [\<lparr>gt_name = ''blk.0.ffn_up_exps.weight'', gt_dims = [4, 8, 2], gt_type = 12, gt_off = 0\<rparr>,
                   \<lparr>gt_name = ''output.weight'', gt_dims = [4, 8], gt_type = 0, gt_off = 8192\<rparr>]\<rparr>"

definition serve_fl :: "u8 list" where
  "serve_fl = enc_meta serve_meta @ replicate (12388 - length (enc_meta serve_meta)) 0"

definition serve_mf :: model_manifest where
  "serve_mf = \<lparr>file_path = ''m'', file_size = 12388, gguf_version = 3, mf_data_offset = 4096, mf_io_alignment = 4096,
     architecture = ''moe'', n_layers = 1, n_experts = 2, n_experts_used = 1,
     mf_tensors = [\<lparr>ti_name = ''blk.0.ffn_up_exps.weight'', ti_kind = ROUTED_EXPERT, ti_layer = 0, abs_offset = 4096, bytes_total = 8192,
                     expert_count = 2, expert_axis = 2, bytes_per_expert = 4096, expert_contiguous = True, quant_type = ''q4_k''\<rparr>,
                   \<lparr>ti_name = ''output.weight'', ti_kind = OUTPUT, ti_layer = -1, abs_offset = 12288, bytes_total = 100,
                     expert_count = 0, expert_axis = -1, bytes_per_expert = 0, expert_contiguous = False, quant_type = ''f32''\<rparr>],
     routed_expert_tensors = 1, shared_expert_tensors = 0, misaligned_for_odirect = 0, all_slices_aligned = 1,
     uniform_misalignment = 0, scattered_alignment = 0\<rparr>"

lemma serve_build: "registry_build demo_sort 1000 ''m'' (Some serve_fl) = Inr serve_mf"
proof -
  have wf: "wf_meta 1000 serve_meta"
    by (simp add: wf_meta_def serve_meta_def wf_kv_def wf_str_def wf_tensor_def scalar_size_def v_defs alignment_of_def
      is_uint_type_def is_int_type_def)
  have "length (enc_meta serve_meta) = 325" by code_simp
  then have "length serve_fl = 12388" by (simp add: serve_fl_def)
  moreover have "gguf_open 1000 (Some serve_fl) = Inr (read_back serve_meta)" unfolding serve_fl_def by (rule gguf_open_enc [OF wf])
  ultimately have "registry_build demo_sort 1000 ''m'' (Some serve_fl) = registry_finish demo_sort ''m'' 12388 (read_back serve_meta)"
    by (simp add: registry_build_def)
  also have "\<dots> = Inr serve_mf" by code_simp
  finally show ?thesis .
qed

definition serve_graph :: "tptr \<Rightarrow> ggml_tensor" where
  "serve_graph q =
     (if q = 0 then \<lparr>t_name = ''ffn_moe_up-0'', t_op = OP_MUL_MAT_ID, t_type = TYPE_F32, t_data = 0, ne0 = 1, ne1 = 1, nb0 = 4, nb1 = 4, t_src = [1, 2]\<rparr>
      else if q = 1 then \<lparr>t_name = ''blk.0.ffn_up_exps.weight'', t_op = OP_OTHER, t_type = TYPE_OTHER, t_data = 16, ne0 = 4, ne1 = 8, nb0 = 1, nb1 = 4, t_src = []\<rparr>
      else \<lparr>t_name = ''ffn_moe_topk-0'', t_op = OP_OTHER, t_type = TYPE_I32, t_data = 64, ne0 = 1, ne1 = 1, nb0 = 4, nb1 = 4, t_src = []\<rparr>)"

definition serve_host :: host where
  "serve_host = demo_host\<lparr>h_mmap := (\<lambda>s n. if windows s = Map.empty \<and> n = 8192 then Some 1048576 else None)\<rparr>"

definition serve_cfg :: stream_config where
  "serve_cfg = \<lparr>cfg_rebind = True, cfg_full_fill = False, cfg_l2_mass = Fin 0, cfg_l2_min_k = 2, cfg_pf_mode = PF_LOOKAHEAD\<rparr>"

abbreviation serve_file :: "u64 \<Rightarrow> u8" where
  "serve_file \<equiv> (\<lambda>a. ucast a + 1)"

abbreviation serve_kernel :: kernel where
  "serve_kernel \<equiv> demo_kernel serve_file"

definition serve_start :: stream where
  "serve_start = (stream_init (new_stream (\<lambda>_. 0) serve_graph) serve_mf (new_slice_cache 8589934592 (\<lambda>_. 0)) serve_cfg)
     \<lparr>direct_f := \<lparr>fd = 3, direct = True\<rparr>, use_odirect := True,
      cache := set_source (new_slice_cache 8589934592 (\<lambda>_. 0)) (direct_source serve_kernel \<lparr>fd = 3, direct = True\<rparr>)\<rparr>"

lemma serve_open:
  "stream_open_fill_backend (\<lambda>_. Inr 3) serve_kernel
     (stream_init (new_stream (\<lambda>_. 0) serve_graph) serve_mf (new_slice_cache 8589934592 (\<lambda>_. 0)) serve_cfg) = Some (True, serve_start)"
  by (simp add: stream_open_fill_backend_def stream_init_def serve_mf_def open_read_def valid_def serve_start_def new_stream_def Let_def
      file_close_def new_direct_file_def)

lemma serve_routed: "routed_ti serve_mf nm = (if nm = ''blk.0.ffn_up_exps.weight'' then Some (mf_tensors serve_mf ! 0) else None)"
  by (simp add: routed_ti_def serve_mf_def)

lemma serve_no_collisions: "no_collisions serve_mf"
  unfolding no_collisions_def serve_routed by (auto simp: serve_mf_def int32_def intro: key_inj split: if_splits)

lemma serve_unique: "unique_weights serve_mf serve_graph"
  by (auto simp: unique_weights_def serve_routed serve_graph_def split: if_splits)

lemma serve_manifest_ok: "manifest_ok serve_mf"
  using registry_manifest_ok [OF serve_build _ serve_no_collisions] by (simp add: serve_mf_def)

lemma serve_host_ok: "host_ok serve_host"
  by (auto simp: host_ok_def serve_host_def demo_host_def enumerates_def split: if_splits)

lemma serve_start_inv: "run_inv serve_file serve_mf serve_start"
  using start_run_inv [OF _ demo_kernel_ok _ _ serve_unique serve_open] by (simp add: serve_cfg_def)

lemma serve_fields:
  "heap serve_start = serve_graph" "windows serve_start = Map.empty" "manifest serve_start = Some serve_mf" "rebind serve_start"
  "use_odirect serve_start" "\<not> full_fill serve_start" "fresh_kept serve_start = Map.empty"
  "cache serve_start = set_source (new_slice_cache 8589934592 (\<lambda>_. 0)) (direct_source serve_kernel \<lparr>fd = 3, direct = True\<rparr>)"
  by (simp_all add: serve_start_def stream_init_def new_stream_def serve_cfg_def)

definition serve_window :: window where
  "serve_window = new_window serve_start (mf_tensors serve_mf ! 0) 1048576 16"

definition serve_mapped :: stream where
  "serve_mapped = (set_mem serve_start (\<lambda>_. 0))\<lparr>windows := [''blk.0.ffn_up_exps.weight'' \<mapsto> serve_window]\<rparr>"

lemma serve_discover: "discover serve_start (t_src (heap serve_start 0)) None None = Some (Some 1, Some 2)"
  by (simp add: serve_fields serve_graph_def routed_name_def serve_mf_def)

lemma serve_ensure: "ensure_window serve_host serve_start (t_name (heap serve_start 1)) 1 = Some serve_mapped"
proof -
  have "layer_limit serve_host = -1" by (simp add: layer_limit_def serve_host_def demo_host_def)
  moreover have "madvise_dontneed (\<lambda>_. 0) a n = (\<lambda>_. 0)" for a n by (simp add: madvise_dontneed_def fun_eq_iff)
  moreover have "h_mmap serve_host serve_start 8192 = Some 1048576" by (simp add: serve_host_def serve_fields)
  ultimately show ?thesis
    by (simp add: ensure_window_def serve_fields serve_graph_def serve_mapped_def serve_window_def Let_def serve_mf_def
        new_slice_cache_def)
qed

lemma serve_routing: "routing serve_mapped (t_name (heap serve_start 1)) 2 = [0]"
  by (simp add: routing_def serve_mapped_def serve_fields serve_graph_def read_ids_strided_def load32_def set_mem_def)

lemma serve_well_routed: "well_routed serve_host serve_start 0"
proof -
  have "\<not> is_router (heap serve_start 0)" by (simp add: is_router_def serve_fields serve_graph_def)
  moreover have "routable serve_host serve_mapped 1 2 serve_window"
    using serve_routing
    by (simp add: routable_def serve_mapped_def serve_fields in_experts_def expert_of_def fits_cap_def serve_window_def new_window_def
        serve_mf_def serve_host_def demo_host_def Let_def)
  ultimately show ?thesis
    unfolding well_routed_def using serve_discover serve_ensure
    by (auto simp: serve_mapped_def serve_fields serve_graph_def)
qed

lemma serve_backend:
  "stream_inv serve_file serve_mf serve_start"
  "src_read (cache serve_start) = Some (direct_source serve_kernel \<lparr>fd = 3, direct = True\<rparr>)"
  "reads_aligned (direct_source serve_kernel \<lparr>fd = 3, direct = True\<rparr>)"
  "\<forall>nm ti. routed_ti serve_mf nm = Some ti \<longrightarrow> h_mmap serve_host serve_start (bytes_total ti) \<noteq> None"
proof -
  show "stream_inv serve_file serve_mf serve_start" using serve_start_inv by (simp add: run_inv_def)
  show "src_read (cache serve_start) = Some (direct_source serve_kernel \<lparr>fd = 3, direct = True\<rparr>)"
    by (simp add: serve_fields set_source_def)
  have "kernel_serves serve_kernel" by (simp add: kernel_serves_def demo_kernel_def)
  then show "reads_aligned (direct_source serve_kernel \<lparr>fd = 3, direct = True\<rparr>)"
    by (rule direct_source_reads [OF demo_kernel_ok]) (simp add: valid_def)
  show "\<forall>nm ti. routed_ti serve_mf nm = Some ti \<longrightarrow> h_mmap serve_host serve_start (bytes_total ti) \<noteq> None"
    by (simp add: serve_routed serve_fields serve_host_def) (simp add: serve_mf_def)
qed

lemma serve_evaluates: "\<exists>r s'. stream_cb_eval serve_host serve_start (Some 0) True = Some (r, s')"
  by (rule stream_cb_eval_total [OF serve_host_ok serve_manifest_ok serve_backend serve_well_routed])

text \<open>In a state that keeps the invariant, each slice the cache reports as resident holds the file's bytes at its place in its window.\<close>

lemma run_holds_file:
  assumes mo: "manifest_ok mf" and inv: "run_inv file mf s" and w: "windows s nm = Some win" "expert_of win e" "resident (cache s) nm e"
  shows "\<forall>i < bytes_per_expert (win_ti win).
     smem s (win_base win + word_of_int e * bytes_per_expert (win_ti win) + i)
     = file (abs_offset (win_ti win) + word_of_int e * bytes_per_expert (win_ti win) + i)"
proof -
  have ok: "windows_ok mf (windows s)" and co: "cache_ok file s" using inv by (simp_all add: run_inv_def stream_inv_def)
  have off: "win_file_off win = abs_offset (win_ti win)" using window_sliced [OF mo ok w(1)] by (simp add: window_ok_def)
  obtain lay where lay: "lays lay (windows s)" "integrity file lay (wkeys (windows s)) (cache s)"
    using co by (auto simp: cache_ok_def)
  obtain x where "cmap (cache s) (key nm e) = Some x" using w(3) by (auto simp: resident_def)
  then have "holds_file file (slice_of win e) (smem s)"
    using lay w(1,2) unfolding integrity_def lays_def by metis
  then show ?thesis
    by (simp add: holds_file_def in_slice_def in_range_def slice_of_def add.assoc off)
qed

text \<open>The concrete engine serves expert 0.\<close>

lemma serve_reached:
  obtains s' win where "serve_step serve_host serve_start s'" "windows s' ''blk.0.ffn_up_exps.weight'' = Some win" "expert_of win 0"
    "resident (cache s') ''blk.0.ffn_up_exps.weight'' 0" "bytes_per_expert (win_ti win) = 4096" "abs_offset (win_ti win) = 4096"
proof -
  let ?nm = "''blk.0.ffn_up_exps.weight''"
  obtain r s' where c: "stream_cb_eval serve_host serve_start (Some 0) True = Some (r, s')" using serve_evaluates by blast
  have i: "stream_inv serve_file serve_mf serve_start" using serve_start_inv by (simp add: run_inv_def)
  have nm: "t_name (heap serve_start 1) = ?nm" by (simp add: serve_fields serve_graph_def)
  have "ask_mmid serve_host serve_start 0 = Some (r, s')"
    using c i by (simp add: stream_cb_eval_def serve_fields serve_graph_def is_router_def stream_inv_def serving_def)
  note sp = ask_mmid_spec [OF serve_host_ok serve_manifest_ok i serve_well_routed this]
  have w: "windows serve_mapped ?nm = Some serve_window" by (simp add: serve_mapped_def)
  have "list_all (served serve_file s' ?nm serve_window) [0]"
    using sp serve_discover serve_ensure serve_routing w unfolding nm by (simp add: serve_fields serve_graph_def)
  then have res: "resident (cache s') ?nm 0" by (simp add: served_def)
  from sp obtain lay where "integrity serve_file lay (wkeys (windows s')) (cache s')" by (auto simp: stream_inv_def cache_ok_def)
  with res obtain n e win where k: "key ?nm 0 = key n e" "windows s' n = Some win" "expert_of win e"
    unfolding integrity_def resident_def wkeys_def by fastforce
  have "routed_ti serve_mf n = Some (win_ti win)"
    using sp window_sliced [OF serve_manifest_ok, of "windows s'" n win] k(2) by (simp add: stream_inv_def window_ok_def)
  then have wt: "n = ?nm" "win_ti win = mf_tensors serve_mf ! 0" by (simp_all add: serve_routed split: if_splits)
  have f: "expert_of win 0" "bytes_per_expert (win_ti win) = 4096" "abs_offset (win_ti win) = 4096"
    unfolding expert_of_def wt(2) by (simp_all add: serve_mf_def)
  have "serve_step serve_host serve_start s'" using serve_well_routed c by (rule serve_step.eval)
  then show thesis by (rule that [OF _ k(2) [unfolded wt(1)] f(1) res f(2,3)])
qed

section \<open>Properties\<close>





text \<open>
  Stopping the prefetch worker terminates: once a stop is requested, the worker never waits again, no round fails, and after as
  many rounds as items were queued it returns.
\<close>

theorem stopped_worker_returns:
  assumes "host_ok h" "manifest_ok mf" "run_inv file mf s"
  shows "worker_rounds (length (pi_q s)) h (stream_prefetch_stop s) = Returned"
proof -
  have "run_inv file mf (stream_prefetch_stop s)" using serve_step_inv [OF stop assms] .
  moreover have "pi_stop (stream_prefetch_stop s)" "pi_q (stream_prefetch_stop s) = pi_q s" by (simp_all add: stream_prefetch_stop_def)
  moreover have "worker_rounds n h s = Returned" if "run_inv file mf s" "pi_stop s" "length (pi_q s) = n" for n s
    using that
  proof (induction n arbitrary: s)
    case 0
    then show ?case by (simp add: prefetch_worker_def)
  next
    case (Suc n)
    note ws = worker_step [OF assms(1,2) Suc.prems(1)]
    obtain it q where "pi_q s = it # q" using Suc.prems(3) by (cases "pi_q s") auto
    then obtain s' where "prefetch_worker h s = Round (Some s')"
      using ws by (cases "prefetch_item h (s\<lparr>pi_q := q\<rparr>) it") (auto simp: prefetch_worker_def)
    with ws Suc show ?case by simp
  qed
  ultimately show ?thesis by simp
qed

theorem stopped_worker_returns_witness:
  "worker_rounds (length (pi_q serve_start)) serve_host (stream_prefetch_stop serve_start) = Returned"
  by (rule stopped_worker_returns [OF serve_host_ok serve_manifest_ok serve_start_inv])

end
