(* ===== verification/Server_Stream.thy ===== *)
theory Server_Stream
  imports Cne_Prelude
begin

text \<open>
  \<^verbatim>\<open>server/cne-server.cpp\<close>, the text side of generation: token/text conversion, the \<^verbatim>\<open>Emitter\<close> that turns tokens
  into visible text, the \<^verbatim>\<open>TokenStream\<close> between the engine thread and the HTTP sink, the provider that
  writes server-sent events, and the engine job queue. The tokenizer of llama.cpp is an argument: one call with
  a buffer capacity answers the return code and the buffer it filled. The clock, the outcome of socket
  writes and the moves of the other thread are arguments too.
\<close>

section \<open>Token and text conversion\<close>

text \<open>\<^verbatim>\<open>resize\<close> of a vector or string.\<close>

definition resize :: "nat \<Rightarrow> 'a \<Rightarrow> 'a list \<Rightarrow> 'a list" where
  "resize n d xs = take n xs @ replicate (n - length xs) d"

type_synonym tokenizer = "string \<Rightarrow> bool \<Rightarrow> bool \<Rightarrow> int \<Rightarrow> int \<times> int list"
type_synonym detokenizer = "int list \<Rightarrow> int \<Rightarrow> int \<times> string"

partial_function (option) tokenize_loop :: "(int \<Rightarrow> int \<times> int list) \<Rightarrow> nat \<Rightarrow> int list option" where
  "tokenize_loop tk cap =
     (let (n, out) = tk (to_i32 (int cap)) in
      if n \<ge> 0 then Some (resize (nat n) 0 out)
      else tokenize_loop tk (if nat (- n) > cap then nat (- n) else cap))"

definition tokenize :: "tokenizer \<Rightarrow> string \<Rightarrow> bool \<Rightarrow> int list option" where
  "tokenize tk text add_special = tokenize_loop (tk text add_special True) 32"

partial_function (option) detokenize_loop :: "(int \<Rightarrow> int \<times> string) \<Rightarrow> nat \<Rightarrow> string option" where
  "detokenize_loop dt cap =
     (let (n, buf) = dt (to_i32 (int cap)) in
      if n \<ge> 0 then Some (resize (nat n) CHR 0x00 buf) else detokenize_loop dt (nat (- n)))"

definition detokenize :: "detokenizer \<Rightarrow> int list \<Rightarrow> string option" where
  "detokenize dt toks = detokenize_loop (dt toks) 64"

section \<open>Emitter\<close>

text \<open>
  What can take the place of a result: an endless loop, the exception of \<^verbatim>\<open>substr\<close>, a type error thrown by the JSON
  library, a session slot that no longer exists.
\<close>

datatype srv_fail = Hangs | Out_of_range | Type_error | Dangling_slot

record emitter =
  em_toks :: "int list"
  em_sent :: nat
  strip_think :: bool
  em_stripped :: bool

definition new_emitter :: "bool \<Rightarrow> emitter" where
  "new_emitter strip = \<lparr>em_toks = [], em_sent = 0, strip_think = strip, em_stripped = False\<rparr>"

definition em_push :: "int \<Rightarrow> emitter \<Rightarrow> emitter" where
  "em_push t em = em\<lparr>em_toks := em_toks em @ [t]\<rparr>"

lemma str_find_bounds: "str_find s p pos = Some i \<Longrightarrow> pos \<le> i \<and> i + length p \<le> length s"
  by (auto simp: str_find_def split: if_splits dest!: find_sub_Some)

function visible_loop :: "string \<Rightarrow> nat \<Rightarrow> string \<Rightarrow> bool \<Rightarrow> (string \<times> bool) option" where
  "visible_loop full pos out stripped =
     (case str_find full ''<think>'' pos of
        None \<Rightarrow> if pos \<le> length full then Some (out @ drop pos full, stripped) else None
      | Some b \<Rightarrow>
          (case str_find full ''</think>'' b of
             None \<Rightarrow> Some (out, stripped)
           | Some e \<Rightarrow> visible_loop full (e + 20) (out @ take (b - pos) (drop pos full)) True))"
  by pat_completeness auto
termination
proof (relation "measure (\<lambda>(full, pos, out, stripped). length full - pos)", goal_cases)
  case (2 full pos out stripped b e)
  have "pos < length full" "pos < e + 20" using str_find_bounds [OF 2(1)] str_find_bounds [OF 2(2)] by simp_all
  then show ?case by (simp add: diff_less_mono2)
qed simp

declare visible_loop.simps [simp del]

definition think_blank :: "char \<Rightarrow> bool" where
  "think_blank c \<longleftrightarrow> c = CHR 0x0A \<or> c = CHR '' '' \<or> c = CHR 0x09"

definition visible :: "string \<Rightarrow> emitter \<Rightarrow> srv_fail + string \<times> emitter" where
  "visible full em =
     (if \<not> strip_think em then Inr (full, em)
      else case visible_loop full 0 [] (em_stripped em) of
             None \<Rightarrow> Inl Out_of_range
           | Some (out, st) \<Rightarrow> Inr (if st then dropWhile think_blank out else out, em\<lparr>em_stripped := st\<rparr>))"

definition drain :: "detokenizer \<Rightarrow> emitter \<Rightarrow> srv_fail + string \<times> emitter" where
  "drain dt em =
     (case detokenize dt (em_toks em) of
        None \<Rightarrow> Inl Hangs
      | Some full \<Rightarrow>
          (case visible full em of
             Inl e \<Rightarrow> Inl e
           | Inr (vis, em) \<Rightarrow>
               if length vis \<le> em_sent em then Inr ([], em)
               else Inr (drop (em_sent em) vis, em\<lparr>em_sent := length vis\<rparr>)))"

definition truncated_in_think :: "emitter \<Rightarrow> bool" where
  "truncated_in_think em \<longleftrightarrow> strip_think em \<and> em_sent em = 0 \<and> em_toks em \<noteq> []"

section \<open>Token stream\<close>

record token_stream =
  ts_q :: "string list"
  ts_done :: bool
  ts_failed :: bool
  ts_aborted :: bool

definition new_token_stream :: token_stream where
  "new_token_stream = \<lparr>ts_q = [], ts_done = False, ts_failed = False, ts_aborted = False\<rparr>"

definition ts_push :: "string \<Rightarrow> token_stream \<Rightarrow> token_stream" where
  "ts_push s ts = ts\<lparr>ts_q := ts_q ts @ [s]\<rparr>"

definition ts_finish :: "bool \<Rightarrow> token_stream \<Rightarrow> token_stream" where
  "ts_finish ok ts = ts\<lparr>ts_done := True, ts_failed := \<not> ok\<rparr>"

datatype pull_result = Piece string | Drained | Timeout

text \<open>The outcome of the timed wait is decided by its predicate at the moment the wait ends.\<close>

definition ts_pull :: "token_stream \<Rightarrow> pull_result \<times> token_stream" where
  "ts_pull ts =
     (if \<not> (ts_done ts \<or> ts_aborted ts \<or> ts_q ts \<noteq> []) then (Timeout, ts)
      else case ts_q ts of s # r \<Rightarrow> (Piece s, ts\<lparr>ts_q := r\<rparr>) | [] \<Rightarrow> (Drained, ts))"

section \<open>Emission\<close>

record emit_ctx =
  ec_em :: emitter
  ec_stream :: "token_stream option"
  ec_text :: string
  ec_emitted :: int
  ec_deadline :: "int option"
  ec_stop_reason :: int

definition client_gone :: "emit_ctx \<Rightarrow> bool" where
  "client_gone e = (case ec_stream e of None \<Rightarrow> False | Some s \<Rightarrow> ts_aborted s)"

definition emit_token :: "detokenizer \<Rightarrow> emit_ctx \<Rightarrow> int \<Rightarrow> srv_fail + emit_ctx" where
  "emit_token dt e t =
     (if client_gone e then Inr e
      else case drain dt (em_push t (ec_em e)) of
             Inl f \<Rightarrow> Inl f
           | Inr (piece, em) \<Rightarrow>
               (let e = e\<lparr>ec_em := em\<rparr>;
                    e = (if piece = [] then e
                         else case ec_stream e of
                                Some s \<Rightarrow> e\<lparr>ec_stream := Some (ts_push piece s)\<rparr>
                              | None \<Rightarrow> e\<lparr>ec_text := ec_text e @ piece\<rparr>)
                in Inr (e\<lparr>ec_emitted := ec_emitted e + 1\<rparr>)))"

text \<open>A deadline of \<open>None\<close> is \<^verbatim>\<open>time_point::max()\<close>.\<close>

definition request_poll_stop :: "int \<Rightarrow> emit_ctx \<Rightarrow> bool \<times> emit_ctx" where
  "request_poll_stop now e =
     (if client_gone e then (True, e\<lparr>ec_stop_reason := 1\<rparr>)
      else if (case ec_deadline e of None \<Rightarrow> False | Some d \<Rightarrow> now \<ge> d) then (True, e\<lparr>ec_stop_reason := 2\<rparr>)
      else (False, e))"

section \<open>Server-sent events\<close>

datatype sse_event = Sse_role | Sse_content string | Sse_finish string | Sse_done

record stream_state =
  st_stream :: token_stream
  st_finish_reason :: string
  header_sent :: bool
  final_sent :: bool
  job_done :: bool

definition new_stream_state :: stream_state where
  "new_stream_state = \<lparr>st_stream = new_token_stream, st_finish_reason = [], header_sent = False, final_sent = False, job_done = False\<rparr>"

definition set_aborted :: "bool \<Rightarrow> stream_state \<Rightarrow> stream_state" where
  "set_aborted b st = (if b then st\<lparr>st_stream := (st_stream st)\<lparr>ts_aborted := True\<rparr>\<rparr> else st)"

text \<open>
  One call of the content provider: \<open>wr\<close> and \<open>wr_done\<close> are the outcomes of the socket writes,
  \<open>writable\<close> that of \<^verbatim>\<open>is_writable\<close>; the result says whether the connection stays open and lists the events delivered.
\<close>

definition provider :: "bool \<Rightarrow> bool \<Rightarrow> bool \<Rightarrow> stream_state \<Rightarrow> bool \<times> sse_event list \<times> stream_state" where
  "provider wr wr_done writable st =
     (if final_sent st then (False, [], st)
      else if \<not> header_sent st then
        (let st = set_aborted (\<not> wr) (st\<lparr>header_sent := True\<rparr>)
         in (\<not> ts_aborted (st_stream st), if wr then [Sse_role] else [], st))
      else
        (case ts_pull (st_stream st) of
           (Timeout, ts) \<Rightarrow>
             if writable then (True, [], st) else (False, [], set_aborted True st)
         | (Piece s, ts) \<Rightarrow>
             (True, if wr then [Sse_content s] else [], set_aborted (\<not> wr) (st\<lparr>st_stream := ts\<rparr>))
         | (Drained, ts) \<Rightarrow>
             (let st = st\<lparr>job_done := True\<rparr>;
                  out = (if \<not> ts_failed ts \<and> \<not> ts_aborted ts
                         then (if wr then [Sse_finish (st_finish_reason st)] else []) @ (if wr_done then [Sse_done] else [])
                         else [])
              in (False, out, st\<lparr>final_sent := True\<rparr>))))"

section \<open>Engine job queue\<close>

record 'j job_queue =
  jobs :: "'j list"
  jobs_stop :: bool

definition submit_job :: "'j \<Rightarrow> 'j job_queue \<Rightarrow> 'j job_queue" where
  "submit_job f g = g\<lparr>jobs := jobs g @ [f]\<rparr>"

datatype 'j engine_wake = Blocked | Exit | Run 'j

definition engine_take :: "'j job_queue \<Rightarrow> 'j engine_wake \<times> 'j job_queue" where
  "engine_take g =
     (if \<not> (jobs_stop g \<or> jobs g \<noteq> []) then (Blocked, g)
      else case jobs g of [] \<Rightarrow> (Exit, g) | f # r \<Rightarrow> (Run f, g\<lparr>jobs := r\<rparr>))"


section \<open>The tokenizer's contract\<close>

text \<open>
  As \<^verbatim>\<open>llama.h\<close> documents both conversions: the call fills the buffer and returns the length when the result fits
  the capacity, and returns the negated length otherwise.
\<close>

definition fills :: "'a list \<Rightarrow> int \<Rightarrow> int \<times> 'a list \<Rightarrow> bool" where
  "fills xs cap r \<longleftrightarrow> length xs < 2147483648 \<and>
     (if int (length xs) \<le> cap then fst r = int (length xs) \<and> take (length xs) (snd r) = xs
      else fst r = - int (length xs))"

definition tok_ok :: "tokenizer \<Rightarrow> (string \<Rightarrow> bool \<Rightarrow> bool \<Rightarrow> int list) \<Rightarrow> bool" where
  "tok_ok tk f \<longleftrightarrow> (\<forall>text a p cap. fills (f text a p) cap (tk text a p cap))"

definition detok_ok :: "detokenizer \<Rightarrow> (int list \<Rightarrow> string) \<Rightarrow> bool" where
  "detok_ok dt txt \<longleftrightarrow> (\<forall>ts cap. fills (txt ts) cap (dt ts cap))"

lemma resize_fills: "take (length xs) buf = xs \<Longrightarrow> resize (length xs) d buf = xs"
  by (metis append_Nil2 diff_is_0_eq length_take min.absorb_iff2 replicate_0 resize_def)

lemma tokenize_loop_ok:
  assumes "\<And>cap. fills xs cap (tk cap)" "cap < 2147483648"
  shows "tokenize_loop tk cap = Some xs"
proof (cases "length xs \<le> cap")
  case True
  then show ?thesis using assms(1) [of "int cap"] assms(2)
    by (subst tokenize_loop.simps) (auto simp: fills_def resize_fills split: prod.splits)
next
  case False
  have n: "length xs < 2147483648" using assms(1) [of 0] by (simp add: fills_def)
  have "tokenize_loop tk (length xs) = Some xs" using assms(1) [of "int (length xs)"] n
    by (subst tokenize_loop.simps) (auto simp: fills_def resize_fills split: prod.splits)
  moreover have "tokenize_loop tk cap = tokenize_loop tk (length xs)"
    using False assms(1) [of "int cap"] assms(2) by (subst tokenize_loop.simps) (auto simp: fills_def split: prod.splits)
  ultimately show ?thesis by simp
qed

lemma tokenize_ok: "tok_ok tk f \<Longrightarrow> tokenize tk text a = Some (f text a True)"
  unfolding tokenize_def tok_ok_def by (intro tokenize_loop_ok) simp_all

lemma detokenize_loop_ok:
  assumes "\<And>cap. fills xs cap (dt cap)" "cap < 2147483648"
  shows "detokenize_loop dt cap = Some xs"
proof (cases "length xs \<le> cap")
  case True
  then show ?thesis using assms(1) [of "int cap"] assms(2)
    by (subst detokenize_loop.simps) (auto simp: fills_def resize_fills split: prod.splits)
next
  case False
  have n: "length xs < 2147483648" using assms(1) [of 0] by (simp add: fills_def)
  have "detokenize_loop dt (length xs) = Some xs" using assms(1) [of "int (length xs)"] n
    by (subst detokenize_loop.simps) (auto simp: fills_def resize_fills split: prod.splits)
  moreover have "detokenize_loop dt cap = detokenize_loop dt (length xs)"
    using False assms(1) [of "int cap"] assms(2) by (subst detokenize_loop.simps) (auto simp: fills_def split: prod.splits)
  ultimately show ?thesis by simp
qed

lemma detokenize_ok: "detok_ok dt txt \<Longrightarrow> detokenize dt ts = Some (txt ts)"
  unfolding detokenize_def detok_ok_def by (intro detokenize_loop_ok) simp_all

section \<open>Emission of a token sequence\<close>

fun emit_all :: "detokenizer \<Rightarrow> emit_ctx \<Rightarrow> int list \<Rightarrow> srv_fail + emit_ctx" where
  "emit_all dt e [] = Inr e"
| "emit_all dt e (t # ts) = (case emit_token dt e t of Inl f \<Rightarrow> Inl f | Inr e \<Rightarrow> emit_all dt e ts)"

text \<open>What the client of a request has been given: the text so far, or the pieces queued for the stream.\<close>

definition delivered :: "emit_ctx \<Rightarrow> string" where
  "delivered e = (case ec_stream e of None \<Rightarrow> ec_text e | Some s \<Rightarrow> concat (ts_q s))"

definition emit_inv :: "(int list \<Rightarrow> string) \<Rightarrow> emit_ctx \<Rightarrow> bool" where
  "emit_inv txt e \<longleftrightarrow> \<not> strip_think (ec_em e) \<and> \<not> client_gone e \<and> delivered e = txt (em_toks (ec_em e))
     \<and> em_sent (ec_em e) = length (delivered e) \<and> ec_emitted e = int (length (em_toks (ec_em e)))"

lemma emit_token_ok:
  assumes dt: "detok_ok dt txt" and mono: "\<exists>r. txt (em_toks (ec_em e) @ [t]) = txt (em_toks (ec_em e)) @ r" and inv: "emit_inv txt e"
  shows "\<exists>e'. emit_token dt e t = Inr e' \<and> emit_inv txt e' \<and> em_toks (ec_em e') = em_toks (ec_em e) @ [t]"
proof -
  from mono obtain r where r: "txt (em_toks (ec_em e) @ [t]) = txt (em_toks (ec_em e)) @ r" by blast
  have d: "detokenize dt (em_toks (ec_em e) @ [t]) = Some (txt (em_toks (ec_em e)) @ r)"
    using detokenize_ok [OF dt] r by simp
  show ?thesis
    using inv unfolding emit_inv_def
    by (cases "ec_stream e"; cases "r = []")
       (auto simp: emit_token_def drain_def em_push_def visible_def d r delivered_def client_gone_def ts_push_def Let_def)
qed

lemma emit_all_ok:
  assumes dt: "detok_ok dt txt" and mono: "\<And>ts t. \<exists>r. txt (ts @ [t]) = txt ts @ r"
  shows "emit_inv txt e \<Longrightarrow> \<exists>e'. emit_all dt e ts = Inr e' \<and> emit_inv txt e' \<and> em_toks (ec_em e') = em_toks (ec_em e) @ ts"
proof (induction ts arbitrary: e)
  case (Cons t ts)
  obtain e' where e': "emit_token dt e t = Inr e'" "emit_inv txt e'" "em_toks (ec_em e') = em_toks (ec_em e) @ [t]"
    using emit_token_ok [OF dt mono Cons.prems] by blast
  show ?case using Cons.IH [OF e'(2)] e' by auto
qed auto

section \<open>Think blocks\<close>

lemma find_sub_first:
  assumes "c \<notin> set a" shows "find_sub (c # p) (a @ (c # p) @ s) = Some (length a)"
proof (rule find_sub_append)
  fix i assume i: "i < length a"
  then have "drop i (a @ (c # p) @ s) = a ! i # drop (Suc i) a @ (c # p) @ s" by (simp add: Cons_nth_drop_Suc)
  then show "\<not> starts_with (drop i (a @ (c # p) @ s)) (c # p)"
    using assms i by (auto simp: starts_with_def)
qed

lemma find_sub_absent: "c \<notin> set s \<Longrightarrow> find_sub (c # p) s = None"
  by (induction s) (auto simp: starts_with_def)

lemma visible_loop_closed:
  assumes "CHR ''<'' \<notin> set pre" "CHR ''<'' \<notin> set mid" "CHR ''<'' \<notin> set rest"
  shows "visible_loop (pre @ ''<think>'' @ mid @ ''</think>'' @ rest) 0 [] st =
    (if length rest < 12 then None else Some (pre @ drop 12 rest, True))"
proof -
  let ?full = "pre @ ''<think>'' @ mid @ ''</think>'' @ rest"
  let ?e = "length pre + (7 + length mid)"
  have b: "str_find ?full ''<think>'' 0 = Some (length pre)"
    using find_sub_first [OF assms(1), of "''think>''" "mid @ ''</think>'' @ rest"] by (simp add: str_find_def)
  have "find_sub ''</think>'' ((''think>'' @ mid) @ ''</think>'' @ rest) = Some (length (''think>'' @ mid))"
    using assms(2) by (intro find_sub_first) simp
  then have "find_sub ''</think>'' (''<think>'' @ mid @ ''</think>'' @ rest) = Some (7 + length mid)"
    by (simp add: starts_with_def)
  then have e: "str_find ?full ''</think>'' (length pre) = Some ?e"
    unfolding str_find_def by simp
  define A where "A = pre @ ''<think>'' @ mid @ ''</think>''"
  have A: "?full = A @ rest" "?e + 20 = length A + 12" by (simp_all add: A_def)
  have dr: "drop (?e + 20) ?full = drop 12 rest" unfolding A by simp
  have n: "str_find ?full ''<think>'' (?e + 20) = None"
  proof (cases "?e + 20 \<le> length ?full")
    case True
    have "CHR ''<'' \<notin> set (drop 12 rest)" using assms(3) by (meson in_set_dropD)
    then have "find_sub ''<think>'' (drop 12 rest) = None" by (rule find_sub_absent)
    then show ?thesis unfolding str_find_def dr by simp
  qed (simp add: str_find_def)
  have l: "?e + 20 \<le> length ?full \<longleftrightarrow> \<not> length rest < 12" unfolding A by auto
  have "visible_loop ?full 0 [] st = visible_loop ?full (?e + 20) pre True"
    by (subst visible_loop.simps) (simp only: b e option.case, simp)
  also have "\<dots> = (if length rest < 12 then None else Some (pre @ drop 12 rest, True))"
    by (subst visible_loop.simps) (simp only: n option.case dr l, simp)
  finally show ?thesis .
qed

section \<open>Event streams\<close>

text \<open>
  Interleavings of the engine thread (pushing pieces, then finishing once) with the HTTP thread (provider calls):
  the pieces pushed, the events delivered, the state.
\<close>

inductive sse_run :: "string list \<Rightarrow> sse_event list \<Rightarrow> stream_state \<Rightarrow> bool" where
  start: "sse_run [] [] new_stream_state"
| push: "sse_run ps evs st \<Longrightarrow> \<not> ts_done (st_stream st) \<Longrightarrow>
    sse_run (ps @ [s]) evs (st\<lparr>st_stream := ts_push s (st_stream st)\<rparr>)"
| finish: "sse_run ps evs st \<Longrightarrow> \<not> ts_done (st_stream st) \<Longrightarrow>
    sse_run ps evs (st\<lparr>st_stream := ts_finish ok (st_stream st), st_finish_reason := r\<rparr>)"
| provide: "sse_run ps evs st \<Longrightarrow> provider wr wr_done writable st = (open_conn, out, st') \<Longrightarrow> sse_run ps (evs @ out) st'"

fun contents :: "sse_event list \<Rightarrow> string list" where
  "contents [] = []"
| "contents (Sse_content s # evs) = s # contents evs"
| "contents (_ # evs) = contents evs"

lemma contents_append [simp]: "contents (a @ b) = contents a @ contents b"
  by (induction a rule: contents.induct) auto

definition role_ok :: "bool \<Rightarrow> sse_event list \<Rightarrow> bool" where
  "role_ok h evs \<longleftrightarrow> (if h then \<exists>r. evs = Sse_role # r else evs = [])"

definition closing :: "sse_event list \<Rightarrow> bool" where
  "closing evs \<longleftrightarrow> Sse_done \<in> set evs \<or> (\<exists>r. Sse_finish r \<in> set evs)"

definition sse_inv :: "string list \<Rightarrow> sse_event list \<Rightarrow> stream_state \<Rightarrow> bool" where
  "sse_inv ps evs st \<longleftrightarrow>
     (let ts = st_stream st in
      (\<not> ts_aborted ts \<longrightarrow> contents evs @ ts_q ts = ps \<and> role_ok (header_sent st) evs)
      \<and> (final_sent st \<longrightarrow> header_sent st)
      \<and> (final_sent st \<and> \<not> ts_aborted ts \<longrightarrow> ts_q ts = [] \<and> ts_done ts)
      \<and> (closing evs \<longrightarrow> final_sent st \<and> \<not> ts_failed ts \<and> \<not> ts_aborted ts))"

lemma provider_inv:
  assumes "sse_inv ps evs st" "provider wr wr_done writable st = (open_conn, out, st')"
  shows "sse_inv ps (evs @ out) st'"
proof (cases "final_sent st")
  case True
  with assms show ?thesis by (auto simp: provider_def)
next
  case nf: False
  show ?thesis
  proof (cases "header_sent st")
    case False
    with nf assms show ?thesis by (auto simp: provider_def sse_inv_def set_aborted_def role_ok_def closing_def Let_def split: if_splits)
  next
    case True
    show ?thesis
    proof (cases "ts_pull (st_stream st)")
      case (Pair res ts)
      then show ?thesis using nf True assms
        by (cases res) (auto simp: provider_def sse_inv_def set_aborted_def role_ok_def closing_def Let_def ts_pull_def split: if_splits list.splits)
    qed
  qed
qed

lemma sse_run_inv: "sse_run ps evs st \<Longrightarrow> sse_inv ps evs st"
proof (induction rule: sse_run.induct)
  case (provide ps evs st wr wr_done writable open_conn out st')
  then show ?case using provider_inv by blast
next
  case start
  show ?case by (simp add: sse_inv_def role_ok_def closing_def new_stream_state_def new_token_stream_def)
next
  case (push ps evs st s)
  show ?case
  proof (cases "ts_aborted (st_stream st)")
    case True
    then show ?thesis using push.IH unfolding sse_inv_def Let_def ts_push_def by simp
  next
    case False
    then have "\<not> final_sent st" "(contents evs @ ts_q (st_stream st)) @ [s] = ps @ [s]"
      using push unfolding sse_inv_def Let_def by blast+
    then show ?thesis using push.IH False unfolding sse_inv_def Let_def ts_push_def by simp
  qed
next
  case (finish ps evs st ok r)
  then show ?case unfolding sse_inv_def Let_def ts_finish_def by simp blast
qed

text \<open>Once the engine thread has finished, each provider call over a working socket hands over one more piece, then closes.\<close>

fun provider_calls :: "nat \<Rightarrow> stream_state \<Rightarrow> sse_event list \<times> stream_state" where
  "provider_calls 0 st = ([], st)"
| "provider_calls (Suc n) st =
     (let (open_conn, out, st) = provider True True True st; (evs, st) = provider_calls n st in (out @ evs, st))"

lemma provider_drains:
  "header_sent st \<Longrightarrow> \<not> final_sent st \<Longrightarrow> ts_done (st_stream st) \<Longrightarrow> \<not> ts_failed (st_stream st) \<Longrightarrow> \<not> ts_aborted (st_stream st) \<Longrightarrow>
   ts_q (st_stream st) = q \<Longrightarrow>
   fst (provider_calls (Suc (length q)) st) = map Sse_content q @ [Sse_finish (st_finish_reason st), Sse_done]"
proof (induction q arbitrary: st)
  case Nil
  then show ?case by (simp add: provider_def ts_pull_def Let_def)
next
  case (Cons s q)
  let ?st = "st\<lparr>st_stream := (st_stream st)\<lparr>ts_q := q\<rparr>\<rparr>"
  have p: "provider True True True st = (True, [Sse_content s], ?st)"
    using Cons.prems by (simp add: provider_def ts_pull_def set_aborted_def)
  have "fst (provider_calls (Suc (length q)) ?st) = map Sse_content q @ [Sse_finish (st_finish_reason st), Sse_done]"
    using Cons.IH [of ?st] Cons.prems by simp
  moreover have "fst (provider_calls (Suc (length (s # q))) st) = Sse_content s # fst (provider_calls (Suc (length q)) ?st)"
    by (subst provider_calls.simps(2)) (simp add: p split_def Let_def del: provider_calls.simps(2))
  ultimately show ?case by simp
qed

section \<open>Properties\<close>


text \<open>A tokenizer whose tokens are the characters of the text.\<close>

definition char_text :: "int list \<Rightarrow> string" where
  "char_text ts = take 1000 (map (\<lambda>t. char_of (nat t)) ts)"

definition char_detok :: detokenizer where
  "char_detok ts cap =
     (if int (length (char_text ts)) \<le> cap then (int (length (char_text ts)), char_text ts) else (- int (length (char_text ts)), []))"

lemma char_detok_ok: "detok_ok char_detok char_text"
proof -
  have "length (char_text ts) < 2147483648" for ts by (simp add: char_text_def)
  then show ?thesis by (simp add: detok_ok_def fills_def char_detok_def)
qed


text \<open>
  With thinking suppressed, a closed think block swallows the answer: the twelve characters after the
  closing tag are dropped with it, and when fewer than twelve follow, which is the case when the tag
  has just been generated, the engine thread ends in an out-of-range exception.
\<close>

theorem think_close_swallows_answer:
  assumes "strip_think em" "CHR ''<'' \<notin> set pre" "CHR ''<'' \<notin> set mid" "CHR ''<'' \<notin> set rest"
  shows "visible (pre @ ''<think>'' @ mid @ ''</think>'' @ rest) em =
    (if length rest < 12 then Inl Out_of_range
     else Inr (dropWhile think_blank (pre @ drop 12 rest), em\<lparr>em_stripped := True\<rparr>))"
  unfolding visible_def visible_loop_closed [OF assms(2-4)] using assms(1) by simp

theorem think_close_swallows_answer_witness:
  "visible ([] @ ''<think>'' @ ''hm'' @ ''</think>'' @ ''yes'') (new_emitter True) = Inl Out_of_range"
  by (subst think_close_swallows_answer) (simp_all add: new_emitter_def)



end
