(* ===== verification/Server_Run.thy ===== *)
theory Server_Run
  imports Server_Stream
begin

text \<open>
  The end of \<^verbatim>\<open>main\<close> in \<^verbatim>\<open>server/cne-server.cpp\<close>: where the engine loop runs, serving until the HTTP library returns, and the shutdown.
  The main thread, the engine thread and the HTTP threads that submit jobs are interleaved as steps between critical sections
  of the job queue; binding and listening succeed or fail as the library decides.
\<close>

section \<open>Steps\<close>

datatype main_phase = Starting | Listening | In_Engine | Stopping | Joining | Exited int | Terminated

datatype engine_phase = Not_Started | Looping | Finished

record 'j serving =
  sg_main :: main_phase
  sg_engine :: engine_phase
  sg_queue :: "'j job_queue"
  sg_submitted :: "'j list"
  sg_run :: "'j list"

definition serve_start :: "bool \<Rightarrow> 'j serving" where
  "serve_start main_engine =
     \<lparr>sg_main = Starting, sg_engine = (if main_engine then Not_Started else Looping), sg_queue = \<lparr>jobs = [], jobs_stop = False\<rparr>,
      sg_submitted = [], sg_run = []\<rparr>"

text \<open>Returning from \<^verbatim>\<open>main\<close> with a joinable thread object ends in \<^verbatim>\<open>std::terminate\<close>.\<close>

definition leave_main :: "int \<Rightarrow> 'j serving \<Rightarrow> 'j serving" where
  "leave_main code s = s\<lparr>sg_main := (if sg_engine s = Not_Started then Exited code else Terminated)\<rparr>"

definition request_stop :: "'j serving \<Rightarrow> 'j serving" where
  "request_stop s = s\<lparr>sg_queue := (sg_queue s)\<lparr>jobs_stop := True\<rparr>\<rparr>"

definition run_job :: "'j \<Rightarrow> 'j job_queue \<Rightarrow> 'j serving \<Rightarrow> 'j serving" where
  "run_job f q s = s\<lparr>sg_queue := q, sg_run := sg_run s @ [f]\<rparr>"

inductive serve_step :: "bool \<Rightarrow> 'j serving \<Rightarrow> 'j serving \<Rightarrow> bool" for main_engine where
  bind_fails: "\<lbrakk>main_engine; sg_main s = Starting\<rbrakk> \<Longrightarrow> serve_step main_engine s (leave_main 1 s)"
| bind_ok: "\<lbrakk>main_engine; sg_main s = Starting\<rbrakk> \<Longrightarrow> serve_step main_engine s (s\<lparr>sg_main := In_Engine\<rparr>)"
| listen_fails: "\<lbrakk>\<not> main_engine; sg_main s \<in> {Starting, Listening}\<rbrakk> \<Longrightarrow> serve_step main_engine s (leave_main 1 s)"
| listen_ok: "\<lbrakk>\<not> main_engine; sg_main s = Starting\<rbrakk> \<Longrightarrow> serve_step main_engine s (s\<lparr>sg_main := Listening\<rparr>)"
| listen_ends: "sg_main s = Listening \<Longrightarrow> serve_step main_engine s (s\<lparr>sg_main := Stopping\<rparr>)"
| submit: "sg_main s \<in> {Listening, In_Engine} \<Longrightarrow>
    serve_step main_engine s (s\<lparr>sg_queue := submit_job f (sg_queue s), sg_submitted := sg_submitted s @ [f]\<rparr>)"
| main_runs: "\<lbrakk>sg_main s = In_Engine; engine_take (sg_queue s) = (Run f, q)\<rbrakk> \<Longrightarrow> serve_step main_engine s (run_job f q s)"
| main_leaves: "\<lbrakk>sg_main s = In_Engine; engine_take (sg_queue s) = (Exit, q)\<rbrakk> \<Longrightarrow>
    serve_step main_engine s (request_stop (s\<lparr>sg_main := Stopping\<rparr>))"
| stop: "sg_main s = Stopping \<Longrightarrow> serve_step main_engine s (request_stop (s\<lparr>sg_main := Joining\<rparr>))"
| engine_runs: "\<lbrakk>sg_engine s = Looping; sg_main s \<noteq> Terminated; engine_take (sg_queue s) = (Run f, q)\<rbrakk> \<Longrightarrow> serve_step main_engine s (run_job f q s)"
| engine_leaves: "\<lbrakk>sg_engine s = Looping; sg_main s \<noteq> Terminated; engine_take (sg_queue s) = (Exit, q)\<rbrakk> \<Longrightarrow>
    serve_step main_engine s (s\<lparr>sg_engine := Finished\<rparr>)"
| join: "\<lbrakk>sg_main s = Joining; sg_engine s \<noteq> Looping\<rbrakk> \<Longrightarrow> serve_step main_engine s (s\<lparr>sg_main := Exited 0\<rparr>)"

inductive_cases serve_stepE: "serve_step m s s'"

abbreviation serve_reach :: "bool \<Rightarrow> 'j serving \<Rightarrow> bool" where
  "serve_reach m \<equiv> (serve_step m)\<^sup>*\<^sup>* (serve_start m)"

section \<open>Invariants\<close>

text \<open>No job is lost or run twice, and the order of submission is kept.\<close>

definition jobs_inv :: "'j serving \<Rightarrow> bool" where
  "jobs_inv s = (sg_submitted s = sg_run s @ jobs (sg_queue s))"

text \<open>The phases of each topology.\<close>

definition side_inv :: "'j serving \<Rightarrow> bool" where
  "side_inv s \<longleftrightarrow>
     sg_engine s \<in> {Looping, Finished} \<and> sg_main s \<noteq> In_Engine
     \<and> (sg_engine s = Finished \<longrightarrow> jobs (sg_queue s) = [] \<and> sg_main s \<in> {Joining, Exited 0})
     \<and> (\<forall>c. sg_main s = Exited c \<longrightarrow> c = 0 \<and> sg_engine s = Finished)
     \<and> (jobs_stop (sg_queue s) \<longleftrightarrow> sg_main s \<in> {Joining, Exited 0})"

definition main_inv :: "'j serving \<Rightarrow> bool" where
  "main_inv s \<longleftrightarrow> sg_engine s = Not_Started \<and> sg_main s \<in> {Starting, In_Engine, Exited 1} \<and> \<not> jobs_stop (sg_queue s)"

lemma engine_takeE:
  assumes "engine_take g = (w, q)"
  obtains "w = Blocked" "q = g" "jobs g = []" "\<not> jobs_stop g"
  | "w = Exit" "q = g" "jobs g = []" "jobs_stop g"
  | f where "w = Run f" "jobs g = f # jobs q" "jobs_stop q = jobs_stop g"
  using assms by (auto simp: engine_take_def split: if_splits list.splits)

lemma jobs_inv_step: "serve_step m s s' \<Longrightarrow> jobs_inv s \<Longrightarrow> jobs_inv s'"
  by (induction rule: serve_step.induct)
     (auto simp: jobs_inv_def leave_main_def request_stop_def run_job_def submit_job_def elim: engine_takeE)

lemma side_inv_step: "serve_step False s s' \<Longrightarrow> side_inv s \<Longrightarrow> side_inv s'"
  by (erule serve_stepE)
     (auto simp: side_inv_def leave_main_def request_stop_def run_job_def submit_job_def elim!: engine_takeE)

lemma main_inv_step: "serve_step True s s' \<Longrightarrow> main_inv s \<Longrightarrow> main_inv s'"
  by (erule serve_stepE)
     (auto simp: main_inv_def leave_main_def request_stop_def run_job_def submit_job_def elim!: engine_takeE)

lemma reach_invariant:
  assumes "serve_reach m s" "I (serve_start m)" "\<And>s s'. serve_step m s s' \<Longrightarrow> I s \<Longrightarrow> I s'"
  shows "I s"
  using assms(1) by (induction rule: rtranclp_induct) (auto intro: assms(2,3))

lemma jobs_inv_reach: "serve_reach m s \<Longrightarrow> jobs_inv s"
  by (erule reach_invariant) (auto simp: jobs_inv_def serve_start_def intro: jobs_inv_step [unfolded jobs_inv_def])

lemma side_inv_reach: "serve_reach False s \<Longrightarrow> side_inv s"
  by (erule reach_invariant) (simp_all add: side_inv_step, simp add: side_inv_def serve_start_def)

lemma main_inv_reach: "serve_reach True s \<Longrightarrow> main_inv s"
  by (erule reach_invariant) (simp_all add: main_inv_step, simp add: main_inv_def serve_start_def)

text \<open>The steps a shutdown has left.\<close>

definition steps_left :: "'j serving \<Rightarrow> nat" where
  "steps_left s = (if sg_main s = Joining then 1 else 0) + (if sg_engine s = Looping then Suc (length (jobs (sg_queue s))) else 0)"

definition winding_down :: "'j serving \<Rightarrow> bool" where
  "winding_down s = (side_inv s \<and> jobs_inv s \<and> sg_main s \<in> {Joining, Exited 0})"

lemma winding_down_step:
  assumes "serve_step False s s'" "winding_down s"
  shows "winding_down s' \<and> Suc (steps_left s') = steps_left s \<and> sg_submitted s' = sg_submitted s"
proof -
  have "side_inv s'" "jobs_inv s'" using assms side_inv_step jobs_inv_step by (auto simp: winding_down_def)
  moreover have "sg_main s' \<in> {Joining, Exited 0} \<and> Suc (steps_left s') = steps_left s \<and> sg_submitted s' = sg_submitted s"
    using assms(1)
  proof (rule serve_stepE)
  qed (use assms(2) in \<open>auto elim!: engine_takeE simp: winding_down_def side_inv_def steps_left_def leave_main_def request_stop_def run_job_def\<close>)
  ultimately show ?thesis by (simp add: winding_down_def)
qed

lemma winding_down_run:
  "(serve_step False ^^ n) s s' \<Longrightarrow> winding_down s \<Longrightarrow> winding_down s' \<and> n + steps_left s' = steps_left s \<and> sg_submitted s' = sg_submitted s"
proof (induction n arbitrary: s')
  case (Suc n)
  obtain u where u: "(serve_step False ^^ n) s u" "serve_step False u s'" using Suc.prems(1) by auto
  show ?case using Suc.IH [OF u(1) Suc.prems(2)] winding_down_step [OF u(2)] by auto
qed simp

lemma winding_down_enabled:
  assumes "winding_down s"
  shows "(\<exists>s'. serve_step False s s') \<or> sg_main s = Exited 0 \<and> sg_run s = sg_submitted s"
proof (cases "sg_engine s = Looping")
  case True
  have j: "sg_main s = Joining" "jobs_stop (sg_queue s)" using assms True by (auto simp: winding_down_def side_inv_def)
  obtain w q where t: "engine_take (sg_queue s) = (w, q)" by (cases "engine_take (sg_queue s)") auto
  then have "w \<noteq> Blocked" using j(2) by (auto elim: engine_takeE)
  moreover have "sg_main s \<noteq> Terminated" using j(1) by simp
  ultimately have "\<exists>s'. serve_step False s s'"
    using t True by (cases w) (blast intro: engine_runs engine_leaves)+
  then show ?thesis ..
next
  case False
  then have f: "sg_engine s = Finished" "jobs (sg_queue s) = []" "sg_run s = sg_submitted s"
    using assms by (auto simp: winding_down_def side_inv_def jobs_inv_def)
  have "sg_main s = Joining \<or> sg_main s = Exited 0" using assms by (simp add: winding_down_def)
  then show ?thesis using join [of s False] False f(3) by blast
qed

lemma listen_failure_terminates: "serve_step False (serve_start False) s' \<Longrightarrow> sg_main s' \<in> {Terminated, Listening}"
  by (erule serve_stepE) (auto simp: serve_start_def leave_main_def run_job_def engine_take_def)

section \<open>Properties\<close>


text \<open>
  With \<^verbatim>\<open>CNE_MAIN_ENGINE\<close> the shutdown is never reached: once the main thread serves as the engine, no
  interleaving takes it out of the engine loop, because the stop request that ends the loop comes after it.
\<close>

theorem main_engine_never_stops:
  assumes "serve_reach True s" "sg_main s = In_Engine" "(serve_step True)\<^sup>*\<^sup>* s s'"
  shows "sg_main s' = In_Engine \<and> \<not> jobs_stop (sg_queue s')"
  using assms(3)
proof (induction rule: rtranclp_induct)
  case base
  show ?case using assms(1,2) main_inv_reach by (auto simp: main_inv_def)
next
  case (step u v)
  have "main_inv u" by (rule main_inv_reach) (rule rtranclp_trans [OF assms(1) step.hyps(1)])
  then have "main_inv v" using main_inv_step [OF step.hyps(2)] by simp
  then show ?case using step.IH step.hyps(2)
    by (auto elim!: serve_stepE engine_takeE simp: main_inv_def leave_main_def request_stop_def run_job_def)
qed

lemma demo_joining: "\<exists>s. serve_reach False s \<and> sg_main s = Joining \<and> sg_submitted s = [1 :: nat, 2] \<and> length (jobs (sg_queue s)) = 2
  \<and> (serve_step False ^^ 0) s s"
proof -
  let ?s0 = "serve_start False :: nat serving"
  let ?s1 = "?s0\<lparr>sg_main := Listening\<rparr>"
  let ?sub = "\<lambda>f s. s\<lparr>sg_queue := submit_job f (sg_queue s), sg_submitted := sg_submitted s @ [f]\<rparr> :: nat serving"
  let ?s3 = "?sub 2 (?sub 1 ?s1)"
  let ?s4 = "?s3\<lparr>sg_main := Stopping\<rparr>"
  have "serve_step False ?s0 ?s1" by (rule listen_ok) (simp_all add: serve_start_def)
  moreover have "serve_step False ?s1 (?sub 1 ?s1)" by (rule submit) simp
  moreover have "serve_step False (?sub 1 ?s1) ?s3" by (rule submit) simp
  moreover have "serve_step False ?s3 ?s4" by (rule listen_ends) simp
  moreover have "serve_step False ?s4 (request_stop (?s4\<lparr>sg_main := Joining\<rparr>))" by (rule stop) simp
  ultimately have "serve_reach False (request_stop (?s4\<lparr>sg_main := Joining\<rparr>))" by (meson rtranclp.rtrancl_into_rtrancl rtranclp.rtrancl_refl)
  then show ?thesis by (intro exI conjI) (assumption, simp_all add: request_stop_def serve_start_def submit_job_def)
qed


theorem main_engine_never_stops_witness:
  "serve_reach True ((serve_start True :: nat serving)\<lparr>sg_main := In_Engine\<rparr>)
   \<and> \<not> jobs_stop (sg_queue ((serve_start True :: nat serving)\<lparr>sg_main := In_Engine\<rparr>))"
proof -
  have "serve_step True (serve_start True) ((serve_start True :: nat serving)\<lparr>sg_main := In_Engine\<rparr>)"
    by (rule bind_ok) (simp_all add: serve_start_def)
  then have r: "serve_reach True ((serve_start True :: nat serving)\<lparr>sg_main := In_Engine\<rparr>)" by (rule r_into_rtranclp)
  show ?thesis using r main_engine_never_stops [OF r, of "(serve_start True)\<lparr>sg_main := In_Engine\<rparr>"] by simp
qed

end
