(* ===== verification/Knobs.thy ===== *)
theory Knobs
  imports Config Stream_Gate
begin

text \<open>
  How the drivers read their knobs: the recurring shapes \<^verbatim>\<open>env("X")\<close> and \<^verbatim>\<open>env("X") ? f(env("X")) : d\<close> over the
  cached lookup of \<^verbatim>\<open>cne::env\<close>, and the C conversions they apply (\<^verbatim>\<open>atoll\<close>, \<^verbatim>\<open>strtod\<close>, \<^verbatim>\<open>atof\<close>, a cast to \<^verbatim>\<open>float\<close>). A
  computation over the knobs threads the cache and is \<open>None\<close> where it dereferences a null pointer.
\<close>

section \<open>Lookups\<close>

type_synonym 'a knob = "resolved \<Rightarrow> ('a \<times> resolved) option"

definition ret_knob :: "'a \<Rightarrow> 'a knob" where
  "ret_knob x r = Some (x, r)"

definition then_knob :: "'a knob \<Rightarrow> ('a \<Rightarrow> 'b knob) \<Rightarrow> 'b knob" where
  "then_knob m f r = (case m r of None \<Rightarrow> None | Some (x, r) \<Rightarrow> f x r)"

definition env_get :: "environ \<Rightarrow> string \<Rightarrow> string option knob" where
  "env_get getenv name r = Some (env getenv r name)"

text \<open>The test and the use are two lookups, and the second pointer is not tested again.\<close>

definition env_or :: "environ \<Rightarrow> string \<Rightarrow> (string \<Rightarrow> 'a) \<Rightarrow> 'a \<Rightarrow> 'a knob" where
  "env_or getenv name f d r =
     (case env getenv r name of
        (None, r) \<Rightarrow> Some (d, r)
      | (Some _, r) \<Rightarrow>
          (case env getenv r name of
             (None, r) \<Rightarrow> None
           | (Some v, r) \<Rightarrow> Some (f v, r)))"

section \<open>Conversions\<close>

definition atoll :: "string \<Rightarrow> int" where
  "atoll s = strtol s"

definition dec_digit :: "char \<Rightarrow> nat option" where
  "dec_digit c = (if is_digit c then Some (digit_val c) else None)"

definition hex_digit :: "char \<Rightarrow> nat option" where
  "hex_digit c =
     (let n = (of_char (to_lower c) :: nat)
      in if is_digit c then Some (digit_val c) else if 97 \<le> n \<and> n \<le> 102 then Some (n - 87) else None)"

definition rpow :: "rat \<Rightarrow> int \<Rightarrow> rat" where
  "rpow b e = (if 0 \<le> e then b ^ nat e else 1 / b ^ nat (- e))"

text \<open>An exponent counts only with at least one digit.\<close>

definition scan_exp :: "char \<Rightarrow> string \<Rightarrow> int \<times> string" where
  "scan_exp ech s =
     (case s of
        [] \<Rightarrow> (0, s)
      | c # t \<Rightarrow>
          if to_lower c \<noteq> ech then (0, s)
          else let (neg, u) = (case t of [] \<Rightarrow> (False, t)
                               | d # q \<Rightarrow> if d = CHR ''-'' then (True, q) else if d = CHR ''+'' then (False, q) else (False, t));
                   ds = takeWhile is_digit u; n = int (digits_val 0 ds)
               in if ds = [] then (0, s) else (if neg then - n else n, dropWhile is_digit u))"

definition scan_float :: "(char \<Rightarrow> nat option) \<Rightarrow> nat \<Rightarrow> char \<Rightarrow> rat \<Rightarrow> string \<Rightarrow> (fpv \<times> string) option" where
  "scan_float dv base ech scale u =
     (let isd = (\<lambda>c. dv c \<noteq> None); ip = takeWhile isd u; r = dropWhile isd u;
          (fp, r) = (case r of [] \<Rightarrow> ([], r)
                     | c # q \<Rightarrow> if c = CHR ''.'' then (takeWhile isd q, dropWhile isd q) else ([], r))
      in if ip @ fp = [] then None
         else let (ex, r) = scan_exp ech r; m = foldl (\<lambda>a c. base * a + the (dv c)) 0 (ip @ fp)
              in Some (round64 (of_nat m / of_nat (base ^ length fp) * rpow scale ex), r))"

definition prefix_ci :: "string \<Rightarrow> string \<Rightarrow> bool" where
  "prefix_ci s p = starts_with (map to_lower s) p"

text \<open>The optional \<^verbatim>\<open>(n-char-sequence)\<close> of a NaN.\<close>

definition nan_tail :: "string \<Rightarrow> string" where
  "nan_tail s =
     (case s of
        [] \<Rightarrow> s
      | c # t \<Rightarrow>
          if c \<noteq> CHR ''('' then s
          else let w = (\<lambda>c. hex_digit c \<noteq> None \<or> c = CHR ''_'' \<or> (let n = (of_char (to_lower c) :: nat) in 97 \<le> n \<and> n \<le> 122))
               in (case dropWhile w t of [] \<Rightarrow> s | d # q \<Rightarrow> if d = CHR '')'' then q else s))"

definition scan_unsigned :: "string \<Rightarrow> (fpv \<times> string) option" where
  "scan_unsigned u =
     (if prefix_ci u ''infinity'' then Some (Inf False, drop 8 u)
      else if prefix_ci u ''inf'' then Some (Inf False, drop 3 u)
      else if prefix_ci u ''nan'' then Some (NaN, nan_tail (drop 3 u))
      else let d = scan_float dec_digit 10 CHR ''e'' 10 u
           in if prefix_ci u ''0x''
              then (case scan_float hex_digit 16 CHR ''p'' 2 (drop 2 u) of None \<Rightarrow> d | Some x \<Rightarrow> Some x)
              else d)"

fun fneg :: "fpv \<Rightarrow> fpv" where
  "fneg (Fin x) = Fin (- x)"
| "fneg (Inf b) = Inf (\<not> b)"
| "fneg NaN = NaN"

text \<open>\<^verbatim>\<open>strtod\<close>: the value and the text at \<^verbatim>\<open>*end\<close>, the whole text when nothing was converted.\<close>

definition strtod :: "string \<Rightarrow> fpv \<times> string" where
  "strtod s =
     (let t = dropWhile is_space s;
          (neg, u) = (case t of [] \<Rightarrow> (False, t)
                      | c # q \<Rightarrow> if c = CHR ''-'' then (True, q) else if c = CHR ''+'' then (False, q) else (False, t))
      in case scan_unsigned u of
           None \<Rightarrow> (Fin 0, s)
         | Some (v, rest) \<Rightarrow> (if neg then fneg v else v, rest))"

definition atof :: "string \<Rightarrow> fpv" where
  "atof s = fst (strtod s)"

text \<open>\<^verbatim>\<open>(float) d\<close>: rounding to binary32.\<close>

fun to_float :: "fpv \<Rightarrow> fpv" where
  "to_float (Fin x) =
     (if x = 0 then Fin 0
      else let e = max (flog2 \<bar>x\<bar> - 23) (-149); r = pow2 e * of_int (rne (\<bar>x\<bar> / pow2 e))
           in if flog2 r \<ge> 128 then Inf (x < 0) else Fin (if x < 0 then - r else r))"
| "to_float (Inf b) = Inf b"
| "to_float NaN = NaN"

section \<open>What a knob computation yields\<close>

text \<open>
  \<open>knob_value\<close> is the value the precedence rule promises. \<open>yields\<close>: from every cache the lookups can have left, the computation
  returns that value and leaves such a cache.
\<close>

definition knob_value :: "environ \<Rightarrow> string \<Rightarrow> string option" where
  "knob_value getenv name = (case getenv (''CNE_'' @ name) of Some v \<Rightarrow> Some v | None \<Rightarrow> getenv (''SOE_'' @ name))"

definition no_empty_knob :: "environ \<Rightarrow> bool" where
  "no_empty_knob getenv \<longleftrightarrow> (\<forall>name. getenv (''CNE_'' @ name) \<noteq> Some [])"

definition yields :: "environ \<Rightarrow> 'a knob \<Rightarrow> 'a \<Rightarrow> bool" where
  "yields getenv m x \<longleftrightarrow> (\<forall>r. resolved_ok getenv r \<longrightarrow> (\<exists>r'. m r = Some (x, r') \<and> resolved_ok getenv r'))"

named_theorems knob_yields \<open>values of knob computations\<close>

lemma env_knob_value:
  assumes "resolved_ok getenv r" "no_empty_knob getenv"
  obtains r' where "env getenv r name = (knob_value getenv name, r')" "resolved_ok getenv r'"
  using env_fst [OF assms(1), of name] resolved_ok_env [OF assms(1), of name] assms(2)
  by (cases "env getenv r name") (auto simp: knob_value_def no_empty_knob_def)

lemma yields_ret [knob_yields]: "yields getenv (ret_knob x) x"
  by (simp add: yields_def ret_knob_def)

lemma yields_get [knob_yields]:
  assumes "no_empty_knob getenv"
  shows "yields getenv (env_get getenv name) (knob_value getenv name)"
  unfolding yields_def env_get_def by (metis assms env_knob_value)

lemma yields_or [knob_yields]:
  assumes "no_empty_knob getenv"
  shows "yields getenv (env_or getenv name f d) (case knob_value getenv name of None \<Rightarrow> d | Some v \<Rightarrow> f v)"
  unfolding yields_def
proof (intro allI impI)
  fix r assume r: "resolved_ok getenv r"
  obtain r1 where 1: "env getenv r name = (knob_value getenv name, r1)" "resolved_ok getenv r1"
    using env_knob_value [OF r assms] .
  obtain r2 where 2: "env getenv r1 name = (knob_value getenv name, r2)" "resolved_ok getenv r2"
    using env_knob_value [OF 1(2) assms] .
  show "\<exists>r'. env_or getenv name f d r = Some (case knob_value getenv name of None \<Rightarrow> d | Some v \<Rightarrow> f v, r') \<and> resolved_ok getenv r'"
    using 1 2 by (cases "knob_value getenv name") (simp_all add: env_or_def)
qed

lemma yields_then:
  assumes "yields getenv m x" "yields getenv (f x) y"
  shows "yields getenv (then_knob m f) y"
  using assms unfolding yields_def then_knob_def by fastforce

lemma yieldsE:
  assumes "yields getenv m x" "resolved_ok getenv r"
  obtains r' where "m r = Some (x, r')" "resolved_ok getenv r'"
  using assms unfolding yields_def by blast

text \<open>The two-lookup shape crashes on a knob that is set to the empty string.\<close>

lemma env_or_empty_crashes:
  assumes "getenv (''CNE_'' @ name) = Some []"
  shows "env_or getenv name f d Map.empty = None"
  using assms by (simp add: env_or_def env_def)

end
