(* ===== verification/Runtime_Boot.thy ===== *)
theory Runtime_Boot
  imports Knobs Budget Stream_Serve
begin

text \<open>
  \<^verbatim>\<open>runtime/cne_runtime.cpp\<close>: the start-up both drivers share, from the model file to a serving stream and a llama.cpp
  context. The machine and the llama.cpp library are the record \<open>machine\<close>; \<open>b_mem i\<close> is the memory reading of
  the i-th \<^verbatim>\<open>MemoryBudget::detect\<close>. Every lookup of a knob happens in the order of the code, over the cache of theory \<open>Config\<close>.
\<close>

section \<open>The machine\<close>

record context_params =
  cp_n_ctx :: int
  cp_n_batch :: int
  cp_n_ubatch :: int
  cp_n_threads :: int
  cp_n_threads_batch :: int
  cp_kv_q8 :: bool
  cp_flash_attn :: bool
  cp_n_outputs_max :: u32
  cp_n_outputs_max_per_seq :: u32
  cp_n_seq_max :: u32
  cp_kv_unified :: bool

record machine =
  b_getenv :: environ
  b_mem :: "nat \<Rightarrow> (u64 \<times> u64) option \<times> string"
  b_sort :: "raw_tensor list \<Rightarrow> raw_tensor list"
  b_max_size :: u64
  b_file :: "string \<Rightarrow> u8 list option"
  b_fopen :: "string \<Rightarrow> nat option"
  b_open :: "bool \<Rightarrow> errno + nat"
  b_kernel :: kernel
  b_host :: host
  b_load :: "string \<Rightarrow> bool \<Rightarrow> bool"
  b_defaults :: context_params
  b_output_limits :: "int \<Rightarrow> int \<Rightarrow> int \<Rightarrow> u32 \<times> u32"
  b_init :: "context_params \<Rightarrow> bool"
  b_scan :: "stream \<Rightarrow> stream"
  b_trim :: "stream \<Rightarrow> (u64 \<times> u64) list"

definition detect_at :: "machine \<Rightarrow> nat \<Rightarrow> memory_budget" where
  "detect_at B i = detect (fst (b_mem B i)) (snd (b_mem B i))"

record runtime_settings =
  rs_model_path :: string
  rs_cap_gib :: u64
  rs_n_ctx :: int
  rs_n_threads :: int
  rs_stream_on :: bool

datatype dense_policy = MMAP | WARM | ANON

record runtime =
  rt_manifest :: model_manifest
  rt_cache_cap :: u64
  rt_regime_str :: string
  rt_dense :: dense_policy
  rt_odirect :: bool
  rt_streaming :: bool
  rt_l2_mass :: fpv
  rt_mtp_k :: int
  rt_n_ctx :: int
  rt_ctx :: "context_params option"

datatype boot_error = Manifest_failed string | Warm_open_failed

section \<open>Stages 1 and 2: \<^verbatim>\<open>runtime_prepare\<close>\<close>

definition dense_bytes :: "model_manifest \<Rightarrow> u64" where
  "dense_bytes mf = sum_list (map bytes_total (filter (\<lambda>ti. ti_kind ti \<noteq> ROUTED_EXPERT) (mf_tensors mf)))"

definition choose_dense :: "string \<Rightarrow> regime \<Rightarrow> u64 \<Rightarrow> u64 \<Rightarrow> dense_policy" where
  "choose_dense d rg available dense =
     (if d = [] then (if rg \<noteq> R0_RESIDENT \<and> available > dense * 2 then ANON else MMAP)
      else if d = ''warm'' then WARM
      else if d = ''anon'' then ANON
      else MMAP)"

definition dense_stage :: "machine \<Rightarrow> model_manifest \<Rightarrow> (regime \<times> dense_policy) knob" where
  "dense_stage B mf =
     then_knob (env_get (b_getenv B) ''DENSE'') (\<lambda>dp.
       let d = (case dp of None \<Rightarrow> [] | Some d \<Rightarrow> d);
           available = mem_available (detect_at B 0);
           rg = classify (file_size mf) available
       in ret_knob (rg, choose_dense d rg available (dense_bytes mf)))"

definition runtime_budget :: "machine \<Rightarrow> dense_policy \<Rightarrow> model_manifest \<Rightarrow> memory_budget" where
  "runtime_budget B dense mf =
     (detect_at B 1)\<lparr>kv := 64 * 2 ^ 20, staging := 64 * 2 ^ 20,
        runtime_base := 512 * 2 ^ 20 + (if dense = ANON then dense_bytes mf else 0)\<rparr>"

definition effective_cap :: "machine \<Rightarrow> dense_policy \<Rightarrow> model_manifest \<Rightarrow> u64 \<Rightarrow> u64" where
  "effective_cap B dense mf cap_gib = clamp_cache_cap (runtime_budget B dense mf) (push_bit 30 cap_gib)"

text \<open>A NaN passes the validity test: both comparisons are false.\<close>

definition mass_invalid :: "fpv \<Rightarrow> bool" where
  "mass_invalid m \<longleftrightarrow> fge (Fin 0) m \<or> fge m (Fin 1) \<and> \<not> fge (Fin 1) m"

definition mass_stage :: "machine \<Rightarrow> fpv knob" where
  "mass_stage B =
     then_knob (env_or (b_getenv B) ''EXPERT_MASS'' (\<lambda>v. Some (to_float (atof v))) None) (\<lambda>m.
       case m of
         None \<Rightarrow> ret_knob (Fin 0)
       | Some m \<Rightarrow>
           then_knob (env_or (b_getenv B) ''EXPERT_MIN_K'' atoi 2) (\<lambda>k. ret_knob (if mass_invalid m then Fin 0 else m)))"

definition prefetch_stage :: "machine \<Rightarrow> pf_mode knob" where
  "prefetch_stage B =
     then_knob (env_get (b_getenv B) ''PREFETCH'') (\<lambda>pf.
       let pfs = (case pf of None \<Rightarrow> [] | Some v \<Rightarrow> v)
       in ret_knob (if pfs = ''1'' \<or> pfs = ''lookahead'' then PF_LOOKAHEAD else if pfs = ''full'' then PF_FULL else PF_OFF))"

definition stream_stage :: "machine \<Rightarrow> bool \<Rightarrow> fpv \<Rightarrow> pf_mode \<Rightarrow> stream_config knob" where
  "stream_stage B stream_on mass pf =
     then_knob (env_get (b_getenv B) ''FULL_FILL'') (\<lambda>full.
     then_knob (env_get (b_getenv B) ''STEP_FILLS'') (\<lambda>_.
     then_knob (env_or (b_getenv B) ''EXPERT_MIN_K'' atoi 2) (\<lambda>k.
       ret_knob \<lparr>cfg_rebind = stream_on, cfg_full_fill = (full \<noteq> None), cfg_l2_mass = mass, cfg_l2_min_k = k, cfg_pf_mode = pf\<rparr>)))"

text \<open>
  Paging the dense tensors in: reads of at most a MiB until the tensor is read or a read comes short; a file of \<open>len\<close> bytes gives
  what it has. The result is the number of bytes read in full chunks.
\<close>

function warm_tensor :: "nat \<Rightarrow> nat \<Rightarrow> nat \<Rightarrow> nat" where
  "warm_tensor len pos left =
     (if left = 0 then 0
      else let c = (if left < 2 ^ 20 then left else 2 ^ 20)
           in if min c (len - pos) \<noteq> c then 0 else c + warm_tensor len (pos + c) (left - c))"
  by pat_completeness auto
termination
  by (relation "measure (\<lambda>(len, pos, left). left)") auto

declare warm_tensor.simps [simp del]

definition warm_dense :: "nat \<Rightarrow> model_manifest \<Rightarrow> nat" where
  "warm_dense len mf =
     sum_list (map (\<lambda>ti. if sint (abs_offset ti) < 0 then 0 else warm_tensor len (unat (abs_offset ti)) (unat (bytes_total ti)))
       (filter (\<lambda>ti. ti_kind ti \<noteq> ROUTED_EXPERT) (mf_tensors mf)))"

definition runtime_prepare :: "machine \<Rightarrow> runtime_settings \<Rightarrow> stream \<Rightarrow> (boot_error + runtime \<times> stream) knob" where
  "runtime_prepare B s st =
     (case registry_build (b_sort B) (b_max_size B) (rs_model_path s) (b_file B (rs_model_path s)) of
        Inl msg \<Rightarrow> ret_knob (Inl (Manifest_failed msg))
      | Inr mf \<Rightarrow>
          then_knob (dense_stage B mf) (\<lambda>(rg, dense).
          let cap = effective_cap B dense mf (rs_cap_gib s) in
          then_knob (mass_stage B) (\<lambda>mass.
          then_knob (prefetch_stage B) (\<lambda>pf.
          then_knob (stream_stage B (rs_stream_on s) mass pf) (\<lambda>cfg.
          let st = stream_init st mf (new_slice_cache cap (smem st)) cfg in
          then_knob (env_or (b_getenv B) ''LANES'' atoi 4) (\<lambda>lanes.
          case stream_open_fill_backend (b_open B) (b_kernel B) st of
            None \<Rightarrow> (\<lambda>r. None)
          | Some (odirect, st) \<Rightarrow>
              ret_knob
                (if dense = WARM \<and> b_fopen B (rs_model_path s) = None then Inl Warm_open_failed
                 else Inr (\<lparr>rt_manifest = mf, rt_cache_cap = cap, rt_regime_str = regime_name rg, rt_dense = dense,
                            rt_odirect = odirect, rt_streaming = rs_stream_on s, rt_l2_mass = mass, rt_mtp_k = 0,
                            rt_n_ctx = 0, rt_ctx = None\<rparr>, st))))))))"

section \<open>Stage 3: \<^verbatim>\<open>runtime_load_llama\<close>\<close>

definition mtp_stage :: "machine \<Rightarrow> int knob" where
  "mtp_stage B = then_knob (env_or (b_getenv B) ''MTP'' atoi 0) (\<lambda>k. ret_knob (if k < 0 then 0 else k))"

text \<open>\<^verbatim>\<open>spec_mtp_size_outputs\<close> of \<^verbatim>\<open>runtime/cne_stream_spec.cpp\<close>.\<close>

definition spec_mtp_size_outputs :: "machine \<Rightarrow> context_params \<Rightarrow> int \<Rightarrow> int \<Rightarrow> context_params" where
  "spec_mtp_size_outputs B cp n_max nb =
     (let lim = b_output_limits B nb 1 n_max in cp\<lparr>cp_n_outputs_max := fst lim, cp_n_outputs_max_per_seq := snd lim\<rparr>)"

definition context_stage :: "machine \<Rightarrow> runtime_settings \<Rightarrow> int \<Rightarrow> context_params knob" where
  "context_stage B s mtp =
     then_knob (env_or (b_getenv B) ''CTX'' atoi (rs_n_ctx s)) (\<lambda>ctx.
     let ctx_size = (if ctx < 64 then 64 else ctx) in
     then_knob (env_or (b_getenv B) ''THREADS'' atoi (rs_n_threads s)) (\<lambda>n.
     let n_threads = (if n < 1 then 1 else n) in
     then_knob (env_get (b_getenv B) ''KV_Q8'') (\<lambda>q8.
     then_knob (env_get (b_getenv B) ''FA'') (\<lambda>fa.
     let cp = (b_defaults B)\<lparr>cp_n_ctx := ctx_size, cp_n_batch := (if ctx_size < 512 then ctx_size else 512), cp_n_ubatch := 64,
                 cp_n_threads := n_threads, cp_n_threads_batch := n_threads,
                 cp_kv_q8 := (if q8 \<noteq> None then True else cp_kv_q8 (b_defaults B)), cp_flash_attn := (fa \<noteq> None)\<rparr>;
         cp = (if mtp > 0 then spec_mtp_size_outputs B cp mtp (cp_n_batch cp) else cp) in
     then_knob (env_get (b_getenv B) ''SESSION_MAX'') (\<lambda>sm.
     let n_seq_max = (case sm of None \<Rightarrow> 1 | Some v \<Rightarrow> if atoi v > 1 then word_of_int (atoi v) else 1)
     in ret_knob (cp\<lparr>cp_n_seq_max := n_seq_max,
                     cp_kv_unified := (if n_seq_max > 1 then False else cp_kv_unified cp)\<rparr>))))))"

text \<open>The KV estimate that is logged, and whether the warning is printed.\<close>

definition kv_stage :: "machine \<Rightarrow> model_manifest \<Rightarrow> context_params \<Rightarrow> (serving_kv_estimate \<times> bool) knob" where
  "kv_stage B mf cp =
     then_knob (env_get (b_getenv B) ''KV_BPT'') (\<lambda>kbpt.
     let n = uint (cp_n_seq_max cp);
         est = serving_kv_default\<lparr>n_ctx := cp_n_ctx cp, n_seq_max := n,
                 n_ctx_per_seq := (if n > 0 then cp_n_ctx cp div n else cp_n_ctx cp)\<rparr>;
         est = (case kbpt of None \<Rightarrow> est | Some v \<Rightarrow> if atoi v > 0 then est\<lparr>bytes_per_token := word_of_int (atoi v)\<rparr> else est);
         rg = classify (file_size mf) (mem_available (detect_at B 2));
         resident = (if rg = R0_RESIDENT then file_size mf else 0)
     in ret_knob (est, serving_kv_exceeds_headroom est (detect_at B 3) resident))"

definition anon_stage :: "machine \<Rightarrow> runtime \<Rightarrow> stream \<Rightarrow> stream" where
  "anon_stage B rt st =
     (if rt_dense rt = ANON
      then let st = stream_anon_scan_end (b_scan B (stream_anon_scan_begin st))
           in snd (stream_anon_finalize (b_host B) st (b_trim B st))
      else st)"

definition runtime_load_llama :: "machine \<Rightarrow> runtime_settings \<Rightarrow> runtime \<Rightarrow> stream \<Rightarrow> (bool \<times> runtime \<times> stream) knob" where
  "runtime_load_llama B s rt st =
     then_knob (mtp_stage B) (\<lambda>k.
     let rt = rt\<lparr>rt_mtp_k := k\<rparr> in
     if \<not> b_load B (rs_model_path s) (k > 0) then ret_knob (False, rt, st)
     else
       then_knob (context_stage B s k) (\<lambda>cp.
       let rt = rt\<lparr>rt_n_ctx := cp_n_ctx cp\<rparr> in
       then_knob (kv_stage B (rt_manifest rt) cp) (\<lambda>_.
       if \<not> b_init B cp then ret_knob (False, rt, st)
       else ret_knob (True, rt\<lparr>rt_ctx := Some cp\<rparr>, anon_stage B rt st))))"

definition runtime_shutdown :: "stream \<Rightarrow> stream" where
  "runtime_shutdown st = stream_prefetch_stop st"

section \<open>Lemmas\<close>

lemma then_knob_Some:
  "then_knob m f r = Some y \<longleftrightarrow> (\<exists>x r'. m r = Some (x, r') \<and> f x r' = Some y)"
  by (auto simp: then_knob_def split: option.splits)

lemma ret_knob_Some: "ret_knob x r = Some (y, r') \<longleftrightarrow> y = x \<and> r' = r"
  by (auto simp: ret_knob_def)

lemmas knob_elim = then_knob_Some ret_knob_Some

text \<open>Every stage leaves a cache that agrees with the environment.\<close>

definition keeps_cache :: "environ \<Rightarrow> 'a knob \<Rightarrow> bool" where
  "keeps_cache ge m \<longleftrightarrow> (\<forall>r x r'. resolved_ok ge r \<longrightarrow> m r = Some (x, r') \<longrightarrow> resolved_ok ge r')"

lemma keeps_cache_ret: "keeps_cache ge (ret_knob x)"
  by (simp add: keeps_cache_def ret_knob_def)

lemma keeps_cache_get: "keeps_cache ge (env_get ge name)"
  by (auto simp: keeps_cache_def env_get_def dest: resolved_ok_env [of _ _ name])

lemma keeps_cache_or: "keeps_cache ge (env_or ge name f d)"
proof -
  have "resolved_ok ge r'" if "env ge r name = (v, r')" "resolved_ok ge r" for r r' v
    using resolved_ok_env [OF that(2), of name] that(1) by simp
  then show ?thesis unfolding keeps_cache_def env_or_def by (auto split: option.splits prod.splits)
qed

lemma keeps_cache_then: "keeps_cache ge m \<Longrightarrow> (\<And>x. keeps_cache ge (f x)) \<Longrightarrow> keeps_cache ge (then_knob m f)"
  unfolding keeps_cache_def knob_elim by blast

lemmas keeps_cache_intros = keeps_cache_ret keeps_cache_get keeps_cache_or keeps_cache_then

lemma stages_keep_cache:
  "keeps_cache (b_getenv B) (dense_stage B mf)" "keeps_cache (b_getenv B) (mass_stage B)" "keeps_cache (b_getenv B) (prefetch_stage B)"
  by (auto simp: dense_stage_def mass_stage_def prefetch_stage_def Let_def split: option.splits intro!: keeps_cache_intros)

text \<open>The stages of a preparation that returned an engine.\<close>

lemma runtime_prepareE:
  assumes "runtime_prepare B s st r = Some (Inr (rt, st'), r')"
  obtains r1 r2 cfg pf mass where
    "registry_build (b_sort B) (b_max_size B) (rs_model_path s) (b_file B (rs_model_path s)) = Inr (rt_manifest rt)"
    "rt_cache_cap rt = effective_cap B (rt_dense rt) (rt_manifest rt) (rs_cap_gib s)"
    "stream_stage B (rs_stream_on s) mass pf r1 = Some (cfg, r2)" "resolved_ok (b_getenv B) r \<longrightarrow> resolved_ok (b_getenv B) r1"
    "stream_open_fill_backend (b_open B) (b_kernel B)
       (stream_init st (rt_manifest rt) (new_slice_cache (rt_cache_cap rt) (smem st)) cfg) = Some (rt_odirect rt, st')"
proof -
  obtain mf where mf: "registry_build (b_sort B) (b_max_size B) (rs_model_path s) (b_file B (rs_model_path s)) = Inr mf"
    using assms by (cases "registry_build (b_sort B) (b_max_size B) (rs_model_path s) (b_file B (rs_model_path s))")
      (simp_all add: runtime_prepare_def ret_knob_def)
  let ?init = "\<lambda>dense cfg. stream_init st mf (new_slice_cache (effective_cap B dense mf (rs_cap_gib s)) (smem st)) cfg"
  obtain rg dense mass pf cfg ra rb r1 r2 r3 where ds: "dense_stage B mf r = Some ((rg, dense), ra)" and ms: "mass_stage B ra = Some (mass, rb)"
    and ps: "prefetch_stage B rb = Some (pf, r1)" and st: "stream_stage B (rs_stream_on s) mass pf r1 = Some (cfg, r2)"
    and op: "(case stream_open_fill_backend (b_open B) (b_kernel B) (?init dense cfg) of
        None \<Rightarrow> (\<lambda>r. None)
      | Some (odirect, st) \<Rightarrow>
          ret_knob
            (if dense = WARM \<and> b_fopen B (rs_model_path s) = None then Inl Warm_open_failed
             else Inr (\<lparr>rt_manifest = mf, rt_cache_cap = effective_cap B dense mf (rs_cap_gib s), rt_regime_str = regime_name rg,
                        rt_dense = dense, rt_odirect = odirect, rt_streaming = rs_stream_on s, rt_l2_mass = mass, rt_mtp_k = 0,
                        rt_n_ctx = 0, rt_ctx = None\<rparr>, st))) r3 = Some (Inr (rt, st'), r')"
    using assms unfolding runtime_prepare_def mf sum.case Let_def then_knob_Some
    by (clarsimp simp: then_knob_Some)
  obtain od st1 where o: "stream_open_fill_backend (b_open B) (b_kernel B) (?init dense cfg) = Some (od, st1)"
    using op by (cases "stream_open_fill_backend (b_open B) (b_kernel B) (?init dense cfg)") auto
  have "rt_manifest rt = mf" "rt_cache_cap rt = effective_cap B dense mf (rs_cap_gib s)" "rt_dense rt = dense" "rt_odirect rt = od" "st' = st1"
    using op unfolding o option.case prod.case ret_knob_Some by (auto split: if_splits)
  moreover have "resolved_ok (b_getenv B) r1" if "resolved_ok (b_getenv B) r"
    using stages_keep_cache that ds ms ps unfolding keeps_cache_def by blast
  ultimately show thesis using that [OF _ _ st] mf o by simp
qed

lemma stream_stage_cfg:
  assumes "stream_stage B on mass pf r = Some (cfg, r')" "resolved_ok (b_getenv B) r" "no_empty_knob (b_getenv B)"
  shows "cfg_rebind cfg = on \<and> cfg_full_fill cfg = (knob_value (b_getenv B) ''FULL_FILL'' \<noteq> None) \<and> cfg_pf_mode cfg = pf \<and> cfg_l2_mass cfg = mass"
proof -
  obtain r1 where "env (b_getenv B) r ''FULL_FILL'' = (knob_value (b_getenv B) ''FULL_FILL'', r1)"
    using env_knob_value [OF assms(2,3)] by blast
  with assms(1) show ?thesis by (auto simp: stream_stage_def knob_elim env_get_def)
qed

lemma warm_tensor_full: "pos + left \<le> len \<Longrightarrow> warm_tensor len pos left = left"
proof (induction len pos left rule: warm_tensor.induct)
  case (1 len pos left)
  show ?case
  proof (cases "left = 0")
    case True
    then show ?thesis by (simp add: warm_tensor.simps)
  next
    case False
    let ?c = "if left < 2 ^ 20 then left else (2 ^ 20 :: nat)"
    have "?c \<le> left" "min ?c (len - pos) = ?c" using "1.prems" by auto
    with False "1.IH" [OF False refl] "1.prems" show ?thesis by (subst warm_tensor.simps) (simp add: Let_def)
  qed
qed

lemma margin_default: "0 \<le> safety_margin_frac (detect_at B i)" "safety_margin_frac (detect_at B i) \<le> 1 / 4"
proof -
  have "rd (12 / 100) = 1080863910568919 / 9007199254740992" by code_simp
  then show "0 \<le> safety_margin_frac (detect_at B i)" "safety_margin_frac (detect_at B i) \<le> 1 / 4"
    by (simp_all add: detect_at_def detect_def memory_budget_default_def Let_def split: option.splits prod.splits)
qed

lemma detect_at_fixed: "shared_experts (detect_at B i) = 0" "base_reserve (detect_at B i) = 2048 * 2 ^ 20"
  by (simp_all add: detect_at_def detect_def memory_budget_default_def Let_def split: option.splits prod.splits)

lemma effective_cap_fits:
  assumes "dense = ANON \<longrightarrow> unat (dense_bytes mf) < 2 ^ 63"
  shows "effective_cap B dense mf gib = 0 \<or>
    unat (effective_cap B dense mf gib) + (if dense = ANON then unat (dense_bytes mf) else 0) + 2688 * 2 ^ 20
      + unat (safety_margin (detect_at B 1)) \<le> unat (mem_available (detect_at B 1))"
proof -
  let ?b = "runtime_budget B dense mf"
  have rb: "unat (runtime_base ?b) = 512 * 2 ^ 20 + (if dense = ANON then unat (dense_bytes mf) else 0)"
    using assms by (auto simp: runtime_budget_def unat_word_ariths)
  have fr: "0 \<le> safety_margin_frac ?b" "safety_margin_frac ?b \<le> 1 / 4" "safety_margin ?b = safety_margin (detect_at B 1)"
    using margin_default [of B 1] by (simp_all add: runtime_budget_def safety_margin_def)
  have "unat (shared_experts ?b) + unat (kv ?b) + unat (staging ?b) + unat (runtime_base ?b) < 2 ^ 64"
    unfolding rb using assms by (auto simp: runtime_budget_def detect_at_fixed)
  from clamp_cache_cap_fits [OF fr(1,2) this, of "push_bit 30 gib"] rb fr(3) show ?thesis
    by (auto simp: effective_cap_def runtime_budget_def detect_at_fixed)
qed

lemma effective_cap_le: "unat (effective_cap B dense mf gib) \<le> unat (mem_available (detect_at B 1))"
proof -
  have "unat (effective_cap B dense mf gib) \<le> unat (cache_headroom (runtime_budget B dense mf))"
    by (simp add: effective_cap_def clamp_cache_cap_def Let_def word_less_nat_alt)
  then show ?thesis unfolding unat_cache_headroom by (simp add: runtime_budget_def)
qed

lemma prepared_run_inv:
  assumes "runtime_prepare B s (new_stream m hp) r = Some (Inr (rt, st), r')" "resolved_ok (b_getenv B) r" "no_empty_knob (b_getenv B)"
    "rs_stream_on s" "knob_value (b_getenv B) ''FULL_FILL'' = None" "rt_odirect rt" "pread_ok file (b_kernel B)" "eventually_quiet (b_kernel B)"
    "unique_weights (rt_manifest rt) hp" "uint (mem_available (detect_at B 1)) < 2 ^ 62"
    "no_collisions (rt_manifest rt)" "list_all (\<lambda>ti. uint (bytes_total ti) < 2 ^ 63) (mf_tensors (rt_manifest rt))"
  shows "run_inv file (rt_manifest rt) st \<and> manifest_ok (rt_manifest rt)"
proof -
  obtain r1 r2 cfg pf mass where reg: "registry_build (b_sort B) (b_max_size B) (rs_model_path s) (b_file B (rs_model_path s)) = Inr (rt_manifest rt)"
    and cap: "rt_cache_cap rt = effective_cap B (rt_dense rt) (rt_manifest rt) (rs_cap_gib s)"
    and sc: "stream_stage B (rs_stream_on s) mass pf r1 = Some (cfg, r2)" and ok: "resolved_ok (b_getenv B) r \<longrightarrow> resolved_ok (b_getenv B) r1"
    and op: "stream_open_fill_backend (b_open B) (b_kernel B)
       (stream_init (new_stream m hp) (rt_manifest rt) (new_slice_cache (rt_cache_cap rt) (smem (new_stream m hp))) cfg) = Some (rt_odirect rt, st)"
    by (rule runtime_prepareE [OF assms(1)]) blast
  have cfg: "cfg_rebind cfg" "\<not> cfg_full_fill cfg" using stream_stage_cfg [OF sc ok [rule_format, OF assms(2)] assms(3)] assms(4,5) by simp_all
  have "smem (new_stream m hp) = m" by (simp add: new_stream_def new_slice_cache_def)
  with op assms(6) have op': "stream_open_fill_backend (b_open B) (b_kernel B)
       (stream_init (new_stream m hp) (rt_manifest rt) (new_slice_cache (rt_cache_cap rt) m) cfg) = Some (True, st)" by simp
  have "uint (rt_cache_cap rt) < 2 ^ 62"
    using effective_cap_le [of B "rt_dense rt" "rt_manifest rt" "rs_cap_gib s"] assms(10) unfolding cap
    by (meson le_less_trans word_le_nat_alt word_le_def)
  from start_run_inv [OF this assms(7,8) cfg assms(9) op'] registry_manifest_ok [OF reg _ assms(11,12)] show ?thesis by blast
qed

section \<open>Properties\<close>


text \<open>
  Claim C28. The cache cap fits the machine: whatever \<^verbatim>\<open>CNE_CACHE_GIB\<close> asks for, the slice cache that \<^verbatim>\<open>runtime_prepare\<close> installs has a cap of
  at most the request, and unless it is zero the cap, the dense weights that will be copied to anonymous memory,
  the 640 MiB of KV, staging and runtime, the 2 GiB reserve and the 12 percent margin together stay within the memory reported as available.
\<close>

theorem cache_cap_fits_machine:
  assumes "runtime_prepare B s st r = Some (Inr (rt, st'), r')" "rt_dense rt = ANON \<longrightarrow> unat (dense_bytes (rt_manifest rt)) < 2 ^ 63"
  shows "hard_cap_bytes (cache st') = rt_cache_cap rt \<and> unat (rt_cache_cap rt) \<le> unat (push_bit 30 (rs_cap_gib s) :: u64)
    \<and> (rt_cache_cap rt = 0 \<or>
       unat (rt_cache_cap rt) + (if rt_dense rt = ANON then unat (dense_bytes (rt_manifest rt)) else 0) + 2688 * 2 ^ 20
         + unat (safety_margin (detect_at B 1)) \<le> unat (mem_available (detect_at B 1)))"
proof -
  obtain cfg where cap: "rt_cache_cap rt = effective_cap B (rt_dense rt) (rt_manifest rt) (rs_cap_gib s)"
    and op: "stream_open_fill_backend (b_open B) (b_kernel B)
       (stream_init st (rt_manifest rt) (new_slice_cache (rt_cache_cap rt) (smem st)) cfg) = Some (rt_odirect rt, st')"
    by (rule runtime_prepareE [OF assms(1)]) blast
  have "hard_cap_bytes (cache st') = rt_cache_cap rt"
    using op by (auto simp: stream_open_fill_backend_def stream_init_def set_source_def new_slice_cache_def Let_def
        split: if_splits prod.splits)
  moreover have "unat (rt_cache_cap rt) \<le> unat (push_bit 30 (rs_cap_gib s) :: u64)"
    by (auto simp: cap effective_cap_def clamp_cache_cap_def Let_def word_le_nat_alt [symmetric] not_less)
  ultimately show ?thesis using effective_cap_fits [OF assms(2), of B "rs_cap_gib s"] cap by simp
qed

text \<open>
  Claim C29. Whatever the knobs say, a context that \<^verbatim>\<open>runtime_load_llama\<close> creates has at least 64 tokens, a batch of at least one micro-batch and
  at most 512 tokens that fits the context, at least one thread and one sequence lane, a KV cache per lane when there are
  several, and a non-negative draft depth.
\<close>

theorem context_params_bounds:
  assumes "runtime_load_llama B s rt st r = Some ((True, rt', st'), r')"
  shows "\<exists>cp. rt_ctx rt' = Some cp \<and> rt_n_ctx rt' = cp_n_ctx cp \<and> 64 \<le> cp_n_ctx cp \<and> cp_n_ubatch cp \<le> cp_n_batch cp
    \<and> cp_n_batch cp \<le> cp_n_ctx cp \<and> cp_n_batch cp \<le> 512 \<and> 1 \<le> cp_n_threads cp \<and> cp_n_threads_batch cp = cp_n_threads cp
    \<and> 1 \<le> uint (cp_n_seq_max cp) \<and> (1 < cp_n_seq_max cp \<longrightarrow> \<not> cp_kv_unified cp) \<and> 0 \<le> rt_mtp_k rt'"
proof -
  obtain k cp r1 r2 r3 where k: "mtp_stage B r = Some (k, r1)" and cp: "context_stage B s k r2 = Some (cp, r3)"
    and rt: "rt_ctx rt' = Some cp" "rt_n_ctx rt' = cp_n_ctx cp" "rt_mtp_k rt' = k"
    using assms by (auto simp: runtime_load_llama_def Let_def knob_elim split: if_splits)
  have "0 \<le> k" using k by (auto simp: mtp_stage_def knob_elim split: if_splits)
  moreover have "64 \<le> cp_n_ctx cp \<and> cp_n_ubatch cp \<le> cp_n_batch cp \<and> cp_n_batch cp \<le> cp_n_ctx cp \<and> cp_n_batch cp \<le> 512
      \<and> 1 \<le> cp_n_threads cp \<and> cp_n_threads_batch cp = cp_n_threads cp \<and> (1 < cp_n_seq_max cp \<longrightarrow> \<not> cp_kv_unified cp)"
    using cp by (auto simp: context_stage_def spec_mtp_size_outputs_def Let_def knob_elim)
  moreover have "1 \<le> uint (cp_n_seq_max cp)"
  proof -
    obtain sm where "cp_n_seq_max cp = (case sm of None \<Rightarrow> 1 | Some v \<Rightarrow> if atoi v > 1 then word_of_int (atoi v) else 1)"
      using cp by (auto simp: context_stage_def Let_def knob_elim)
    moreover have "uint (word_of_int (atoi v) :: 32 word) = atoi v" if "atoi v > 1" for v
      using that to_i32_range [of "strtol v"] by (simp add: atoi_def uint_word_of_int)
    ultimately show ?thesis by (auto split: option.splits if_splits)
  qed
  ultimately show ?thesis using rt by blast
qed

section \<open>A concrete start-up\<close>

definition demo_machine :: machine where
  "demo_machine = \<lparr>b_getenv = (\<lambda>k. if k = ''CNE_PREFETCH'' then Some ''1'' else None),
     b_mem = (\<lambda>i. (None, ''MemAvailable: 67108864 kB'')), b_sort = demo_sort, b_max_size = 1000,
     b_file = (\<lambda>p. if p = ''m'' then Some serve_fl else None), b_fopen = (\<lambda>p. None), b_open = (\<lambda>d. Inr 3), b_kernel = serve_kernel,
     b_host = serve_host, b_load = (\<lambda>p mtp. True),
     b_defaults = \<lparr>cp_n_ctx = 512, cp_n_batch = 2048, cp_n_ubatch = 512, cp_n_threads = 4, cp_n_threads_batch = 4, cp_kv_q8 = False,
       cp_flash_attn = False, cp_n_outputs_max = 0, cp_n_outputs_max_per_seq = 0, cp_n_seq_max = 1, cp_kv_unified = False\<rparr>,
     b_output_limits = (\<lambda>nb n k. (of_int (k + 1), of_int (k + 1))), b_init = (\<lambda>cp. True), b_scan = (\<lambda>st. st), b_trim = (\<lambda>st. [])\<rparr>"

definition demo_settings :: runtime_settings where
  "demo_settings = \<lparr>rs_model_path = ''m'', rs_cap_gib = 8, rs_n_ctx = 1024, rs_n_threads = 8, rs_stream_on = True\<rparr>"

definition demo_runtime :: runtime where
  "demo_runtime = \<lparr>rt_manifest = serve_mf, rt_cache_cap = 8589934592, rt_regime_str = ''R0_RESIDENT'', rt_dense = MMAP, rt_odirect = True,
     rt_streaming = True, rt_l2_mass = Fin 0, rt_mtp_k = 0, rt_n_ctx = 0, rt_ctx = None\<rparr>"

lemma demo_detect: "detect_at demo_machine i = memory_budget_default\<lparr>mem_available := 68719476736\<rparr>"
proof -
  have "get_word ''MemAvailable: 67108864 kB'' = Some (''MemAvailable:'', '' 67108864 kB'')"
    "get_u64 '' 67108864 kB'' = Some (67108864, '' kB'')" "get_word '' kB'' = Some (''kB'', [])"
    by (simp_all add: get_word_def get_u64_def Let_def is_space_def is_digit_def digit_val_def)
  then have "read_memavailable ''MemAvailable: 67108864 kB'' = 68719476736" by (subst read_memavailable.simps) simp
  then show ?thesis by (simp add: detect_at_def demo_machine_def detect_def Let_def)
qed

lemma demo_cap: "effective_cap demo_machine MMAP serve_mf 8 = 8589934592"
proof -
  have "clamp_cache_cap (memory_budget_default\<lparr>mem_available := 68719476736, kv := 67108864, staging := 67108864, runtime_base := 536870912\<rparr>)
    (8589934592 :: u64) = 8589934592" by code_simp
  moreover have "push_bit 30 (8 :: u64) = 8589934592" by code_simp
  ultimately show ?thesis by (simp add: effective_cap_def runtime_budget_def demo_detect)
qed

lemma demo_regime: "classify (file_size serve_mf) 68719476736 = R0_RESIDENT"
proof -
  have "classify 12388 68719476736 = R0_RESIDENT" by code_simp
  then show ?thesis by (simp add: serve_mf_def)
qed

lemma demo_env: "env (b_getenv demo_machine) r name =
    (if r (''CNE_'' @ name) \<noteq> None then (if r (''CNE_'' @ name) = Some [] then None else r (''CNE_'' @ name), r)
     else if name = ''PREFETCH'' then (Some ''1'', r(''CNE_PREFETCH'' \<mapsto> ''1'')) else (None, r))"
  by (auto simp: env_def demo_machine_def Let_def split: option.splits)

lemma demo_prepare:
  "runtime_prepare demo_machine demo_settings (new_stream (\<lambda>_. 0) serve_graph) Map.empty
     = Some (Inr (demo_runtime, serve_start), [''CNE_PREFETCH'' \<mapsto> ''1''])"
proof -
  let ?B = demo_machine
  have "dense_stage ?B serve_mf Map.empty = Some ((R0_RESIDENT, MMAP), Map.empty)"
    by (simp add: dense_stage_def then_knob_def env_get_def demo_env ret_knob_def demo_detect demo_regime choose_dense_def Let_def)
  moreover have "mass_stage ?B Map.empty = Some (Fin 0, Map.empty)"
    by (simp add: mass_stage_def then_knob_def env_or_def demo_env ret_knob_def)
  moreover have "prefetch_stage ?B Map.empty = Some (PF_LOOKAHEAD, [''CNE_PREFETCH'' \<mapsto> ''1''])"
    by (simp add: prefetch_stage_def then_knob_def env_get_def demo_env ret_knob_def)
  moreover have "stream_stage ?B True (Fin 0) PF_LOOKAHEAD [''CNE_PREFETCH'' \<mapsto> ''1''] = Some (serve_cfg, [''CNE_PREFETCH'' \<mapsto> ''1''])"
    by (simp add: stream_stage_def then_knob_def env_get_def env_or_def demo_env ret_knob_def serve_cfg_def)
  moreover have "env_or (b_getenv ?B) ''LANES'' atoi 4 [''CNE_PREFETCH'' \<mapsto> ''1''] = Some (4, [''CNE_PREFETCH'' \<mapsto> ''1''])"
    by (simp add: env_or_def demo_env)
  moreover have "registry_build (b_sort ?B) (b_max_size ?B) (rs_model_path demo_settings) (b_file ?B (rs_model_path demo_settings)) = Inr serve_mf"
    using serve_build by (simp add: demo_machine_def demo_settings_def)
  moreover have "smem (new_stream (\<lambda>_. 0) serve_graph) = (\<lambda>_. 0)" by (simp add: new_stream_def new_slice_cache_def)
  moreover have "b_open ?B = (\<lambda>_. Inr 3)" "b_kernel ?B = serve_kernel" by (simp_all add: demo_machine_def)
  ultimately show ?thesis
    unfolding runtime_prepare_def using serve_open
    by (simp add: then_knob_def ret_knob_def demo_cap demo_settings_def demo_runtime_def)
qed

lemma demo_knobs: "no_empty_knob (b_getenv demo_machine)" "knob_value (b_getenv demo_machine) ''FULL_FILL'' = None"
  by (simp_all add: no_empty_knob_def knob_value_def demo_machine_def)

lemma demo_machine_parts: "b_kernel demo_machine = serve_kernel" "b_host demo_machine = serve_host"
  by (simp_all add: demo_machine_def)


theorem cache_cap_fits_machine_witness:
  "hard_cap_bytes (cache serve_start) = 8589934592 \<and> rt_cache_cap demo_runtime = 8589934592"
  using cache_cap_fits_machine [OF demo_prepare] by (simp add: demo_runtime_def)

theorem context_params_bounds_witness:
  "\<exists>rt st r. runtime_load_llama demo_machine demo_settings demo_runtime serve_start Map.empty = Some ((True, rt, st), r)
     \<and> 64 \<le> rt_n_ctx rt"
proof -
  have "\<exists>rt st r. runtime_load_llama demo_machine demo_settings demo_runtime serve_start Map.empty = Some ((True, rt, st), r)"
    by (simp add: runtime_load_llama_def mtp_stage_def context_stage_def kv_stage_def then_knob_def ret_knob_def env_or_def env_get_def demo_env
        Let_def) (simp add: demo_machine_def)
  with context_params_bounds show ?thesis by metis
qed

end
