(* ===== verification/Session.thy ===== *)
theory Session
  imports Cne_Prelude
begin

text \<open>
  \<^verbatim>\<open>runtime/cne_session.h\<close> and \<^verbatim>\<open>runtime/cne_session.cpp\<close>: KV reuse across requests and the session store. The llama.cpp context
  is not part of the sources: the type \<open>'c\<close> of contexts and the functions the code calls on it are the
  record argument \<open>llama\<close>, and \<open>llama_ok\<close> states the documented behaviour the code relies on, through a function \<open>kv\<close> that reads
  the tokens a sequence lane holds. The pool of slots is an association list in the enumeration order of the
  \<^verbatim>\<open>unordered_map\<close>.
\<close>

section \<open>The llama.cpp interface\<close>

record batch_token =
  bt_token :: int
  bt_pos :: int
  bt_seq :: int
  bt_logits :: bool

record 'c llama =
  get_memory :: "'c \<Rightarrow> bool"
  n_batch :: "'c \<Rightarrow> int"
  seq_pos_max :: "'c \<Rightarrow> int \<Rightarrow> int"
  seq_rm :: "'c \<Rightarrow> int \<Rightarrow> int \<Rightarrow> int \<Rightarrow> bool \<times> 'c"
  decode :: "'c \<Rightarrow> batch_token list \<Rightarrow> int \<times> 'c"

section \<open>Sessions\<close>

record prefill_stats =
  reused_tokens :: nat
  prefilled_tokens :: nat

record session_slot =
  sid :: string
  owner :: string
  kv_tokens :: "int list"
  seq_id :: int
  last_tick :: int

definition new_session_slot :: session_slot where
  "new_session_slot = \<lparr>sid = [], owner = [], kv_tokens = [], seq_id = -1, last_tick = 0\<rparr>"

fun token_common_prefix :: "int list \<Rightarrow> int list \<Rightarrow> nat" where
  "token_common_prefix (a # as) (b # bs) = (if a = b then Suc (token_common_prefix as bs) else 0)"
| "token_common_prefix _ _ = 0"

definition kv_seq_len :: "'c llama \<Rightarrow> 'c \<Rightarrow> int \<Rightarrow> int" where
  "kv_seq_len L c seq =
     (if \<not> get_memory L c then 0
      else let pos_max = seq_pos_max L c seq in if pos_max < 0 then 0 else pos_max + 1)"

text \<open>The batch that \<^verbatim>\<open>batch_add\<close> builds for one chunk, and the loop over the chunks. With a batch size below one the
  loop of the C++ makes no progress (\<open>None\<close>).\<close>

definition make_batch :: "int list \<Rightarrow> int \<Rightarrow> int \<Rightarrow> int \<Rightarrow> int \<Rightarrow> batch_token list" where
  "make_batch toks pos0 seq off n_tokens =
     map (\<lambda>(j, t). \<lparr>bt_token = t, bt_pos = pos0 + off + int j, bt_seq = seq,
                    bt_logits = (off + int j = n_tokens - 1)\<rparr>) (enumerate 0 toks)"

function prefill_chunks ::
  "'c llama \<Rightarrow> 'c \<Rightarrow> int \<Rightarrow> int \<Rightarrow> int \<Rightarrow> int list \<Rightarrow> int \<Rightarrow> int \<Rightarrow> (bool \<times> 'c) option" where
  "prefill_chunks L c seq pos0 nb toks off n_tokens =
     (if toks = [] then Some (True, c)
      else if nb < 1 then None
      else let chunk = take (nat nb) toks;
               (ret, c) = decode L c (make_batch chunk pos0 seq off n_tokens)
           in if ret \<noteq> 0 then Some (False, c)
              else prefill_chunks L c seq pos0 nb (drop (nat nb) toks) (off + nb) n_tokens)"
  by pat_completeness auto
termination
  by (relation "measure (\<lambda>(L, c, seq, pos0, nb, toks, off, n). length toks)") auto

declare prefill_chunks.simps [simp del]

definition prefill_chunked :: "'c llama \<Rightarrow> 'c \<Rightarrow> int \<Rightarrow> int list \<Rightarrow> (bool \<times> 'c) option" where
  "prefill_chunked L c seq toks =
     prefill_chunks L c seq (kv_seq_len L c seq) (n_batch L c) toks 0 (int (length toks))"

definition session_clear_seq :: "'c llama \<Rightarrow> 'c \<Rightarrow> int \<Rightarrow> 'c" where
  "session_clear_seq L c seq =
     (if seq < 0 then c else if get_memory L c then snd (seq_rm L c seq 0 (-1)) else c)"

definition session_reset_kv :: "'c llama \<Rightarrow> 'c \<Rightarrow> session_slot \<Rightarrow> 'c \<times> session_slot" where
  "session_reset_kv L c slot =
     ((if seq_id slot \<ge> 0 then session_clear_seq L c (seq_id slot) else c), slot\<lparr>kv_tokens := []\<rparr>)"

text \<open>\<^verbatim>\<open>session_prefill\<close>: result flag, context, slot, and what was written to \<^verbatim>\<open>*stats_out\<close>.\<close>

partial_function (option) session_prefill ::
  "'c llama \<Rightarrow> 'c \<Rightarrow> session_slot \<Rightarrow> int list \<Rightarrow> (bool \<times> 'c \<times> session_slot \<times> prefill_stats option) option" where
  "session_prefill L c slot prompt =
     (if \<not> get_memory L c \<or> prompt = [] then
        Some (prompt = [], c, slot, Some \<lparr>reused_tokens = 0, prefilled_tokens = 0\<rparr>)
      else if seq_id slot < 0 then Some (False, c, slot, None)
      else
        let seq = seq_id slot; n_kv = kv_seq_len L c seq in
        if n_kv = 0 then
          (case prefill_chunked L c seq prompt of
             None \<Rightarrow> None
           | Some (False, c) \<Rightarrow> Some (False, c, slot, None)
           | Some (True, c) \<Rightarrow>
               Some (True, c, slot\<lparr>kv_tokens := prompt\<rparr>,
                     Some \<lparr>reused_tokens = 0, prefilled_tokens = length prompt\<rparr>))
        else if int (length (kv_tokens slot)) \<noteq> n_kv then
          (let (c, slot) = session_reset_kv L c slot in session_prefill L c slot prompt)
        else
          let lcp = token_common_prefix (kv_tokens slot) prompt;
              (rm_ok, c1) = (if lcp < length (kv_tokens slot) then seq_rm L c seq (int lcp) (-1) else (True, c))
          in if \<not> rm_ok then
               (let (c, slot) = session_reset_kv L c1 slot in session_prefill L c slot prompt)
             else
               let slot = slot\<lparr>kv_tokens := take lcp (kv_tokens slot)\<rparr> in
               if lcp < length prompt then
                 (case prefill_chunked L c1 seq (drop lcp prompt) of
                    None \<Rightarrow> None
                  | Some (False, c) \<Rightarrow> Some (False, c, slot, None)
                  | Some (True, c) \<Rightarrow>
                      Some (True, c, slot\<lparr>kv_tokens := prompt\<rparr>,
                            Some \<lparr>reused_tokens = lcp, prefilled_tokens = length prompt - lcp\<rparr>))
               else Some (True, c1, slot\<lparr>kv_tokens := prompt\<rparr>, Some \<lparr>reused_tokens = lcp, prefilled_tokens = 0\<rparr>))"

definition session_append_token :: "session_slot \<Rightarrow> int \<Rightarrow> session_slot" where
  "session_append_token slot t = slot\<lparr>kv_tokens := kv_tokens slot @ [t]\<rparr>"

definition session_decode_token :: "'c llama \<Rightarrow> 'c \<Rightarrow> session_slot \<Rightarrow> int \<Rightarrow> bool \<times> 'c" where
  "session_decode_token L c slot t =
     (if seq_id slot < 0 then (False, c)
      else let (ret, c) = decode L c [\<lparr>bt_token = t, bt_pos = kv_seq_len L c (seq_id slot), bt_seq = seq_id slot, bt_logits = True\<rparr>]
           in (ret = 0, c))"

section \<open>The laws of the context\<close>

text \<open>
  As \<^verbatim>\<open>llama.h\<close> documents them: the memory exists and batches have a positive size; the largest position of a lane is its length
  minus one; removing from a position on truncates that lane when it succeeds, changes nothing when it does
  not, and removing a whole sequence always succeeds; decoding consecutive positions at the
  end of a lane appends the tokens when it returns zero; other lanes are never touched.
\<close>

definition contiguous :: "int \<Rightarrow> int \<Rightarrow> batch_token list \<Rightarrow> bool" where
  "contiguous seq pos b \<longleftrightarrow> b \<noteq> [] \<and> (\<forall>i < length b. bt_seq (b ! i) = seq \<and> bt_pos (b ! i) = pos + int i)"

definition llama_ok :: "'c llama \<Rightarrow> ('c \<Rightarrow> int \<Rightarrow> int list) \<Rightarrow> bool" where
  "llama_ok L kv \<longleftrightarrow>
     (\<forall>c. get_memory L c \<and> 1 \<le> n_batch L c)
     \<and> (\<forall>c s. seq_pos_max L c s = int (length (kv c s)) - 1)
     \<and> (\<forall>c s p. 0 \<le> p \<longrightarrow>
          (case seq_rm L c s p (-1) of (ok, c') \<Rightarrow>
             (p = 0 \<longrightarrow> ok) \<and> kv c' s = (if ok then take (nat p) (kv c s) else kv c s) \<and> (\<forall>s'. s' \<noteq> s \<longrightarrow> kv c' s' = kv c s')))
     \<and> (\<forall>c s b. contiguous s (int (length (kv c s))) b \<longrightarrow>
          (case decode L c b of (ret, c') \<Rightarrow>
             (ret = 0 \<longrightarrow> kv c' s = kv c s @ map bt_token b) \<and> (\<forall>s'. s' \<noteq> s \<longrightarrow> kv c' s' = kv c s')))"

section \<open>Prefill\<close>

lemma lcp_le: "token_common_prefix a b \<le> length a" "token_common_prefix a b \<le> length b"
  by (induction a b rule: token_common_prefix.induct) auto

lemma lcp_take: "take (token_common_prefix a b) a = take (token_common_prefix a b) b"
  by (induction a b rule: token_common_prefix.induct) auto

text \<open>It is the longest one.\<close>

lemma lcp_max: "take n a = take n b \<Longrightarrow> n \<le> length a \<Longrightarrow> n \<le> length b \<Longrightarrow> n \<le> token_common_prefix a b"
proof (induction a b arbitrary: n rule: token_common_prefix.induct)
  case (1 a as b bs)
  then show ?case by (cases n) auto
qed auto

lemma llama_mem: "llama_ok L kv \<Longrightarrow> get_memory L c" "llama_ok L kv \<Longrightarrow> 1 \<le> n_batch L c"
  by (simp_all add: llama_ok_def)

lemma kv_seq_len_ok: "llama_ok L kv \<Longrightarrow> kv_seq_len L c s = int (length (kv c s))"
  by (auto simp: kv_seq_len_def llama_mem Let_def) (simp_all add: llama_ok_def)

lemma seq_rm_ok:
  assumes "llama_ok L kv" "seq_rm L c s p (-1) = (ok, c')" "0 \<le> p"
  shows "(p = 0 \<longrightarrow> ok) \<and> kv c' s = (if ok then take (nat p) (kv c s) else kv c s) \<and> (\<forall>s'. s' \<noteq> s \<longrightarrow> kv c' s' = kv c s')"
proof -
  have "\<forall>c s p. 0 \<le> p \<longrightarrow>
          (case seq_rm L c s p (-1) of (ok, c') \<Rightarrow>
             (p = 0 \<longrightarrow> ok) \<and> kv c' s = (if ok then take (nat p) (kv c s) else kv c s) \<and> (\<forall>s'. s' \<noteq> s \<longrightarrow> kv c' s' = kv c s'))"
    using assms(1) by (simp add: llama_ok_def)
  from this [THEN spec [of _ c], THEN spec [of _ s], THEN spec [of _ p]] assms(2,3) show ?thesis by simp
qed

lemma decode_ok:
  assumes "llama_ok L kv" "contiguous s (int (length (kv c s))) b" "decode L c b = (ret, c')"
  shows "(ret = 0 \<longrightarrow> kv c' s = kv c s @ map bt_token b) \<and> (\<forall>s'. s' \<noteq> s \<longrightarrow> kv c' s' = kv c s')"
proof -
  have "\<forall>c s b. contiguous s (int (length (kv c s))) b \<longrightarrow>
          (case decode L c b of (ret, c') \<Rightarrow>
             (ret = 0 \<longrightarrow> kv c' s = kv c s @ map bt_token b) \<and> (\<forall>s'. s' \<noteq> s \<longrightarrow> kv c' s' = kv c s'))"
    using assms(1) by (simp add: llama_ok_def)
  from this [rule_format, OF assms(2)] assms(3) show ?thesis by simp
qed

lemma clear_ok:
  assumes "llama_ok L kv" "0 \<le> s"
  shows "kv (session_clear_seq L c s) s = [] \<and> (\<forall>s'. s' \<noteq> s \<longrightarrow> kv (session_clear_seq L c s) s' = kv c s')"
  using seq_rm_ok [OF assms(1), of c s 0] assms
  by (cases "seq_rm L c s 0 (-1)") (auto simp: session_clear_seq_def llama_mem)

lemma make_batch_ok:
  "toks \<noteq> [] \<Longrightarrow> contiguous seq (pos0 + off) (make_batch toks pos0 seq off n) \<and> map bt_token (make_batch toks pos0 seq off n) = toks"
  by (auto simp: contiguous_def make_batch_def nth_enumerate_eq comp_def case_prod_unfold
      intro: nth_equalityI) (simp add: enumerate_eq_zip)

text \<open>Only the last token of the whole prompt asks for logits.\<close>

lemma make_batch_logits:
  "i < length toks \<Longrightarrow> bt_logits (make_batch toks pos0 seq off n ! i) \<longleftrightarrow> off + int i = n - 1"
  by (simp add: make_batch_def nth_enumerate_eq)

lemma prefill_chunks_ok:
  assumes L: "llama_ok L kv"
  shows "1 \<le> nb \<Longrightarrow> pos0 + off = int (length (kv c seq)) \<Longrightarrow>
    \<exists>ok c'. prefill_chunks L c seq pos0 nb toks off n = Some (ok, c')
      \<and> (ok \<longrightarrow> kv c' seq = kv c seq @ toks) \<and> (\<forall>s'. s' \<noteq> seq \<longrightarrow> kv c' s' = kv c s')"
proof (induction "length toks" arbitrary: c toks off rule: less_induct)
  case less
  show ?case
  proof (cases "toks = []")
    case True
    then show ?thesis by (auto simp: prefill_chunks.simps)
  next
    case False
    let ?chunk = "take (nat nb) toks" and ?rest = "drop (nat nb) toks"
    have ne: "?chunk \<noteq> []" and lt: "length ?rest < length toks" using False less.prems(1) by auto
    obtain ret c1 where d: "decode L c (make_batch ?chunk pos0 seq off n) = (ret, c1)" by fastforce
    have k: "(ret = 0 \<longrightarrow> kv c1 seq = kv c seq @ ?chunk) \<and> (\<forall>s'. s' \<noteq> seq \<longrightarrow> kv c1 s' = kv c s')"
      using decode_ok [OF L _ d, of seq] make_batch_ok [OF ne, of seq pos0 off n] less.prems(2) by simp
    show ?thesis
    proof (cases "ret = 0")
      case False
      with d k \<open>toks \<noteq> []\<close> less.prems(1) show ?thesis by (subst prefill_chunks.simps) auto
    next
      case True
      have st: "prefill_chunks L c seq pos0 nb toks off n = prefill_chunks L c1 seq pos0 nb ?rest (off + nb) n"
        using d True \<open>toks \<noteq> []\<close> less.prems(1) by (subst prefill_chunks.simps) simp
      show ?thesis
      proof (cases "?rest = []")
        case True
        then have "prefill_chunks L c1 seq pos0 nb ?rest (off + nb) n = Some (True, c1)" by (simp add: prefill_chunks.simps)
        moreover have "?chunk = toks" using True by simp
        ultimately show ?thesis using st k \<open>ret = 0\<close> by auto
      next
        case False
        then have "int (length ?chunk) = nb" using less.prems(1) by simp
        then have "pos0 + (off + nb) = int (length (kv c1 seq))" using k \<open>ret = 0\<close> less.prems(2) by simp
        from less.hyps [OF lt less.prems(1) this] obtain ok c' where
          "prefill_chunks L c1 seq pos0 nb ?rest (off + nb) n = Some (ok, c')"
          "ok \<longrightarrow> kv c' seq = kv c1 seq @ ?rest" "\<forall>s'. s' \<noteq> seq \<longrightarrow> kv c' s' = kv c1 s'" by blast
        with st k \<open>ret = 0\<close> show ?thesis by auto
      qed
    qed
  qed
qed

lemma prefill_chunked_ok:
  assumes L: "llama_ok L kv"
  shows "\<exists>ok c'. prefill_chunked L c seq toks = Some (ok, c')
      \<and> (ok \<longrightarrow> kv c' seq = kv c seq @ toks) \<and> (\<forall>s'. s' \<noteq> seq \<longrightarrow> kv c' s' = kv c s')"
  unfolding prefill_chunked_def
  by (rule prefill_chunks_ok [OF L llama_mem(2) [OF L]]) (simp add: kv_seq_len_ok [OF L])

text \<open>What every outcome of \<^verbatim>\<open>session_prefill\<close> guarantees.\<close>

definition prefill_post ::
  "('c \<Rightarrow> int \<Rightarrow> int list) \<Rightarrow> 'c \<Rightarrow> session_slot \<Rightarrow> int list \<Rightarrow> nat \<Rightarrow> bool \<times> 'c \<times> session_slot \<times> prefill_stats option \<Rightarrow> bool" where
  "prefill_post kv c slot prompt reused r =
     (case r of (ok, c', slot', st) \<Rightarrow>
        (\<forall>s'. s' \<noteq> seq_id slot \<longrightarrow> kv c' s' = kv c s') \<and> seq_id slot' = seq_id slot \<and> sid slot' = sid slot \<and> owner slot' = owner slot
        \<and> last_tick slot' = last_tick slot
        \<and> (ok \<longrightarrow> kv c' (seq_id slot) = prompt \<and> kv_tokens slot' = prompt
             \<and> st = Some \<lparr>reused_tokens = reused, prefilled_tokens = length prompt - reused\<rparr>))"

lemma prefill_empty_lane:
  assumes L: "llama_ok L kv" and s: "0 \<le> seq_id slot" and p: "prompt \<noteq> []" and e: "kv c (seq_id slot) = []"
  shows "\<exists>r. session_prefill L c slot prompt = Some r \<and> prefill_post kv c slot prompt 0 r"
proof -
  obtain ok c' where r: "prefill_chunked L c (seq_id slot) prompt = Some (ok, c')"
    "ok \<longrightarrow> kv c' (seq_id slot) = prompt" "\<forall>s'. s' \<noteq> seq_id slot \<longrightarrow> kv c' s' = kv c s'"
    using prefill_chunked_ok [OF L, of c "seq_id slot" prompt] e by auto
  have "kv_seq_len L c (seq_id slot) = 0" using kv_seq_len_ok [OF L] e by simp
  then show ?thesis
    using r s p llama_mem(1) [OF L, of c]
    by (subst session_prefill.simps) (cases ok; auto simp: prefill_post_def Let_def)
qed

lemma prefill_reset:
  assumes L: "llama_ok L kv" and s: "0 \<le> seq_id slot" and p: "prompt \<noteq> []"
    and o: "\<forall>s'. s' \<noteq> seq_id slot \<longrightarrow> kv c1 s' = kv c s'"
  shows "\<exists>r. (let (c, slot) = session_reset_kv L c1 slot in session_prefill L c slot prompt) = Some r
    \<and> prefill_post kv c slot prompt 0 r"
proof -
  let ?c = "session_clear_seq L c1 (seq_id slot)" and ?slot = "slot\<lparr>kv_tokens := []\<rparr>"
  have cl: "kv ?c (seq_id slot) = []" "\<forall>s'. s' \<noteq> seq_id slot \<longrightarrow> kv ?c s' = kv c1 s'"
    using clear_ok [OF L s] by auto
  obtain r where "session_prefill L ?c ?slot prompt = Some r" "prefill_post kv ?c ?slot prompt 0 r"
    using prefill_empty_lane [OF L, of ?slot prompt ?c] s p cl(1) by auto
  with cl(2) o s show ?thesis
    by (auto simp: session_reset_kv_def prefill_post_def)
qed

lemma session_prefill_spec:
  assumes L: "llama_ok L kv" and s: "0 \<le> seq_id slot" and p: "prompt \<noteq> []"
    and ledger: "length (kv_tokens slot) = length (kv c (seq_id slot)) \<Longrightarrow> kv_tokens slot = kv c (seq_id slot)"
  shows "\<exists>r reused. session_prefill L c slot prompt = Some r \<and> prefill_post kv c slot prompt reused r
    \<and> reused \<in> {0, token_common_prefix (kv c (seq_id slot)) prompt}"
proof (cases "kv c (seq_id slot) = []")
  case True
  then show ?thesis using prefill_empty_lane [OF L s p] by blast
next
  case False
  let ?seq = "seq_id slot"
  have n: "kv_seq_len L c ?seq = int (length (kv c ?seq))" "kv_seq_len L c ?seq \<noteq> 0" using kv_seq_len_ok [OF L] False by simp_all
  show ?thesis
  proof (cases "length (kv_tokens slot) = length (kv c ?seq)")
    case False
    have "session_prefill L c slot prompt = (let (c, slot) = session_reset_kv L c slot in session_prefill L c slot prompt)"
      using n False s p llama_mem(1) [OF L, of c] by (subst session_prefill.simps) simp
    with prefill_reset [OF L s p, of c c] show ?thesis by auto
  next
    case True
    then have led: "kv_tokens slot = kv c ?seq" by (rule ledger)
    define lcp where "lcp = token_common_prefix (kv_tokens slot) prompt"
    define rm where "rm = (if lcp < length (kv_tokens slot) then seq_rm L c ?seq (int lcp) (-1) else (True, c))"
    obtain ok c1 where rm': "rm = (ok, c1)" by (cases rm)
    have c1: "ok \<longrightarrow> kv c1 ?seq = take lcp (kv c ?seq)" "\<forall>s'. s' \<noteq> ?seq \<longrightarrow> kv c1 s' = kv c s'"
      using seq_rm_ok [OF L, of c ?seq "int lcp" ok c1] rm' led unfolding rm_def by (auto split: if_splits)
    let ?slot = "slot\<lparr>kv_tokens := take lcp (kv_tokens slot)\<rparr>"
    have unf: "session_prefill L c slot prompt =
        (if \<not> ok then (let (c, slot) = session_reset_kv L c1 slot in session_prefill L c slot prompt)
         else if lcp < length prompt then
                 (case prefill_chunked L c1 ?seq (drop lcp prompt) of
                    None \<Rightarrow> None
                  | Some (False, c) \<Rightarrow> Some (False, c, ?slot, None)
                  | Some (True, c) \<Rightarrow>
                      Some (True, c, ?slot\<lparr>kv_tokens := prompt\<rparr>,
                            Some \<lparr>reused_tokens = lcp, prefilled_tokens = length prompt - lcp\<rparr>))
               else Some (True, c1, ?slot\<lparr>kv_tokens := prompt\<rparr>, Some \<lparr>reused_tokens = lcp, prefilled_tokens = 0\<rparr>))"
      using n True s p llama_mem(1) [OF L, of c] rm' [unfolded rm_def]
      by (subst session_prefill.simps) (simp add: Let_def lcp_def [symmetric])
    show ?thesis
    proof (cases ok)
      case False
      then show ?thesis using unf prefill_reset [OF L s p c1(2)] by auto
    next
      case True
      have pre: "take lcp (kv c ?seq) = take lcp prompt" using lcp_take [of "kv_tokens slot" prompt] led by (simp add: lcp_def)
      obtain ok2 c2 where d: "prefill_chunked L c1 ?seq (drop lcp prompt) = Some (ok2, c2)"
        "ok2 \<longrightarrow> kv c2 ?seq = take lcp prompt @ drop lcp prompt" "\<forall>s'. s' \<noteq> ?seq \<longrightarrow> kv c2 s' = kv c1 s'"
        using prefill_chunked_ok [OF L, of c1 ?seq "drop lcp prompt"] c1(1) True pre by auto
      have "\<exists>r. session_prefill L c slot prompt = Some r \<and> prefill_post kv c slot prompt lcp r"
      proof (cases "lcp < length prompt")
        case True
        with unf \<open>ok\<close> d c1(2) show ?thesis by (cases ok2) (auto simp: prefill_post_def)
      next
        case False
        with unf \<open>ok\<close> c1 pre show ?thesis by (auto simp: prefill_post_def)
      qed
      then show ?thesis using led by (auto simp: lcp_def)
    qed
  qed
qed

text \<open>
  Claim C11. \<^verbatim>\<open>session_prefill\<close> always returns. On success the lane holds exactly the prompt and so does the ledger, whatever was in
  the lane before; the common prefix (or, after a reset, nothing) is reused and only the rest is decoded;
  no other lane is touched, on success or failure.
\<close>

theorem session_prefill_correct:
  assumes L: "llama_ok L kv" and s: "0 \<le> seq_id slot" and p: "prompt \<noteq> []"
    and ledger: "length (kv_tokens slot) = length (kv c (seq_id slot)) \<Longrightarrow> kv_tokens slot = kv c (seq_id slot)"
  shows "\<exists>r reused. session_prefill L c slot prompt = Some r \<and> prefill_post kv c slot prompt reused r
    \<and> reused \<in> {0, token_common_prefix (kv c (seq_id slot)) prompt}"
  using assms by (rule session_prefill_spec)

text \<open>A reference context: a lane is the list of its tokens, batches of two.\<close>

type_synonym ref_ctx = "int \<Rightarrow> int list"

definition ref_llama :: "ref_ctx llama" where
  "ref_llama = \<lparr>get_memory = (\<lambda>c. True), n_batch = (\<lambda>c. 2), seq_pos_max = (\<lambda>c s. int (length (c s)) - 1),
     seq_rm = (\<lambda>c s p q. (True, c(s := take (nat p) (c s)))),
     decode = (\<lambda>c b. (0, c(bt_seq (hd b) := c (bt_seq (hd b)) @ map bt_token b)))\<rparr>"

lemma ref_llama_ok: "llama_ok ref_llama (\<lambda>c. c)"
proof -
  have "bt_seq (hd b) = s" if "contiguous s p b" for s p b
    using that by (auto simp: contiguous_def hd_conv_nth)
  then show ?thesis by (auto simp: llama_ok_def ref_llama_def)
qed

theorem session_prefill_correct_witness:
  "\<exists>r reused. session_prefill ref_llama (\<lambda>s. if s = 1 then [5, 6, 7] else []) \<lparr>sid = ''a'', owner = [], kv_tokens = [5, 6, 7], seq_id = 1, last_tick = 3\<rparr> [5, 6, 9, 9] = Some r
     \<and> prefill_post (\<lambda>c. c) (\<lambda>s. if s = 1 then [5, 6, 7] else []) \<lparr>sid = ''a'', owner = [], kv_tokens = [5, 6, 7], seq_id = 1, last_tick = 3\<rparr> [5, 6, 9, 9] reused r
     \<and> reused \<in> {0, 2}"
  using session_prefill_correct [OF ref_llama_ok, of "\<lparr>sid = ''a'', owner = [], kv_tokens = [5, 6, 7], seq_id = 1, last_tick = 3\<rparr>"
      "[5, 6, 9, 9]" "\<lambda>s. if s = 1 then [5, 6, 7] else []"]
  by (simp add: numeral_2_eq_2)

text \<open>
  When the prompt is a prefix of what the lane already holds, \<^verbatim>\<open>session_prefill\<close> succeeds without decoding anything (it
  behaves the same for any \<^verbatim>\<open>llama_decode\<close>): no logits are computed for the last prompt token, and the next
  sample uses those of an earlier decode.
\<close>

theorem prefill_prefix_decodes_nothing:
  assumes "get_memory L c" "0 \<le> seq_id slot" "prompt \<noteq> []" "kv_seq_len L c (seq_id slot) = int (length (kv_tokens slot))"
    "token_common_prefix (kv_tokens slot) prompt = length prompt"
    "length prompt < length (kv_tokens slot) \<Longrightarrow> fst (seq_rm L c (seq_id slot) (int (length prompt)) (-1))"
  shows "session_prefill (L\<lparr>decode := D\<rparr>) c slot prompt =
    Some (True, if length prompt < length (kv_tokens slot) then snd (seq_rm L c (seq_id slot) (int (length prompt)) (-1)) else c,
          slot\<lparr>kv_tokens := prompt\<rparr>, Some \<lparr>reused_tokens = length prompt, prefilled_tokens = 0\<rparr>)"
proof -
  have "kv_seq_len (L\<lparr>decode := D\<rparr>) c s = kv_seq_len L c s" for s by (simp add: kv_seq_len_def)
  moreover have "kv_tokens slot \<noteq> []" using assms(3,5) lcp_le(1) [of "kv_tokens slot" prompt] by auto
  ultimately show ?thesis
    using assms by (subst session_prefill.simps) (auto simp: Let_def split: prod.splits)
qed

theorem prefill_prefix_decodes_nothing_witness:
  "session_prefill (ref_llama\<lparr>decode := \<lambda>c b. (1, c)\<rparr>) (\<lambda>s. [5, 6, 7]) \<lparr>sid = ''a'', owner = [], kv_tokens = [5, 6, 7], seq_id = 1, last_tick = 3\<rparr> [5, 6]
   = Some (True, (\<lambda>s. [5, 6, 7])(1 := [5, 6]), \<lparr>sid = ''a'', owner = [], kv_tokens = [5, 6], seq_id = 1, last_tick = 3\<rparr>,
           Some \<lparr>reused_tokens = 2, prefilled_tokens = 0\<rparr>)"
  using prefill_prefix_decodes_nothing [of ref_llama "\<lambda>s. [5, 6, 7]" "\<lparr>sid = ''a'', owner = [], kv_tokens = [5, 6, 7], seq_id = 1, last_tick = 3\<rparr>" "[5, 6]"]
  by (simp add: ref_llama_def kv_seq_len_def)

end
