(* ===== verification/Session_Store.thy ===== *)
theory Session_Store
  imports Session
begin

text \<open>
  The class \<^verbatim>\<open>SessionStore\<close> of \<^verbatim>\<open>runtime/cne_session.cpp\<close>: a bounded pool of slots over the sequence lanes of one context, with
  least-recently-used eviction, globally and per tenant. A slot pointer returned by \<^verbatim>\<open>get_or_create\<close> is the id
  of the slot in the pool.
\<close>

section \<open>State and operations\<close>

datatype session_err = No_err | OwnerMismatch

record session_store =
  max_slots :: nat
  max_slots_per_user :: nat
  n_seq_cap :: nat
  seq_free :: "bool list"
  tick :: int
  slots :: "(string \<times> session_slot) list"

definition new_session_store :: "nat \<Rightarrow> session_store" where
  "new_session_store n =
     \<lparr>max_slots = (if n > 0 then n else 1), max_slots_per_user = 0, n_seq_cap = 1, seq_free = [True], tick = 0, slots = []\<rparr>"

definition set_seq_capacity :: "session_store \<Rightarrow> nat \<Rightarrow> session_store" where
  "set_seq_capacity st n_seq_max =
     (let n = (if n_seq_max < 1 then 1 else n_seq_max)
      in st\<lparr>n_seq_cap := n,
           seq_free := map (\<lambda>i. \<not> list_ex (\<lambda>(_, s). seq_id s \<ge> 0 \<and> seq_id s = int i) (slots st)) [0 ..< n]\<rparr>)"

fun first_free :: "bool list \<Rightarrow> nat option" where
  "first_free [] = None"
| "first_free (b # bs) = (if b then Some 0 else map_option Suc (first_free bs))"

definition alloc_seq :: "session_store \<Rightarrow> int \<times> session_store" where
  "alloc_seq st =
     (case first_free (take (n_seq_cap st) (seq_free st)) of
        Some i \<Rightarrow> (int i, st\<lparr>seq_free := (seq_free st)[i := False]\<rparr>)
      | None \<Rightarrow> (-1, st))"

definition free_seq :: "session_store \<Rightarrow> int \<Rightarrow> session_store" where
  "free_seq st seq =
     (if seq < 0 \<or> seq \<ge> int (n_seq_cap st) then st else st\<lparr>seq_free := (seq_free st)[nat seq := True]\<rparr>)"

definition set_max_slots_per_user :: "session_store \<Rightarrow> nat \<Rightarrow> session_store" where
  "set_max_slots_per_user st n = st\<lparr>max_slots_per_user := n\<rparr>"

definition count_for_owner :: "session_store \<Rightarrow> string \<Rightarrow> nat" where
  "count_for_owner st ow = (if ow = [] then 0 else length (filter (\<lambda>(_, s). owner s = ow) (slots st)))"

text \<open>The scan for the least tick: the first slot in enumeration order that no later one undercuts.\<close>

fun scan_lru :: "(string \<times> session_slot) \<Rightarrow> (string \<times> session_slot) list \<Rightarrow> string \<times> session_slot" where
  "scan_lru best [] = best"
| "scan_lru best (p # ps) = scan_lru (if last_tick (snd p) < last_tick (snd best) then p else best) ps"

definition find_lru :: "(string \<times> session_slot) list \<Rightarrow> (string \<times> session_slot) option" where
  "find_lru ps = (case ps of [] \<Rightarrow> None | p # ps \<Rightarrow> Some (scan_lru p ps))"

text \<open>Erase a slot, clear its lane, free the lane.\<close>

definition drop_slot :: "'c llama \<Rightarrow> 'c \<Rightarrow> session_store \<Rightarrow> string \<times> session_slot \<Rightarrow> 'c \<times> session_store" where
  "drop_slot L c st p =
     (let st = st\<lparr>slots := filter (\<lambda>q. fst q \<noteq> fst p) (slots st)\<rparr>;
          c = fst (session_reset_kv L c (snd p))
      in (c, if seq_id (snd p) \<ge> 0 then free_seq st (seq_id (snd p)) else st))"

definition evict_lru :: "'c llama \<Rightarrow> 'c \<Rightarrow> session_store \<Rightarrow> 'c \<times> session_store" where
  "evict_lru L c st = (case find_lru (slots st) of None \<Rightarrow> (c, st) | Some p \<Rightarrow> drop_slot L c st p)"

definition evict_lru_for_owner :: "'c llama \<Rightarrow> string \<Rightarrow> 'c \<Rightarrow> session_store \<Rightarrow> 'c \<times> session_store" where
  "evict_lru_for_owner L ow c st =
     (if slots st = [] then (c, st)
      else case find_lru (filter (\<lambda>(_, s). owner s = ow) (slots st)) of
             None \<Rightarrow> evict_lru L c st
           | Some p \<Rightarrow> drop_slot L c st p)"

definition touch_slot :: "session_store \<Rightarrow> string \<Rightarrow> (session_slot \<Rightarrow> session_slot) \<Rightarrow> session_store" where
  "touch_slot st i f =
     st\<lparr>tick := tick st + 1, slots := map (\<lambda>(k, s). if k = i then (k, (f s)\<lparr>last_tick := tick st + 1\<rparr>) else (k, s)) (slots st)\<rparr>"

lemma scan_lru_mem: "scan_lru b ps \<in> insert b (set ps)"
  by (induction b ps rule: scan_lru.induct) auto

lemma find_lru_mem: "find_lru ps = Some p \<Longrightarrow> p \<in> set ps"
  using scan_lru_mem by (fastforce simp: find_lru_def split: list.splits)

lemma find_lru_None [simp]: "find_lru ps = None \<longleftrightarrow> ps = []"
  by (simp add: find_lru_def split: list.splits)

lemma slots_free_seq [simp]: "slots (free_seq st q) = slots st"
  by (simp add: free_seq_def)

lemma drop_slot_slots: "slots (snd (drop_slot L c st p)) = filter (\<lambda>q. fst q \<noteq> fst p) (slots st)"
  by (simp add: drop_slot_def Let_def)

lemma drop_slot_shorter: "p \<in> set (slots st) \<Longrightarrow> length (slots (snd (drop_slot L c st p))) < length (slots st)"
  by (auto simp: drop_slot_slots intro!: length_filter_less)

lemma evict_lru_shorter: "slots st \<noteq> [] \<Longrightarrow> length (slots (snd (evict_lru L c st))) < length (slots st)"
  by (cases "find_lru (slots st)") (auto simp: evict_lru_def intro: drop_slot_shorter find_lru_mem)

lemma evict_owner_shorter: "slots st \<noteq> [] \<Longrightarrow> length (slots (snd (evict_lru_for_owner L ow c st))) < length (slots st)"
proof (cases "find_lru (filter (\<lambda>(_, s). owner s = ow) (slots st))")
  case None
  then show "slots st \<noteq> [] \<Longrightarrow> ?thesis" by (simp add: evict_lru_for_owner_def evict_lru_shorter del: find_lru_None)
next
  case (Some p)
  then have "p \<in> set (slots st)" using find_lru_mem by fastforce
  then show "slots st \<noteq> [] \<Longrightarrow> ?thesis" using Some by (simp add: evict_lru_for_owner_def drop_slot_shorter)
qed

text \<open>The two eviction loops of \<^verbatim>\<open>get_or_create\<close>; both caps are positive when a loop runs.\<close>

function evict_owner_loop :: "'c llama \<Rightarrow> string \<Rightarrow> 'c \<Rightarrow> session_store \<Rightarrow> 'c \<times> session_store" where
  "evict_owner_loop L ow c st =
     (if 0 < max_slots_per_user st \<and> count_for_owner st ow \<ge> max_slots_per_user st
      then evict_owner_loop L ow (fst (evict_lru_for_owner L ow c st)) (snd (evict_lru_for_owner L ow c st))
      else (c, st))"
  by pat_completeness auto
termination
  by (relation "measure (\<lambda>(L, ow, c, st). length (slots st))")
     (auto simp: count_for_owner_def split_def intro!: evict_owner_shorter split: if_splits)

function evict_loop :: "'c llama \<Rightarrow> 'c \<Rightarrow> session_store \<Rightarrow> 'c \<times> session_store" where
  "evict_loop L c st =
     (if slots st \<noteq> [] \<and> length (slots st) \<ge> max_slots st
      then evict_loop L (fst (evict_lru L c st)) (snd (evict_lru L c st))
      else (c, st))"
  by pat_completeness auto
termination
  by (relation "measure (\<lambda>(L, c, st). length (slots st))") (auto simp: split_def intro: evict_lru_shorter)

declare evict_owner_loop.simps [simp del] evict_loop.simps [simp del]

definition get_or_create ::
  "'c llama \<Rightarrow> 'c \<Rightarrow> session_store \<Rightarrow> string \<Rightarrow> string \<Rightarrow> session_err \<times> string option \<times> 'c \<times> session_store" where
  "get_or_create L c st i ow =
     (case map_of (slots st) i of
        Some s \<Rightarrow>
          if ow \<noteq> [] \<and> owner s \<noteq> [] \<and> owner s \<noteq> ow then (OwnerMismatch, None, c, st)
          else (No_err, Some i, c, touch_slot st i (\<lambda>s. if ow \<noteq> [] \<and> owner s = [] then s\<lparr>owner := ow\<rparr> else s))
      | None \<Rightarrow>
          (let (c, st) = (if ow \<noteq> [] \<and> max_slots_per_user st > 0 then evict_owner_loop L ow c st else (c, st));
               (c, st) = evict_loop L c st;
               (seq, st) = alloc_seq st;
               (c, seq, st) = (if seq < 0
                               then let (c, st) = evict_lru L c st; (seq, st) = alloc_seq st in (c, seq, st)
                               else (c, seq, st));
               st = st\<lparr>tick := tick st + 1,
                       slots := slots st @ [(i, new_session_slot\<lparr>sid := i, owner := ow, seq_id := seq, last_tick := tick st + 1\<rparr>)]\<rparr>
           in (No_err, Some i, c, st)))"

definition remove_session :: "'c llama \<Rightarrow> 'c \<Rightarrow> session_store \<Rightarrow> string \<Rightarrow> 'c \<times> session_store" where
  "remove_session L c st i =
     (case map_of (slots st) i of None \<Rightarrow> (c, st) | Some s \<Rightarrow> drop_slot L c st (i, s))"

fun reset_all :: "'c llama \<Rightarrow> 'c \<Rightarrow> (string \<times> session_slot) list \<Rightarrow> 'c" where
  "reset_all L c [] = c"
| "reset_all L c (p # ps) = reset_all L (fst (session_reset_kv L c (snd p))) ps"

definition clear_store :: "'c llama \<Rightarrow> 'c \<Rightarrow> session_store \<Rightarrow> 'c \<times> session_store" where
  "clear_store L c st = (reset_all L c (slots st), st\<lparr>slots := [], seq_free := replicate (length (seq_free st)) True\<rparr>)"

section \<open>Invariants\<close>

definition lane_used :: "session_store \<Rightarrow> int \<Rightarrow> bool" where
  "lane_used st i \<longleftrightarrow> i \<in> (\<lambda>p. seq_id (snd p)) ` set (slots st)"

definition store_inv :: "session_store \<Rightarrow> bool" where
  "store_inv st \<longleftrightarrow>
     1 \<le> max_slots st \<and> 1 \<le> n_seq_cap st \<and> length (seq_free st) = n_seq_cap st \<and> length (slots st) \<le> max_slots st
     \<and> distinct (map fst (slots st)) \<and> distinct (map (\<lambda>p. seq_id (snd p)) (slots st))
     \<and> (\<forall>p \<in> set (slots st). sid (snd p) = fst p \<and> 0 \<le> seq_id (snd p) \<and> seq_id (snd p) < int (n_seq_cap st)
          \<and> last_tick (snd p) \<le> tick st)
     \<and> (\<forall>i < n_seq_cap st. seq_free st ! i \<longleftrightarrow> \<not> lane_used st (int i))"

text \<open>The lanes agree with the ledgers, and the free lanes are empty.\<close>

definition lanes_ok :: "('c \<Rightarrow> int \<Rightarrow> int list) \<Rightarrow> 'c \<Rightarrow> session_store \<Rightarrow> bool" where
  "lanes_ok kv c st \<longleftrightarrow>
     (\<forall>p \<in> set (slots st). kv c (seq_id (snd p)) = kv_tokens (snd p))
     \<and> (\<forall>i < n_seq_cap st. \<not> lane_used st (int i) \<longrightarrow> kv c (int i) = [])"

definition frame :: "session_store \<Rightarrow> session_store \<Rightarrow> bool" where
  "frame st st' \<longleftrightarrow> max_slots st' = max_slots st \<and> max_slots_per_user st' = max_slots_per_user st
     \<and> n_seq_cap st' = n_seq_cap st \<and> tick st' = tick st \<and> set (slots st') \<subseteq> set (slots st)"

lemma frame_refl: "frame st st"
  by (simp add: frame_def)

lemma frame_trans: "frame a b \<Longrightarrow> frame b c \<Longrightarrow> frame a c"
  by (auto simp: frame_def)

lemma inj_of_distinct_map: "distinct (map f xs) \<Longrightarrow> x \<in> set xs \<Longrightarrow> y \<in> set xs \<Longrightarrow> f x = f y \<Longrightarrow> x = y"
  by (auto simp: distinct_map inj_on_def)

lemma drop_good:
  assumes L: "llama_ok L kv" and inv: "store_inv st" "lanes_ok kv c st" and p: "p \<in> set (slots st)"
  shows "store_inv (snd (drop_slot L c st p)) \<and> lanes_ok kv (fst (drop_slot L c st p)) (snd (drop_slot L c st p))
    \<and> frame st (snd (drop_slot L c st p)) \<and> \<not> lane_used (snd (drop_slot L c st p)) (seq_id (snd p))"
proof -
  let ?q = "seq_id (snd p)" and ?ps = "filter (\<lambda>q. fst q \<noteq> fst p) (slots st)"
  have d: "distinct (map fst (slots st))" "distinct (map (\<lambda>p. seq_id (snd p)) (slots st))"
    and s: "\<And>p. p \<in> set (slots st) \<Longrightarrow> sid (snd p) = fst p \<and> 0 \<le> seq_id (snd p) \<and> seq_id (snd p) < int (n_seq_cap st)
        \<and> last_tick (snd p) \<le> tick st"
    and f: "\<And>i. i < n_seq_cap st \<Longrightarrow> seq_free st ! i \<longleftrightarrow> \<not> lane_used st (int i)"
    and n: "length (seq_free st) = n_seq_cap st"
    using inv(1) by (auto simp: store_inv_def)
  have ps: "set ?ps = set (slots st) - {p}"
    using inj_of_distinct_map [OF d(1) _ p] by auto
  have sp: "0 \<le> ?q" "?q < int (n_seq_cap st)" using s [OF p] by auto
  let ?st = "st\<lparr>slots := ?ps, seq_free := (seq_free st)[nat ?q := True]\<rparr>"
  have ds: "drop_slot L c st p = (session_clear_seq L c ?q, ?st)"
    using sp by (simp add: drop_slot_def Let_def session_reset_kv_def free_seq_def)
  have used: "lane_used ?st i \<longleftrightarrow> lane_used st i \<and> i \<noteq> ?q" for i
    using inj_of_distinct_map [OF d(2) _ p] p unfolding lane_used_def by (auto simp: ps simp del: set_filter)
  have cl: "kv (session_clear_seq L c ?q) ?q = []" "\<And>i. i \<noteq> ?q \<Longrightarrow> kv (session_clear_seq L c ?q) i = kv c i"
    using clear_ok [OF L sp(1)] by auto
  have "seq_free ?st ! i \<longleftrightarrow> \<not> lane_used ?st (int i)" if "i < n_seq_cap st" for i
    using f [OF that] that n sp by (auto simp: used nth_list_update)
  then have "store_inv ?st"
    using inv(1) s d by (auto simp: store_inv_def distinct_map_filter intro: le_trans [OF length_filter_le])
  moreover have "kv c (seq_id (snd x)) = kv_tokens (snd x)" "seq_id (snd x) \<noteq> ?q" if "x \<in> set ?ps" for x
    using inv(2) that ps inj_of_distinct_map [OF d(2) _ p] unfolding lanes_ok_def by blast+
  then have "lanes_ok kv (session_clear_seq L c ?q) ?st"
    using inv(2) cl unfolding lanes_ok_def used by (auto simp del: set_filter) (metis cl)
  moreover have "frame st ?st" by (auto simp: frame_def)
  ultimately show ?thesis by (simp add: ds used)
qed

text \<open>\<open>good\<close>: both invariants; every eviction keeps it.\<close>

definition good :: "('c \<Rightarrow> int \<Rightarrow> int list) \<Rightarrow> 'c \<times> session_store \<Rightarrow> bool" where
  "good kv x \<longleftrightarrow> store_inv (snd x) \<and> lanes_ok kv (fst x) (snd x)"

lemma drop_keeps:
  assumes "llama_ok L kv" "good kv (c, st)" "p \<in> set (slots st)"
  shows "good kv (drop_slot L c st p) \<and> frame st (snd (drop_slot L c st p))"
  using drop_good [OF assms(1) _ _ assms(3)] assms(2) by (auto simp: good_def)

lemma evict_lru_keeps:
  assumes "llama_ok L kv" "good kv (c, st)"
  shows "good kv (evict_lru L c st) \<and> frame st (snd (evict_lru L c st))"
  using drop_keeps [OF assms] assms(2)
  by (cases "find_lru (slots st)") (auto simp: evict_lru_def frame_refl dest: find_lru_mem simp del: find_lru_None)

lemma evict_owner_keeps:
  assumes "llama_ok L kv" "good kv (c, st)"
  shows "good kv (evict_lru_for_owner L ow c st) \<and> frame st (snd (evict_lru_for_owner L ow c st))"
proof (cases "find_lru (filter (\<lambda>(_, s). owner s = ow) (slots st))")
  case None
  then show ?thesis using evict_lru_keeps [OF assms] assms(2)
    by (simp add: evict_lru_for_owner_def frame_refl del: find_lru_None)
next
  case (Some p)
  then have "p \<in> set (slots st)" using find_lru_mem by fastforce
  then show ?thesis using Some drop_keeps [OF assms] assms(2) by (simp add: evict_lru_for_owner_def frame_refl)
qed

lemma evict_owner_loop_keeps:
  "llama_ok L kv \<Longrightarrow> good kv (c, st) \<Longrightarrow> good kv (evict_owner_loop L ow c st) \<and> frame st (snd (evict_owner_loop L ow c st))
    \<and> (0 < max_slots_per_user st \<longrightarrow> count_for_owner (snd (evict_owner_loop L ow c st)) ow < max_slots_per_user st)"
proof (induction L ow c st rule: evict_owner_loop.induct)
  case (1 L ow c st)
  let ?e = "evict_lru_for_owner L ow c st"
  have k: "good kv ?e \<and> frame st (snd ?e)" by (rule evict_owner_keeps [OF "1.prems"])
  show ?case
  proof (cases "0 < max_slots_per_user st \<and> count_for_owner st ow \<ge> max_slots_per_user st")
    case True
    then have "evict_owner_loop L ow c st = evict_owner_loop L ow (fst ?e) (snd ?e)" by (subst evict_owner_loop.simps) simp
    moreover have "max_slots_per_user (snd ?e) = max_slots_per_user st" using k by (simp add: frame_def)
    ultimately show ?thesis using "1.IH" [OF True "1.prems"(1)] k frame_trans by fastforce
  next
    case False
    then show ?thesis using "1.prems" by (subst (1 2 3) evict_owner_loop.simps) (auto simp: frame_refl)
  qed
qed

lemma evict_loop_keeps:
  "llama_ok L kv \<Longrightarrow> good kv (c, st) \<Longrightarrow> good kv (evict_loop L c st) \<and> frame st (snd (evict_loop L c st))
    \<and> length (slots (snd (evict_loop L c st))) < max_slots st"
proof (induction L c st rule: evict_loop.induct)
  case (1 L c st)
  let ?e = "evict_lru L c st"
  have k: "good kv ?e \<and> frame st (snd ?e)" by (rule evict_lru_keeps [OF "1.prems"])
  show ?case
  proof (cases "slots st \<noteq> [] \<and> length (slots st) \<ge> max_slots st")
    case True
    then have "evict_loop L c st = evict_loop L (fst ?e) (snd ?e)" by (subst evict_loop.simps) simp
    moreover have "max_slots (snd ?e) = max_slots st" using k by (simp add: frame_def)
    ultimately show ?thesis using "1.IH" [OF True "1.prems"(1)] k frame_trans by fastforce
  next
    case False
    moreover have "1 \<le> max_slots st" using "1.prems"(2) by (simp add: good_def store_inv_def)
    ultimately show ?thesis using "1.prems" by (subst (1 2 3) evict_loop.simps) (auto simp: frame_refl)
  qed
qed

lemma first_free_Some: "first_free bs = Some i \<Longrightarrow> i < length bs \<and> bs ! i"
  by (induction bs arbitrary: i) (auto split: if_splits)

lemma first_free_None: "first_free bs = None \<longleftrightarrow> True \<notin> set bs"
  by (induction bs) auto

lemma alloc_lane:
  assumes "store_inv st" "alloc_seq st = (q, st')" "0 \<le> q"
  shows "\<exists>i < n_seq_cap st. q = int i \<and> \<not> lane_used st q \<and> st' = st\<lparr>seq_free := (seq_free st)[i := False]\<rparr>"
  using assms first_free_Some [of "seq_free st"]
  by (auto simp: alloc_seq_def store_inv_def split: option.splits)

lemma alloc_fails:
  assumes "store_inv st" "alloc_seq st = (q, st')" "q < 0" "i < n_seq_cap st"
  shows "lane_used st (int i) \<and> st' = st"
proof -
  have "first_free (seq_free st) = None" "st' = st" "length (seq_free st) = n_seq_cap st"
    using assms by (auto simp: alloc_seq_def store_inv_def split: option.splits)
  with assms(1,4) show ?thesis by (metis first_free_None nth_mem store_inv_def)
qed

definition with_new_slot :: "session_store \<Rightarrow> string \<Rightarrow> string \<Rightarrow> int \<Rightarrow> session_store" where
  "with_new_slot st i ow seq = st\<lparr>tick := tick st + 1,
     slots := slots st @ [(i, new_session_slot\<lparr>sid := i, owner := ow, seq_id := seq, last_tick := tick st + 1\<rparr>)]\<rparr>"

lemma new_slot_good:
  assumes g: "good kv (c, st)" and a: "alloc_seq st = (q, st')" "0 \<le> q" and i: "i \<notin> fst ` set (slots st)"
    and room: "length (slots st) < max_slots st"
  shows "good kv (c, with_new_slot st' i ow q) \<and> kv c q = []"
proof -
  have inv: "store_inv st" "lanes_ok kv c st" using g by (simp_all add: good_def)
  obtain n where n: "n < n_seq_cap st" "q = int n" "\<not> lane_used st q" "st' = st\<lparr>seq_free := (seq_free st)[n := False]\<rparr>"
    using alloc_lane [OF inv(1) a] by blast
  let ?st = "with_new_slot st' i ow q"
  have used: "lane_used ?st j \<longleftrightarrow> lane_used st j \<or> j = q" for j
    by (auto simp: lane_used_def with_new_slot_def n(4))
  have sf: "seq_free ?st = (seq_free st)[n := False]" by (simp add: with_new_slot_def n(4))
  have empty: "kv c q = []" using inv(2) n by (auto simp: lanes_ok_def)
  have "seq_free ?st ! j \<longleftrightarrow> \<not> lane_used ?st (int j)" if "j < n_seq_cap st" for j
    unfolding sf used using inv(1) that n(1,2,3) by (auto simp: store_inv_def nth_list_update)
  then have "store_inv ?st"
    using inv(1) i n(1,2,3) room
    by (auto simp: store_inv_def with_new_slot_def n(4) lane_used_def intro: order_trans [OF _ less_imp_le])
  moreover have "lanes_ok kv c ?st"
    using inv(2) empty by (auto simp: lanes_ok_def used) (auto simp: with_new_slot_def n(4) new_session_slot_def)
  ultimately show ?thesis using empty by (simp add: good_def)
qed

section \<open>Properties\<close>

lemma touch_slot_good:
  assumes g: "good kv (c, st)" and f: "\<And>s. sid (f s) = sid s \<and> seq_id (f s) = seq_id s \<and> kv_tokens (f s) = kv_tokens s"
  shows "good kv (c, touch_slot st i f)"
proof -
  let ?st = "touch_slot st i f"
  let ?g = "\<lambda>p. if fst p = i then (fst p, (f (snd p))\<lparr>last_tick := tick st + 1\<rparr>) else p"
  have sl: "slots ?st = map ?g (slots st)" by (auto simp: touch_slot_def)
  have p: "fst (?g p) = fst p" "seq_id (snd (?g p)) = seq_id (snd p)" "sid (snd (?g p)) = sid (snd p)"
    "kv_tokens (snd (?g p)) = kv_tokens (snd p)" for p using f by simp_all
  have m: "map fst (slots ?st) = map fst (slots st)" "map (\<lambda>p. seq_id (snd p)) (slots ?st) = map (\<lambda>p. seq_id (snd p)) (slots st)"
    unfolding sl map_map comp_def p by simp_all
  have used: "lane_used ?st j = lane_used st j" for j
    unfolding lane_used_def using arg_cong [OF m(2), of set] by simp
  have tk: "last_tick (snd (?g p)) \<le> tick st + 1" if "p \<in> set (slots st)" for p
    using g that by (auto simp: good_def store_inv_def)
  have fr: "max_slots ?st = max_slots st" "n_seq_cap ?st = n_seq_cap st" "seq_free ?st = seq_free st" "tick ?st = tick st + 1"
    "length (slots ?st) = length (slots st)"
    by (simp_all add: touch_slot_def)
  have "\<forall>q \<in> set (slots ?st). \<exists>p \<in> set (slots st). fst q = fst p \<and> sid (snd q) = sid (snd p) \<and> seq_id (snd q) = seq_id (snd p)
      \<and> kv_tokens (snd q) = kv_tokens (snd p) \<and> last_tick (snd q) \<le> tick st + 1"
    unfolding sl set_map using p tk by blast
  then show ?thesis
    using g unfolding good_def store_inv_def lanes_ok_def fst_conv snd_conv fr m used by metis
qed

lemma map_of_touch:
  "map_of (slots (touch_slot st i f)) i = map_option (\<lambda>s. (f s)\<lparr>last_tick := tick st + 1\<rparr>) (map_of (slots st) i)"
proof -
  have "map_of (map (\<lambda>(k, s). if k = i then (k, (f s)\<lparr>last_tick := n\<rparr>) else (k, s)) xs) i = map_option (\<lambda>s. (f s)\<lparr>last_tick := n\<rparr>) (map_of xs i)"
    for xs :: "(string \<times> session_slot) list" and n by (induction xs) auto
  then show ?thesis by (simp add: touch_slot_def)
qed

lemma good_distinct: "good kv (c, st) \<Longrightarrow> distinct (slots st)"
  by (auto simp: good_def store_inv_def distinct_map)

lemma count_mono:
  assumes "good kv (c, st)" "good kv (c', st')" "set (slots st') \<subseteq> set (slots st)"
  shows "count_for_owner st' ow \<le> count_for_owner st ow"
proof -
  have "length (filter P (slots st')) \<le> length (filter P (slots st))" for P
    using assms good_distinct [OF assms(1)] good_distinct [OF assms(2)]
    by (simp add: distinct_card [symmetric]) (intro card_mono, auto)
  then show ?thesis by (simp add: count_for_owner_def)
qed

lemma length_mono:
  assumes "good kv (c, st)" "good kv (c', st')" "set (slots st') \<subseteq> set (slots st)"
  shows "length (slots st') \<le> length (slots st)"
  using assms(3) card_mono [OF _ assms(3)] distinct_card [OF good_distinct [OF assms(1)]] distinct_card [OF good_distinct [OF assms(2)]]
  by simp

text \<open>When no lane is free, evicting the least recently used slot frees one.\<close>

lemma evict_then_alloc:
  assumes L: "llama_ok L kv" and g: "good kv (c, st)" and a: "alloc_seq st = (q, st0)" "q < 0"
    and e: "evict_lru L c st = (c1, st1)" and a1: "alloc_seq st1 = (q1, st2)"
  shows "0 \<le> q1 \<and> good kv (c1, st1) \<and> frame st st1"
proof -
  have inv: "store_inv st" and cap: "0 < n_seq_cap st" using g by (auto simp: good_def store_inv_def)
  have "lane_used st (int 0)" using alloc_fails [OF inv a cap] by blast
  then obtain p where p: "find_lru (slots st) = Some p"
    by (cases "find_lru (slots st)") (auto simp: lane_used_def)
  then have mem: "p \<in> set (slots st)" by (rule find_lru_mem)
  have ev: "drop_slot L c st p = (c1, st1)" using e p by (simp add: evict_lru_def)
  from drop_good [OF L _ _ mem, of c] g ev
  have r: "store_inv st1" "lanes_ok kv c1 st1" "frame st st1" "\<not> lane_used st1 (seq_id (snd p))"
    by (auto simp: good_def)
  have "0 \<le> seq_id (snd p)" "seq_id (snd p) < int (n_seq_cap st1)"
    using inv mem r(3) by (auto simp: store_inv_def frame_def)
  then have "0 \<le> q1"
    using alloc_fails [OF r(1) a1, of "nat (seq_id (snd p))"] r(4) by (cases "q1 < 0") (auto simp: nat_less_iff)
  with r show ?thesis by (simp add: good_def)
qed

lemma create_spec:
  assumes L: "llama_ok L kv" and g: "good kv (c, st)" and new: "map_of (slots st) i = None"
    and r: "get_or_create L c st i ow = (err, res, c', st')"
  shows "err = No_err \<and> res = Some i \<and> good kv (c', st')
    \<and> (\<exists>q st1. 0 \<le> q \<and> kv c' q = [] \<and> st' = with_new_slot st1 i ow q \<and> set (slots st1) \<subseteq> set (slots st)
         \<and> (ow \<noteq> [] \<and> 0 < max_slots_per_user st \<longrightarrow> count_for_owner st1 ow < max_slots_per_user st)
         \<and> max_slots_per_user st1 = max_slots_per_user st \<and> max_slots st1 = max_slots st)"
proof -
  let ?own = "ow \<noteq> [] \<and> max_slots_per_user st > 0"
  obtain c1 st1 where e1: "(if ?own then evict_owner_loop L ow c st else (c, st)) = (c1, st1)" by fastforce
  obtain c2 st2 where e2: "evict_loop L c1 st1 = (c2, st2)" by fastforce
  obtain q st3 where a: "alloc_seq st2 = (q, st3)" by fastforce
  have g1: "good kv (c1, st1)" "frame st st1" "?own \<longrightarrow> count_for_owner st1 ow < max_slots_per_user st"
    using evict_owner_loop_keeps [OF L g, of ow] e1 g by (auto simp: frame_refl split: if_splits)
  have g2: "good kv (c2, st2)" "frame st1 st2" "length (slots st2) < max_slots st1"
    using evict_loop_keeps [OF L g1(1)] e2 by auto
  have f2: "frame st st2" using frame_trans [OF g1(2) g2(2)] .
  have cnt: "?own \<longrightarrow> count_for_owner st2 ow < max_slots_per_user st"
    using g1(3) count_mono [OF g1(1) g2(1), of ow] g2(2) by (auto simp: frame_def)
  have keys: "i \<notin> fst ` set (slots x)" if "set (slots x) \<subseteq> set (slots st)" for x :: session_store
    using that new by (auto simp: map_of_eq_None_iff)
  show ?thesis
  proof (cases "q < 0")
    case False
    then have "err = No_err" "res = Some i" "c' = c2" "st' = with_new_slot st3 i ow q"
      using r new e1 e2 a by (auto simp: get_or_create_def with_new_slot_def Let_def)
    moreover have "slots st3 = slots st2" "max_slots_per_user st3 = max_slots_per_user st2" "max_slots st3 = max_slots st2" using a by (auto simp: alloc_seq_def split: option.splits)
    ultimately show ?thesis
      using new_slot_good [OF g2(1) a _ keys, of ow] False f2 g2(2,3) cnt
      by (auto simp: frame_def count_for_owner_def intro!: exI [of _ q] exI [of _ st3])
  next
    case True
    obtain c4 st4 where e4: "evict_lru L c2 st2 = (c4, st4)" by fastforce
    obtain q5 st5 where a5: "alloc_seq st4 = (q5, st5)" by fastforce
    have res: "err = No_err" "res = Some i" "c' = c4" "st' = with_new_slot st5 i ow q5"
      using r new e1 e2 a True e4 a5 by (auto simp: get_or_create_def with_new_slot_def Let_def alloc_fails)
        (use alloc_fails [of st2 q st3 0] g2(1) a True in \<open>auto simp: good_def store_inv_def\<close>)
    have et: "0 \<le> q5" "good kv (c4, st4)" "frame st2 st4"
      using evict_then_alloc [OF L g2(1) a True e4 a5] by auto
    have f4: "frame st st4" using frame_trans [OF f2 et(3)] .
    have sub: "set (slots st4) \<subseteq> set (slots st2)" using et(3) by (simp add: frame_def)
    have room: "length (slots st4) < max_slots st4"
      using length_mono [OF g2(1) et(2) sub] g2(2,3) et(3) by (simp add: frame_def)
    have cnt4: "?own \<longrightarrow> count_for_owner st4 ow < max_slots_per_user st"
      using cnt count_mono [OF g2(1) et(2) sub, of ow] by auto
    have s5: "slots st5 = slots st4" "max_slots_per_user st5 = max_slots_per_user st4" "max_slots st5 = max_slots st4" using a5 by (auto simp: alloc_seq_def split: option.splits)
    then show ?thesis
      using res new_slot_good [OF et(2) a5 et(1) keys room, of ow] et(1) f4 cnt4
      by (auto simp: frame_def count_for_owner_def intro!: exI [of _ q5] exI [of _ st5])
  qed
qed

lemma map_of_new_slot:
  "i \<notin> fst ` set (slots st) \<Longrightarrow> map_of (slots (with_new_slot st i ow q)) i =
     Some (new_session_slot\<lparr>sid := i, owner := ow, seq_id := q, last_tick := tick st + 1\<rparr>)"
proof -
  assume "i \<notin> fst ` set (slots st)"
  then have "map_of (slots st) i = None" by (simp add: map_of_eq_None_iff)
  then show ?thesis by (simp add: with_new_slot_def map_add_def)
qed

lemma get_or_create_spec:
  assumes L: "llama_ok L kv" and g: "good kv (c, st)" and r: "get_or_create L c st i ow = (err, res, c', st')"
  shows "good kv (c', st')
    \<and> (case res of
         None \<Rightarrow> err = OwnerMismatch \<and> c' = c \<and> st' = st \<and> (\<exists>s. map_of (slots st) i = Some s \<and> owner s \<noteq> ow \<and> owner s \<noteq> [])
       | Some k \<Rightarrow> err = No_err \<and> k = i \<and> (\<exists>s. map_of (slots st') i = Some s \<and> sid s = i \<and> 0 \<le> seq_id s
           \<and> last_tick s = tick st' \<and> (ow \<noteq> [] \<longrightarrow> owner s = ow)
           \<and> (map_of (slots st) i = None \<longrightarrow> kv_tokens s = [] \<and> kv c' (seq_id s) = [])))"
proof (cases "map_of (slots st) i")
  case None
  obtain q st1 where n: "0 \<le> q" "kv c' q = []" "st' = with_new_slot st1 i ow q" "set (slots st1) \<subseteq> set (slots st)"
    "err = No_err" "res = Some i" "good kv (c', st')"
    using create_spec [OF L g None r] by blast
  have "i \<notin> fst ` set (slots st1)" using n(4) None by (auto simp: map_of_eq_None_iff)
  from map_of_new_slot [OF this, of ow q] n show ?thesis by (simp add: new_session_slot_def with_new_slot_def)
next
  case (Some s)
  show ?thesis
  proof (cases "ow \<noteq> [] \<and> owner s \<noteq> [] \<and> owner s \<noteq> ow")
    case True
    then show ?thesis using r Some g by (auto simp: get_or_create_def)
  next
    case False
    let ?f = "\<lambda>s. if ow \<noteq> [] \<and> owner s = [] then s\<lparr>owner := ow\<rparr> else s"
    have res: "err = No_err" "res = Some i" "c' = c" "st' = touch_slot st i ?f"
      using r Some False by (auto simp: get_or_create_def)
    have "(i, s) \<in> set (slots st)" using Some by (rule map_of_SomeD)
    then have "sid s = i" "0 \<le> seq_id s" using g by (auto simp: good_def store_inv_def)
    moreover have "good kv (c, touch_slot st i ?f)" by (rule touch_slot_good [OF g]) auto
    moreover have "tick (touch_slot st i ?f) = tick st + 1" by (simp add: touch_slot_def)
    ultimately show ?thesis using res Some False by (auto simp: map_of_touch)
  qed
qed


text \<open>
  The per-tenant cap: when a session is created for a tenant, the tenant then has at most
  \<^verbatim>\<open>max_slots_per_user\<close> sessions, and every session of the store that is not the new one was there before.
\<close>

theorem per_user_cap:
  assumes "llama_ok L kv" "good kv (c, st)" "map_of (slots st) i = None" "ow \<noteq> []" "0 < max_slots_per_user st"
    "get_or_create L c st i ow = (err, res, c', st')"
  shows "count_for_owner st' ow \<le> max_slots_per_user st' \<and> fst ` set (slots st') \<subseteq> insert i (fst ` set (slots st))"
proof -
  obtain q st1 where n: "st' = with_new_slot st1 i ow q" "set (slots st1) \<subseteq> set (slots st)"
    "count_for_owner st1 ow < max_slots_per_user st" "max_slots_per_user st1 = max_slots_per_user st"
    using create_spec [OF assms(1,2,3,6)] assms(4,5) by blast
  then show ?thesis using assms(4) by (auto simp: count_for_owner_def with_new_slot_def new_session_slot_def)
qed

lemma scan_lru_least: "q \<in> insert b (set ps) \<Longrightarrow> last_tick (snd (scan_lru b ps)) \<le> last_tick (snd q)"
  by (induction b ps arbitrary: q rule: scan_lru.induct) (fastforce split: if_splits)+

lemma find_lru_least: "find_lru ps = Some p \<Longrightarrow> q \<in> set ps \<Longrightarrow> last_tick (snd p) \<le> last_tick (snd q)"
  using scan_lru_least [of q] by (fastforce simp: find_lru_def split: list.splits)

lemma reset_all_clears:
  "llama_ok L kv \<Longrightarrow> \<forall>p \<in> set ps. 0 \<le> seq_id (snd p) \<Longrightarrow>
   kv (reset_all L c ps) i = (if i \<in> (\<lambda>p. seq_id (snd p)) ` set ps then [] else kv c i)"
proof (induction ps arbitrary: c)
  case (Cons p ps)
  then show ?case using clear_ok [of L kv "seq_id (snd p)" c] by (auto simp: session_reset_kv_def)
qed simp

lemma removal_spec:
  assumes L: "llama_ok L kv" and g: "good kv (c, st)"
  shows "(slots st \<noteq> [] \<longrightarrow> (\<exists>p \<in> set (slots st). (\<forall>q \<in> set (slots st). last_tick (snd p) \<le> last_tick (snd q))
            \<and> slots (snd (evict_lru L c st)) = filter (\<lambda>q. fst q \<noteq> fst p) (slots st)))
    \<and> good kv (evict_lru L c st) \<and> good kv (remove_session L c st i) \<and> good kv (clear_store L c st)
    \<and> map_of (slots (snd (remove_session L c st i))) i = None \<and> slots (snd (clear_store L c st)) = []"
proof (intro conjI impI)
  assume "slots st \<noteq> []"
  then obtain p where p: "find_lru (slots st) = Some p" by (cases "find_lru (slots st)") auto
  with find_lru_mem [OF p] find_lru_least [OF p] show "\<exists>p \<in> set (slots st). (\<forall>q \<in> set (slots st). last_tick (snd p) \<le> last_tick (snd q))
            \<and> slots (snd (evict_lru L c st)) = filter (\<lambda>q. fst q \<noteq> fst p) (slots st)"
    by (intro bexI [of _ p]) (auto simp: evict_lru_def drop_slot_slots)
next
  show "good kv (evict_lru L c st)" using evict_lru_keeps [OF L g] by blast
  show "good kv (remove_session L c st i)"
    using g drop_keeps [OF L g] by (auto simp: remove_session_def dest: map_of_SomeD split: option.splits)
  show "map_of (slots (snd (remove_session L c st i))) i = None"
    by (auto simp: remove_session_def drop_slot_slots map_of_eq_None_iff split: option.splits)
  have s: "\<forall>p \<in> set (slots st). 0 \<le> seq_id (snd p)" using g by (auto simp: good_def store_inv_def)
  have "kv (reset_all L c (slots st)) (int j) = []" if "j < n_seq_cap st" for j
    using g that reset_all_clears [OF L s] by (auto simp: good_def lanes_ok_def lane_used_def)
  then show "good kv (clear_store L c st)"
    using g by (auto simp: good_def clear_store_def store_inv_def lanes_ok_def lane_used_def)
qed (simp add: clear_store_def)

text \<open>
  Eviction takes the least recently used slot, and removing a session or clearing the store keeps
  the store sound: the lanes of the sessions that go are emptied and become free, the others are untouched.
\<close>

theorem eviction_and_removal_sound:
  assumes L: "llama_ok L kv" and g: "good kv (c, st)"
  shows "(slots st \<noteq> [] \<longrightarrow> (\<exists>p \<in> set (slots st). (\<forall>q \<in> set (slots st). last_tick (snd p) \<le> last_tick (snd q))
            \<and> slots (snd (evict_lru L c st)) = filter (\<lambda>q. fst q \<noteq> fst p) (slots st)))
    \<and> good kv (evict_lru L c st) \<and> good kv (remove_session L c st i) \<and> good kv (clear_store L c st)
    \<and> map_of (slots (snd (remove_session L c st i))) i = None \<and> slots (snd (clear_store L c st)) = []"
  using assms by (rule removal_spec)

section \<open>Witnesses\<close>

theorem eviction_and_removal_sound_witness:
  "good (\<lambda>c. c) (evict_lru ref_llama (\<lambda>_. []) (new_session_store 3))"
proof -
  have "good (\<lambda>c. c) (\<lambda>_. [], new_session_store 3)"
    by (simp add: good_def store_inv_def lanes_ok_def lane_used_def new_session_store_def)
  from eviction_and_removal_sound [OF ref_llama_ok this] show ?thesis by blast
qed

text \<open>One lane, one slot, one tenant: creating a second session evicts the first.\<close>

definition demo_store :: session_store where
  "demo_store = set_max_slots_per_user (snd (snd (snd (get_or_create ref_llama (\<lambda>_. []) (new_session_store 2) ''a'' ''u'')))) 1"

lemma good_demo: "good (\<lambda>c. c) (\<lambda>_. [], demo_store)"
proof -
  have eq: "demo_store = \<lparr>max_slots = 2, max_slots_per_user = 1, n_seq_cap = 1, seq_free = [False], tick = 1,
     slots = [(''a'', \<lparr>sid = ''a'', owner = ''u'', kv_tokens = [], seq_id = 0, last_tick = 1\<rparr>)]\<rparr>" by code_simp
  show ?thesis unfolding eq by (simp add: good_def store_inv_def lanes_ok_def lane_used_def)
qed


theorem per_user_cap_witness:
  "\<exists>err res c' st'. get_or_create ref_llama (\<lambda>_. []) demo_store ''b'' ''u'' = (err, res, c', st') \<and> count_for_owner st' ''u'' \<le> 1"
proof -
  obtain err res c' st' where r: "get_or_create ref_llama (\<lambda>_. []) demo_store ''b'' ''u'' = (err, res, c', st')"
    by (metis prod_cases4)
  have n: "map_of (slots demo_store) ''b'' = None" "max_slots_per_user demo_store = 1" by code_simp+
  have "max_slots_per_user (snd (snd (snd (get_or_create ref_llama (\<lambda>_. []) demo_store ''b'' ''u'')))) = 1" by code_simp
  with per_user_cap [OF ref_llama_ok good_demo n(1) _ _ r] n(2) r show ?thesis by auto
qed

end
