(* ===== verification/Server_Generate.thy ===== *)
theory Server_Generate
  imports Server_Stream Session_Store
begin

text \<open>
  \<^verbatim>\<open>server/cne-server.cpp\<close>, the generation arms and the binding of a conversation to a session slot. What the code calls of
  llama.cpp beyond theory \<open>Session\<close> is the record \<open>gen_api\<close>: decoding an unpositioned batch
  (\<^verbatim>\<open>llama_decode\<close> of \<^verbatim>\<open>llama_batch_get_one\<close>), the sampler, the end-of-generation test. The clock at the i-th
  poll and the moves of the HTTP thread on the token stream before the poll and before the emission are the arguments
  \<open>clock\<close> and \<open>client\<close>. The streaming hooks (\<^verbatim>\<open>stream_set_step\<close>, \<^verbatim>\<open>stream_prefetch_kick_full\<close>, \<^verbatim>\<open>stream_step_boundary\<close>)
  act on the expert cache only and are left out.
\<close>

section \<open>Generation\<close>

record ('c, 's) gen_api =
  decode_one :: "'c \<Rightarrow> int list \<Rightarrow> int \<times> 'c"
  sample :: "'s \<Rightarrow> 'c \<Rightarrow> int \<times> 's"
  is_eog :: "int \<Rightarrow> bool"

record ('c, 's) gen_state =
  gs_ctx :: 'c
  gs_smpl :: 's
  gs_slot :: "session_slot option"
  gs_emit :: emit_ctx
  gs_reason :: string
  gs_stats :: "prefill_stats option"

text \<open>The prefill of a stateless request, in batches; with a batch size below one the loop does not advance.\<close>

function prefill_one :: "('c, 's) gen_api \<Rightarrow> 'c \<Rightarrow> int \<Rightarrow> int list \<Rightarrow> (bool \<times> 'c) option" where
  "prefill_one A c nb toks =
     (if toks = [] then Some (True, c)
      else if nb < 1 then None
      else let (ret, c) = decode_one A c (take (nat nb) toks)
           in if ret \<noteq> 0 then Some (False, c) else prefill_one A c nb (drop (nat nb) toks))"
  by pat_completeness auto
termination
  by (relation "measure (\<lambda>(A, c, nb, toks). length toks)") auto

declare prefill_one.simps [simp del]

definition client_moves :: "(token_stream \<Rightarrow> token_stream) \<Rightarrow> emit_ctx \<Rightarrow> emit_ctx" where
  "client_moves f e = e\<lparr>ec_stream := map_option f (ec_stream e)\<rparr>"

text \<open>\<^verbatim>\<open>k\<close> iterations are left; the result carries the step at which decoding failed.\<close>

fun gen_loop ::
  "'c llama \<Rightarrow> ('c, 's) gen_api \<Rightarrow> detokenizer \<Rightarrow> (nat \<Rightarrow> token_stream \<Rightarrow> token_stream) \<Rightarrow> (nat \<Rightarrow> int) \<Rightarrow>
   nat \<Rightarrow> nat \<Rightarrow> ('c, 's) gen_state \<Rightarrow> srv_fail + nat option \<times> ('c, 's) gen_state" where
  "gen_loop L A dt client clock 0 i g = Inr (None, g)"
| "gen_loop L A dt client clock (Suc k) i g =
     (let (stop, e) = request_poll_stop (clock i) (client_moves (client (2 * i)) (gs_emit g)) in
      if stop then Inr (None, g\<lparr>gs_emit := e, gs_reason := ''abort''\<rparr>)
      else
        let (t, s) = sample A (gs_smpl g) (gs_ctx g) in
        if is_eog A t then Inr (None, g\<lparr>gs_emit := e, gs_smpl := s, gs_reason := ''stop''\<rparr>)
        else
          (case emit_token dt (client_moves (client (2 * i + 1)) e) t of
             Inl f \<Rightarrow> Inl f
           | Inr e \<Rightarrow>
               let slot = map_option (\<lambda>sl. session_append_token sl t) (gs_slot g);
                   (ok, c) = (case slot of
                                Some sl \<Rightarrow> session_decode_token L (gs_ctx g) sl t
                              | None \<Rightarrow> (let (ret, c) = decode_one A (gs_ctx g) [t] in (ret = 0, c)));
                   g = g\<lparr>gs_emit := e, gs_smpl := s, gs_slot := slot, gs_ctx := c\<rparr>
               in if \<not> ok then Inr (Some i, g\<lparr>gs_reason := ''error''\<rparr>)
                  else gen_loop L A dt client clock k (i + 1) g))"

definition generate_sequential ::
  "'c llama \<Rightarrow> ('c, 's) gen_api \<Rightarrow> detokenizer \<Rightarrow> (nat \<Rightarrow> token_stream \<Rightarrow> token_stream) \<Rightarrow> (nat \<Rightarrow> int) \<Rightarrow>
   int list \<Rightarrow> int \<Rightarrow> ('c, 's) gen_state \<Rightarrow> srv_fail + int \<times> ('c, 's) gen_state" where
  "generate_sequential L A dt client clock prompt n_gen g =
     (let prefilled =
        (case gs_slot g of
           Some slot \<Rightarrow>
             (case session_prefill L (gs_ctx g) slot prompt of
                None \<Rightarrow> None
              | Some (ok, c, slot, st) \<Rightarrow>
                  Some (ok, g\<lparr>gs_ctx := c, gs_slot := Some slot, gs_stats := (if st = None then gs_stats g else st)\<rparr>))
         | None \<Rightarrow>
             (let c = session_clear_seq L (gs_ctx g) 0 in
              case prefill_one A c (n_batch L c) prompt of
                None \<Rightarrow> None
              | Some (ok, c) \<Rightarrow> Some (ok, g\<lparr>gs_ctx := c\<rparr>)))
      in case prefilled of
           None \<Rightarrow> Inl Hangs
         | Some (False, g) \<Rightarrow> Inr (-1, g\<lparr>gs_reason := ''error''\<rparr>)
         | Some (True, g) \<Rightarrow>
             (case gen_loop L A dt client clock (nat n_gen) 0 g of
                Inl f \<Rightarrow> Inl f
              | Inr (Some i, g) \<Rightarrow> Inr (int i, g)
              | Inr (None, g) \<Rightarrow>
                  (let g = (if gs_reason g = [] then g\<lparr>gs_reason := ''length''\<rparr> else g)
                   in Inr (ec_emitted (gs_emit g), g))))"

text \<open>
  \<^verbatim>\<open>generate_mtp\<close> after \<^verbatim>\<open>spec_mtp_generate\<close>, whose outcome (the number of tokens produced and the emission context its
  callbacks left) is the argument.
\<close>

definition generate_mtp :: "int \<times> emit_ctx \<Rightarrow> int \<Rightarrow> string \<Rightarrow> int \<times> emit_ctx \<times> string" where
  "generate_mtp outcome n_gen reason =
     (let (produced, e) = outcome;
          reason = (if ec_stop_reason e \<noteq> 0 \<and> reason = [] then ''abort'' else reason)
      in if produced \<le> 0 \<and> reason = [] then (-1, e, ''error'')
         else (ec_emitted e, e, if reason = [] then (if produced < n_gen then ''stop'' else ''length'') else reason))"

section \<open>Conversations\<close>

record 'c engine =
  e_ctx :: 'c
  sessions :: session_store
  sessions_enabled :: bool
  active_conv_id :: string
  mtp_k :: int
  n_ctx :: int
  n_ctx_per_seq :: int
  think_default :: bool
  arch_qwen3_think_off :: bool
  arch_lfm2moe :: bool
  chat_template :: string
  max_req_ns :: "int option"

definition bind_conversation ::
  "'c llama \<Rightarrow> 'c engine \<Rightarrow> string \<Rightarrow> bool \<Rightarrow> string \<Rightarrow> string option \<times> 'c engine" where
  "bind_conversation L eng conv clear_conv ow =
     (let want = sessions_enabled eng \<and> conv \<noteq> [] \<and> mtp_k eng = 0 in
      if \<not> want then (None, eng\<lparr>active_conv_id := []\<rparr>)
      else
        (let (c, st) = (if clear_conv then remove_session L (e_ctx eng) (sessions eng) conv else (e_ctx eng, sessions eng));
             (err, res, c, st) = get_or_create L c st conv ow
         in (res, eng\<lparr>e_ctx := c, sessions := st, active_conv_id := conv\<rparr>)))"

section \<open>Lemmas\<close>

lemma client_moves_none [simp]: "ec_stream e = None \<Longrightarrow> client_moves f e = e"
  by (simp add: client_moves_def)

lemma poll_emit_inv:
  "request_poll_stop now e = (stop, e') \<Longrightarrow> emit_inv txt e \<Longrightarrow>
   emit_inv txt e' \<and> ec_em e' = ec_em e \<and> ec_stream e' = ec_stream e"
  by (auto simp: request_poll_stop_def emit_inv_def delivered_def client_gone_def split: if_splits option.splits)

lemma emit_token_stream_none: "emit_token dt e t = Inr e' \<Longrightarrow> ec_stream e = None \<Longrightarrow> ec_stream e' = None"
  by (auto simp: emit_token_def Let_def split: if_splits sum.splits prod.splits)

lemma decode_token_ok:
  assumes "llama_ok L kv" "0 \<le> seq_id sl" "session_decode_token L c sl t = (ok, c')"
  shows "(ok \<longrightarrow> kv c' (seq_id sl) = kv c (seq_id sl) @ [t]) \<and> (\<forall>s. s \<noteq> seq_id sl \<longrightarrow> kv c' s = kv c s)"
proof -
  let ?b = "[\<lparr>bt_token = t, bt_pos = kv_seq_len L c (seq_id sl), bt_seq = seq_id sl, bt_logits = True\<rparr>]"
  obtain ret c1 where d: "decode L c ?b = (ret, c1)" by fastforce
  have "contiguous (seq_id sl) (int (length (kv c (seq_id sl)))) ?b"
    by (simp add: contiguous_def kv_seq_len_ok [OF assms(1)])
  from decode_ok [OF assms(1) this d] assms(2,3) d show ?thesis by (auto simp: session_decode_token_def)
qed

text \<open>What the loop of a session request guarantees; \<open>out\<close> are the tokens generated.\<close>

definition gen_post ::
  "('c \<Rightarrow> int \<Rightarrow> int list) \<Rightarrow> (int list \<Rightarrow> string) \<Rightarrow> ('c, 's) gen_api \<Rightarrow> nat \<Rightarrow> session_slot \<Rightarrow> ('c, 's) gen_state \<Rightarrow> nat option \<Rightarrow> ('c, 's) gen_state \<Rightarrow> bool" where
  "gen_post kv txt A k sl g code g' \<longleftrightarrow>
     emit_inv txt (gs_emit g') \<and> ec_stream (gs_emit g') = None \<and>
     (\<forall>s. s \<noteq> seq_id sl \<longrightarrow> kv (gs_ctx g') s = kv (gs_ctx g) s) \<and>
     (\<exists>sl'. gs_slot g' = Some sl' \<and> seq_id sl' = seq_id sl \<and> sid sl' = sid sl \<and> owner sl' = owner sl \<and> last_tick sl' = last_tick sl \<and>
        (if code = None
         then \<exists>out. em_toks (ec_em (gs_emit g')) = em_toks (ec_em (gs_emit g)) @ out \<and> length out \<le> k \<and> list_all (\<lambda>t. \<not> is_eog A t) out \<and>
                kv_tokens sl' = kv_tokens sl @ out \<and> kv (gs_ctx g') (seq_id sl) = kv (gs_ctx g) (seq_id sl) @ out \<and>
                (gs_reason g' \<in> {''stop'', ''abort''} \<or> gs_reason g' = gs_reason g \<and> length out = k)
         else gs_reason g' = ''error''))"

lemma gen_loop_post:
  assumes L: "llama_ok L kv" and dt: "detok_ok dt txt" and mono: "\<And>ts t. \<exists>r. txt (ts @ [t]) = txt ts @ r"
  shows "gs_slot g = Some sl \<Longrightarrow> 0 \<le> seq_id sl \<Longrightarrow> emit_inv txt (gs_emit g) \<Longrightarrow> ec_stream (gs_emit g) = None \<Longrightarrow>
    \<exists>code g'. gen_loop L A dt client clock k i g = Inr (code, g') \<and> gen_post kv txt A k sl g code g'"
proof (induction k arbitrary: i g sl)
  case 0
  then show ?case by (auto simp: gen_post_def)
next
  case (Suc k)
  obtain stop e where p: "request_poll_stop (clock i) (gs_emit g) = (stop, e)" by fastforce
  have e: "emit_inv txt e" "ec_em e = ec_em (gs_emit g)" "ec_stream e = None"
    using poll_emit_inv [OF p Suc.prems(3)] Suc.prems(4) by auto
  obtain t s where sm: "sample A (gs_smpl g) (gs_ctx g) = (t, s)" by fastforce
  show ?case
  proof (cases "stop \<or> is_eog A t")
    case True
    then show ?thesis using Suc.prems p e sm by (auto simp: gen_post_def)
  next
    case False
    obtain e' where e': "emit_token dt e t = Inr e'" "emit_inv txt e'" "em_toks (ec_em e') = em_toks (ec_em e) @ [t]"
      using emit_token_ok [OF dt mono e(1)] by blast
    have n: "ec_stream e' = None" using emit_token_stream_none [OF e'(1) e(3)] .
    let ?sl = "session_append_token sl t"
    obtain ok c where d: "session_decode_token L (gs_ctx g) ?sl t = (ok, c)" by fastforce
    have k: "(ok \<longrightarrow> kv c (seq_id sl) = kv (gs_ctx g) (seq_id sl) @ [t]) \<and> (\<forall>s. s \<noteq> seq_id sl \<longrightarrow> kv c s = kv (gs_ctx g) s)"
      using decode_token_ok [OF L _ d] Suc.prems(2) by (simp add: session_append_token_def)
    let ?g = "g\<lparr>gs_emit := e', gs_smpl := s, gs_slot := Some ?sl, gs_ctx := c\<rparr>"
    have step: "gen_loop L A dt client clock (Suc k) i g =
        (if \<not> ok then Inr (Some i, ?g\<lparr>gs_reason := ''error''\<rparr>) else gen_loop L A dt client clock k (i + 1) ?g)"
      using False p e e' sm d Suc.prems(1,4) by simp
    show ?thesis
    proof (cases ok)
      case False
      then show ?thesis using step k e' n by (auto simp: gen_post_def session_append_token_def)
    next
      case True
      obtain code g' where r: "gen_loop L A dt client clock k (i + 1) ?g = Inr (code, g')" "gen_post kv txt A k ?sl ?g code g'"
        using Suc.IH [of ?g ?sl "i + 1"] Suc.prems(2) e' n by (auto simp: session_append_token_def)
      have "gen_post kv txt A (Suc k) sl g code g'"
      proof (cases code)
        case None
        with r(2) obtain out where out: "em_toks (ec_em (gs_emit g')) = em_toks (ec_em (gs_emit g)) @ t # out" "length out \<le> k"
          "list_all (\<lambda>t. \<not> is_eog A t) (t # out)" "gs_reason g' \<in> {''stop'', ''abort''} \<or> gs_reason g' = gs_reason g \<and> length out = k"
          "kv (gs_ctx g') (seq_id sl) = kv (gs_ctx g) (seq_id sl) @ t # out"
          "\<exists>sl'. gs_slot g' = Some sl' \<and> seq_id sl' = seq_id sl \<and> sid sl' = sid sl \<and> owner sl' = owner sl \<and> last_tick sl' = last_tick sl
             \<and> kv_tokens sl' = kv_tokens sl @ t # out"
          using k True e e' \<open>\<not> (stop \<or> is_eog A t)\<close> by (auto simp: gen_post_def session_append_token_def)
        obtain sl' where sl': "gs_slot g' = Some sl'" "seq_id sl' = seq_id sl" "sid sl' = sid sl" "owner sl' = owner sl"
          "last_tick sl' = last_tick sl" "kv_tokens sl' = kv_tokens sl @ t # out" using out(6) by blast
        have fr: "emit_inv txt (gs_emit g')" "ec_stream (gs_emit g') = None" "\<forall>s. s \<noteq> seq_id sl \<longrightarrow> kv (gs_ctx g') s = kv (gs_ctx g) s"
          using r(2) k by (simp_all add: gen_post_def session_append_token_def)
        have "\<exists>out. em_toks (ec_em (gs_emit g')) = em_toks (ec_em (gs_emit g)) @ out \<and> length out \<le> Suc k \<and> list_all (\<lambda>t. \<not> is_eog A t) out \<and>
                kv_tokens sl' = kv_tokens sl @ out \<and> kv (gs_ctx g') (seq_id sl) = kv (gs_ctx g) (seq_id sl) @ out \<and>
                (gs_reason g' \<in> {''stop'', ''abort''} \<or> gs_reason g' = gs_reason g \<and> length out = Suc k)"
          using out(1-5) sl'(6) by (intro exI [of _ "t # out"]) simp
        then show ?thesis unfolding gen_post_def None using fr sl' by (intro conjI exI [of _ sl']) simp_all
      next
        case (Some j)
        then show ?thesis using r(2) k by (auto simp: gen_post_def session_append_token_def)
      qed
      then show ?thesis using r(1) step True by auto
    qed
  qed
qed


lemma generate_session:
  assumes L: "llama_ok L kv" and dt: "detok_ok dt txt" and mono: "\<And>ts t. \<exists>r. txt (ts @ [t]) = txt ts @ r"
    and slot: "gs_slot g = Some sl" "0 \<le> seq_id sl" "kv (gs_ctx g) (seq_id sl) = kv_tokens sl" and p: "prompt \<noteq> []"
    and e: "emit_inv txt (gs_emit g)" "ec_stream (gs_emit g) = None" "em_toks (ec_em (gs_emit g)) = []" and r: "gs_reason g = []"
  shows "\<exists>n g' sl'. generate_sequential L A dt client clock prompt n_gen g = Inr (n, g') \<and> gs_slot g' = Some sl'
    \<and> (\<forall>s. s \<noteq> seq_id sl \<longrightarrow> kv (gs_ctx g') s = kv (gs_ctx g) s)
    \<and> seq_id sl' = seq_id sl \<and> sid sl' = sid sl \<and> owner sl' = owner sl \<and> last_tick sl' = last_tick sl
    \<and> (gs_reason g' \<noteq> ''error'' \<longrightarrow>
        (\<exists>out. kv (gs_ctx g') (seq_id sl) = prompt @ out \<and> kv_tokens sl' = prompt @ out \<and> ec_text (gs_emit g') = txt out
           \<and> n = int (length out) \<and> length out \<le> nat n_gen \<and> list_all (\<lambda>t. \<not> is_eog A t) out
           \<and> gs_reason g' \<in> {''stop'', ''abort'', ''length''} \<and> (gs_reason g' = ''length'' \<longrightarrow> length out = nat n_gen)))"
proof -
  obtain ok c sl1 st reused where pf: "session_prefill L (gs_ctx g) sl prompt = Some (ok, c, sl1, st)"
    "prefill_post kv (gs_ctx g) sl prompt reused (ok, c, sl1, st)"
    using session_prefill_spec [OF L slot(2) p, of "gs_ctx g"] slot(3) by fastforce
  let ?g = "g\<lparr>gs_ctx := c, gs_slot := Some sl1, gs_stats := (if st = None then gs_stats g else st)\<rparr>"
  have ids: "seq_id sl1 = seq_id sl" "sid sl1 = sid sl" "owner sl1 = owner sl" "last_tick sl1 = last_tick sl"
    "\<forall>s. s \<noteq> seq_id sl \<longrightarrow> kv c s = kv (gs_ctx g) s"
    using pf(2) by (auto simp: prefill_post_def)
  show ?thesis
  proof (cases ok)
    case False
    then show ?thesis using pf(1) ids slot(1) by (simp add: generate_sequential_def)
  next
    case True
    then have k: "kv c (seq_id sl) = prompt" "kv_tokens sl1 = prompt" using pf(2) by (auto simp: prefill_post_def)
    obtain code g' where lp: "gen_loop L A dt client clock (nat n_gen) 0 ?g = Inr (code, g')" "gen_post kv txt A (nat n_gen) sl1 ?g code g'"
      using gen_loop_post [OF L dt mono, of ?g sl1 A client clock "nat n_gen" 0] ids slot(2) e by auto
    have gen: "generate_sequential L A dt client clock prompt n_gen g =
        (case code of Some i \<Rightarrow> Inr (int i, g')
         | None \<Rightarrow> let g' = (if gs_reason g' = [] then g'\<lparr>gs_reason := ''length''\<rparr> else g') in Inr (ec_emitted (gs_emit g'), g'))"
      using pf(1) True lp(1) slot(1) by (simp add: generate_sequential_def split: option.splits)
    obtain sl' where sl': "gs_slot g' = Some sl'" "seq_id sl' = seq_id sl" "sid sl' = sid sl" "owner sl' = owner sl" "last_tick sl' = last_tick sl"
      and fr: "\<forall>s. s \<noteq> seq_id sl \<longrightarrow> kv (gs_ctx g') s = kv (gs_ctx g) s"
      using lp(2) ids by (auto simp: gen_post_def)
    show ?thesis
    proof (cases code)
      case (Some i)
      then have "gs_reason g' = ''error''" using lp(2) by (auto simp: gen_post_def)
      then show ?thesis using gen Some sl' fr by simp
    next
      case None
      then obtain out where out: "em_toks (ec_em (gs_emit g')) = out" "length out \<le> nat n_gen" "list_all (\<lambda>t. \<not> is_eog A t) out"
        "kv_tokens sl' = prompt @ out" "kv (gs_ctx g') (seq_id sl) = prompt @ out"
        "gs_reason g' \<in> {''stop'', ''abort''} \<or> gs_reason g' = [] \<and> length out = nat n_gen"
        using lp(2) sl'(1) ids k e(3) r by (auto simp: gen_post_def)
      have em: "ec_text (gs_emit g') = txt out" "ec_emitted (gs_emit g') = int (length out)"
        using lp(2) out(1) by (auto simp: gen_post_def emit_inv_def delivered_def)
      let ?g' = "if gs_reason g' = [] then g'\<lparr>gs_reason := ''length''\<rparr> else g'"
      have res: "generate_sequential L A dt client clock prompt n_gen g = Inr (int (length out), ?g')"
        using gen None em(2) by simp
      have "gs_reason ?g' \<in> {''stop'', ''abort'', ''length''} \<and> (gs_reason ?g' = ''length'' \<longrightarrow> length out = nat n_gen)"
        using out(6) by auto
      then show ?thesis
        using res sl' fr out(2-5) em(1) by (intro exI [of _ "int (length out)"] exI [of _ ?g'] exI [of _ sl']) auto
    qed
  qed
qed

section \<open>Writing the slot back\<close>

text \<open>The slot a request holds is a pointer into the store: what the request leaves in it is in the store.\<close>

definition put_slot :: "session_store \<Rightarrow> string \<Rightarrow> session_slot \<Rightarrow> session_store" where
  "put_slot st i sl = st\<lparr>slots := map (\<lambda>p. if fst p = i then (i, sl) else p) (slots st)\<rparr>"

lemma put_slot_good:
  assumes g: "good kv (c, st)" and s: "map_of (slots st) i = Some s"
    and sl: "sid sl = sid s" "seq_id sl = seq_id s" "last_tick sl = last_tick s"
    and k: "kv c' (seq_id s) = kv_tokens sl" "\<And>q. q \<noteq> seq_id s \<Longrightarrow> kv c' q = kv c q"
  shows "good kv (c', put_slot st i sl)"
proof -
  let ?st = "put_slot st i sl" and ?g = "\<lambda>p. if fst p = i then (i, sl) else p"
  have mem: "(i, s) \<in> set (slots st)" using s by (rule map_of_SomeD)
  have d: "distinct (map fst (slots st))" "distinct (map (\<lambda>p. seq_id (snd p)) (slots st))"
    using g by (auto simp: good_def store_inv_def)
  have eq: "p = (i, s)" if "p \<in> set (slots st)" "fst p = i" for p
    using inj_of_distinct_map [OF d(1) that(1) mem] that(2) by simp
  have p: "fst (?g p) = fst p" "seq_id (snd (?g p)) = seq_id (snd p)" "sid (snd (?g p)) = sid (snd p)"
    "last_tick (snd (?g p)) = last_tick (snd p)" if "p \<in> set (slots st)" for p
    using eq [OF that] sl by (cases p; force)+
  have m: "map fst (slots ?st) = map fst (slots st)" "map (\<lambda>p. seq_id (snd p)) (slots ?st) = map (\<lambda>p. seq_id (snd p)) (slots st)"
    using p by (simp_all add: put_slot_def)
  have used: "lane_used ?st j = lane_used st j" for j
    unfolding lane_used_def using arg_cong [OF m(2), of set] by simp
  have fr: "max_slots ?st = max_slots st" "n_seq_cap ?st = n_seq_cap st" "seq_free ?st = seq_free st" "tick ?st = tick st"
    "length (slots ?st) = length (slots st)"
    by (simp_all add: put_slot_def)
  have lane: "kv c' (seq_id (snd (?g p))) = kv_tokens (snd (?g p))" if "p \<in> set (slots st)" for p
  proof (cases "fst p = i")
    case True
    then show ?thesis using sl(2) k(1) by simp
  next
    case False
    then have "seq_id (snd p) \<noteq> seq_id s" using inj_of_distinct_map [OF d(2) that mem] by auto
    then show ?thesis using False that g k(2) by (auto simp: good_def lanes_ok_def)
  qed
  have st: "\<forall>q \<in> set (slots ?st). \<exists>p \<in> set (slots st). fst q = fst p \<and> sid (snd q) = sid (snd p) \<and> seq_id (snd q) = seq_id (snd p)
      \<and> last_tick (snd q) = last_tick (snd p) \<and> kv c' (seq_id (snd q)) = kv_tokens (snd q)"
  proof
    fix q assume "q \<in> set (slots ?st)"
    then have "q \<in> ?g ` set (slots st)" by (simp add: put_slot_def)
    then obtain p where "p \<in> set (slots st)" "q = ?g p" by blast
    then show "\<exists>p \<in> set (slots st). fst q = fst p \<and> sid (snd q) = sid (snd p) \<and> seq_id (snd q) = seq_id (snd p)
      \<and> last_tick (snd q) = last_tick (snd p) \<and> kv c' (seq_id (snd q)) = kv_tokens (snd q)"
      using p lane by blast
  qed
  have "lane_used st (seq_id s)" using mem by (auto simp: lane_used_def intro: rev_image_eqI)
  then have "int j \<noteq> seq_id s" if "\<not> lane_used st (int j)" for j using that by auto
  then have free: "kv c' (int j) = []" if "j < n_seq_cap st" "\<not> lane_used st (int j)" for j
    using that g k(2) [of "int j"] by (simp add: good_def lanes_ok_def)
  show ?thesis
    unfolding good_def store_inv_def lanes_ok_def fst_conv snd_conv fr m used
    using g st free unfolding good_def store_inv_def fst_conv snd_conv by metis
qed


section \<open>Properties\<close>


text \<open>One lane; the model echoes two tokens and ends.\<close>

definition demo_api :: "(ref_ctx, nat) gen_api" where
  "demo_api = \<lparr>decode_one = (\<lambda>c ts. (0, c(0 := c 0 @ ts))), sample = (\<lambda>s c. (if s < 2 then 104 + int s else 0, s + 1)), is_eog = (\<lambda>t. t = 0)\<rparr>"

definition demo_engine :: "ref_ctx engine" where
  "demo_engine = \<lparr>e_ctx = (\<lambda>_. []), sessions = set_seq_capacity (new_session_store 1) 1, sessions_enabled = True, active_conv_id = [], mtp_k = 0,
     n_ctx = 64, n_ctx_per_seq = 64, think_default = True, arch_qwen3_think_off = False, arch_lfm2moe = False, chat_template = [],
     max_req_ns = None\<rparr>"

lemma demo_engine_good: "good (\<lambda>c. c) (e_ctx demo_engine, sessions demo_engine)"
  by (simp add: good_def store_inv_def lanes_ok_def lane_used_def demo_engine_def new_session_store_def set_seq_capacity_def)

definition demo_bound :: "ref_ctx engine" where
  "demo_bound = snd (bind_conversation ref_llama demo_engine ''a'' False [])"


end
