(* ===== verification/Api.thy ===== *)
theory Api
  imports Config
begin

text \<open>
  \<^verbatim>\<open>runtime/cne_api.cpp\<close>: the multi-tenant API helpers of the server. Settings and keys come from the
  environment (theory \<open>Config\<close>), the key file is read through the argument \<open>readf\<close> (\<open>None\<close>: the stream
  does not open), HTTP headers are the association list a hash map enumerates, and the steady clock is
  an integer number of nanoseconds passed to every call that reads it.
\<close>

section \<open>String helpers\<close>

definition trim_ws :: "string \<Rightarrow> string" where
  "trim_ws s = rev (dropWhile is_space (rev (dropWhile is_space s)))"

definition lower :: "string \<Rightarrow> string" where
  "lower s = map to_lower s"

text \<open>\<^verbatim>\<open>while (std::getline(in, item, d))\<close>: the pieces between delimiters, no empty piece at the end.\<close>

function getlines :: "char \<Rightarrow> string \<Rightarrow> string list" where
  "getlines d s =
     (if s = [] then []
      else takeWhile (\<lambda>c. c \<noteq> d) s # getlines d (tl (dropWhile (\<lambda>c. c \<noteq> d) s)))"
  by pat_completeness auto
termination
proof (relation "measure (\<lambda>(d, s). length s)", goal_cases)
  case (2 d s)
  have "length (dropWhile (\<lambda>c. c \<noteq> d) s) \<le> length s" by (rule length_dropWhile_le)
  with 2 show ?case by (cases s) auto
qed simp

declare getlines.simps [simp del]

definition split_csv :: "string \<Rightarrow> string list" where
  "split_csv csv = filter (\<lambda>item. item \<noteq> []) (map trim_ws (getlines CHR '','' csv))"

text \<open>The two out-parameters, when the function returns true.\<close>

definition parse_key_line :: "string \<Rightarrow> (string \<times> string) option" where
  "parse_key_line line =
     (let t = trim_ws line in
      if t = [] \<or> hd t = CHR ''#'' then None
      else case find_char (\<lambda>c. c = CHR '' '' \<or> c = CHR 0x09) t of
             None \<Rightarrow> Some (t, [])
           | Some sp \<Rightarrow>
               (let key = trim_ws (take sp t); user = trim_ws (drop (sp + 1) t)
                in if key = [] then None else Some (key, user)))"

section \<open>Settings\<close>

record settings =
  enabled :: bool
  rpm_per_user :: int
  session_max_per_user :: nat
  require_chat_id :: bool

definition default_settings :: settings where
  "default_settings = \<lparr>enabled = False, rpm_per_user = 60, session_max_per_user = 2, require_chat_id = False\<rparr>"

text \<open>\<^verbatim>\<open>v[0]\<close> of a C string.\<close>

definition char0 :: "string \<Rightarrow> char" where
  "char0 v = (case v of [] \<Rightarrow> CHR 0x00 | c # _ \<Rightarrow> c)"

text \<open>
  A switch is tested with one lookup and read with a second one, whose pointer is dereferenced
  without a test: \<open>None\<close> is that null dereference.
\<close>

definition env_flag :: "environ \<Rightarrow> resolved \<Rightarrow> string \<Rightarrow> bool \<Rightarrow> (bool \<times> resolved) option" where
  "env_flag getenv r name d =
     (case env getenv r name of
        (None, r) \<Rightarrow> Some (d, r)
      | (Some _, r) \<Rightarrow>
          (case env getenv r name of
             (None, r) \<Rightarrow> None
           | (Some v, r) \<Rightarrow> Some (char0 v \<noteq> CHR ''0'', r)))"

definition env_count :: "environ \<Rightarrow> resolved \<Rightarrow> string \<Rightarrow> int \<Rightarrow> int \<times> resolved" where
  "env_count getenv r name d =
     (case env getenv r name of
        (None, r) \<Rightarrow> (d, r)
      | (Some v, r) \<Rightarrow> (let n = atoi v in (if 0 \<le> n then n else d, r)))"

definition load_settings :: "environ \<Rightarrow> resolved \<Rightarrow> (settings \<times> resolved) option" where
  "load_settings getenv r =
     (case env_flag getenv r ''API_MODE'' (enabled default_settings) of
        None \<Rightarrow> None
      | Some (en, r) \<Rightarrow>
          (let (n, r) = env_count getenv r ''API_RPM'' (rpm_per_user default_settings);
               (m, r) = env_count getenv r ''SESSION_MAX_PER_USER'' (int (session_max_per_user default_settings))
           in case env_flag getenv r ''API_REQUIRE_CHAT_ID'' (require_chat_id default_settings) of
                None \<Rightarrow> None
              | Some (req, r) \<Rightarrow>
                  Some (\<lparr>enabled = en, rpm_per_user = n, session_max_per_user = nat m, require_chat_id = req\<rparr>, r)))"

section \<open>Keys\<close>

record key_table =
  keys :: "string set"
  key_to_user :: "string \<rightharpoonup> string"

definition no_keys :: key_table where
  "no_keys = \<lparr>keys = {}, key_to_user = Map.empty\<rparr>"

definition ingest :: "key_table \<Rightarrow> string \<times> string \<Rightarrow> key_table" where
  "ingest kt ku =
     (let (k, user) = ku in
      if k = [] then kt
      else kt\<lparr>keys := insert k (keys kt),
              key_to_user := (if user = [] then key_to_user kt else (key_to_user kt)(k \<mapsto> user))\<rparr>)"

definition ingest_line :: "key_table \<Rightarrow> string \<Rightarrow> key_table" where
  "ingest_line kt line = (case parse_key_line line of None \<Rightarrow> kt | Some ku \<Rightarrow> ingest kt ku)"

definition load_keys :: "environ \<Rightarrow> (string \<Rightarrow> string option) \<Rightarrow> resolved \<Rightarrow> bool \<times> key_table \<times> resolved" where
  "load_keys getenv readf r =
     (let (single, r) = env getenv r ''API_KEY'';
          kt = (case single of None \<Rightarrow> no_keys | Some k \<Rightarrow> ingest no_keys (k, []));
          (csv, r) = env getenv r ''API_KEYS'';
          kt = (case csv of None \<Rightarrow> kt | Some c \<Rightarrow> foldl ingest_line kt (split_csv c));
          (path, r) = env getenv r ''API_KEYS_FILE''
      in if path \<noteq> None \<and> the path \<noteq> []
         then (case readf (the path) of
                 None \<Rightarrow> (False, kt, r)
               | Some text \<Rightarrow>
                   (let kt = foldl ingest_line kt (getlines CHR 0x0A text) in (keys kt \<noteq> {}, kt, r)))
         else (keys kt \<noteq> {}, kt, r))"

section \<open>Authentication\<close>

type_synonym headers = "(string \<times> string) list"

fun header_get :: "headers \<Rightarrow> string \<Rightarrow> string" where
  "header_get [] name = []"
| "header_get ((k, v) # hs) name = (if lower k = lower name then v else header_get hs name)"

record auth_result =
  auth_ok :: bool
  http_status :: int
  user_id :: string
  auth_error :: string

definition new_auth_result :: auth_result where
  "new_auth_result = \<lparr>auth_ok = False, http_status = 401, user_id = [], auth_error = []\<rparr>"

definition authenticate :: "headers \<Rightarrow> settings \<Rightarrow> key_table \<Rightarrow> auth_result" where
  "authenticate hs s kt =
     (let r = new_auth_result in
      if \<not> enabled s then r\<lparr>auth_ok := True\<rparr>
      else if keys kt = {} then
        r\<lparr>auth_error := ''API mode enabled but no API keys configured'', http_status := 503\<rparr>
      else
        (let auth = header_get hs ''Authorization''; prefix = ''Bearer '' in
         if length auth \<le> length prefix \<or> \<not> starts_with auth prefix then
           r\<lparr>auth_error := ''missing or invalid Authorization header (Bearer token required)''\<rparr>
         else
           (let token = trim_ws (drop (length prefix) auth) in
            if token \<notin> keys kt then r\<lparr>auth_error := ''invalid API key''\<rparr>
            else
              (let user = trim_ws (header_get hs ''X-User-Id'') in
               if key_to_user kt token \<noteq> None \<and> user \<noteq> [] \<and> user \<noteq> the (key_to_user kt token) then
                 r\<lparr>auth_error := ''X-User-Id does not match API key'', http_status := 403\<rparr>
               else
                 (let user = (case key_to_user kt token of
                                None \<Rightarrow> user
                              | Some mapped \<Rightarrow> if user = [] then mapped else user) in
                  if user = [] then
                    r\<lparr>auth_error := ''X-User-Id header required in API mode'', http_status := 400\<rparr>
                  else r\<lparr>auth_ok := True, user_id := user\<rparr>)))))"

section \<open>Rate limiter\<close>

record rate_limiter =
  rpm :: int
  hits :: "string \<Rightarrow> int list"

definition new_rate_limiter :: "int \<Rightarrow> rate_limiter" where
  "new_rate_limiter n = \<lparr>rpm = n, hits = (\<lambda>_. [])\<rparr>"

text \<open>\<^verbatim>\<open>std::chrono::minutes(1)\<close> in nanoseconds.\<close>

definition window :: int where
  "window = 60000000000"

definition allow :: "rate_limiter \<Rightarrow> int \<Rightarrow> string \<Rightarrow> bool \<times> rate_limiter" where
  "allow rl now user =
     (if rpm rl \<le> 0 \<or> user = [] then (True, rl)
      else
        (let q = dropWhile (\<lambda>t. now - t > window) (hits rl user) in
         if to_i32 (int (length q)) \<ge> rpm rl then (False, rl\<lparr>hits := (hits rl)(user := q)\<rparr>)
         else (True, rl\<lparr>hits := (hits rl)(user := q @ [now])\<rparr>)))"

section \<open>Conversation ids\<close>

definition make_conversation_id :: "string \<Rightarrow> string \<Rightarrow> string" where
  "make_conversation_id user chat = user @ '':'' @ chat"

definition conversation_owned_by :: "string \<Rightarrow> string \<Rightarrow> bool" where
  "conversation_owned_by cid user =
     (if user = [] then False
      else (let prefix = user @ '':'' in length cid > length prefix \<and> starts_with cid prefix))"


section \<open>Lemmas on strings\<close>

lemma trim_ws_id: "trim_ws s = s \<longleftrightarrow> s = [] \<or> \<not> is_space (hd s) \<and> \<not> is_space (last s)"
proof
  assume t: "trim_ws s = s"
  show "s = [] \<or> \<not> is_space (hd s) \<and> \<not> is_space (last s)"
  proof (cases "s = []")
    case False
    have "length s \<le> length (dropWhile is_space s)"
      using t length_dropWhile_le [of is_space "rev (dropWhile is_space s)"] by (simp add: trim_ws_def) (metis length_rev)
    moreover have "length (takeWhile is_space s) + length (dropWhile is_space s) = length s"
      by (metis length_append takeWhile_dropWhile_id)
    ultimately have "length (takeWhile is_space s) = 0" by linarith
    then have "takeWhile is_space s = []" by simp
    then have d: "dropWhile is_space s = s" by (metis append_self_conv2 takeWhile_dropWhile_id)
    with t have "dropWhile is_space (rev s) = rev s" by (simp add: trim_ws_def rev_swap)
    then have "\<not> is_space (hd (rev s))" by (metis False dropWhile_eq_self_iff rev_is_Nil_conv)
    moreover have "\<not> is_space (hd s)" using d False by (metis dropWhile_eq_self_iff)
    ultimately show ?thesis using False by (simp add: hd_rev)
  qed simp
next
  assume "s = [] \<or> \<not> is_space (hd s) \<and> \<not> is_space (last s)"
  then show "trim_ws s = s"
    by (auto simp: trim_ws_def) (metis dropWhile_eq_self_iff hd_rev rev_rev_ident)
qed

lemma getlines_cons: "d \<notin> set a \<Longrightarrow> getlines d (a @ d # s) = a # getlines d s"
  by (subst getlines.simps) (auto simp: takeWhile_append dropWhile_append)

lemma getlines_nil [simp]: "getlines d [] = []"
  by (subst getlines.simps) simp

lemma find_char_append: "(\<And>c. c \<in> set a \<Longrightarrow> \<not> P c) \<Longrightarrow> P c \<Longrightarrow> find_char P (a @ c # s) = Some (length a)"
  by (induction a) auto

lemma find_char_none: "(\<And>c. c \<in> set s \<Longrightarrow> \<not> P c) \<Longrightarrow> find_char P s = None"
  by (induction s) auto

lemma split_at_delim: "d \<notin> set u \<Longrightarrow> d \<notin> set v \<Longrightarrow> u @ d # c = v @ d # e \<longleftrightarrow> u = v \<and> c = e"
  by (induction u v rule: list_induct2') auto

section \<open>Key files\<close>

text \<open>A line of a key file: the key, and its tenant after a blank when it has one.\<close>

definition render_key :: "string \<times> string \<Rightarrow> string" where
  "render_key ku = fst ku @ (if snd ku = [] then [] else CHR '' '' # snd ku)"

definition wf_key :: "string \<times> string \<Rightarrow> bool" where
  "wf_key ku \<longleftrightarrow> fst ku \<noteq> [] \<and> hd (fst ku) \<noteq> CHR ''#'' \<and> list_all (\<lambda>c. \<not> is_space c) (fst ku)
     \<and> trim_ws (snd ku) = snd ku \<and> CHR 0x0A \<notin> set (snd ku)"

lemma blanks: "is_space CHR '' ''" "is_space CHR 0x09" "is_space CHR 0x0A"
  by (simp_all add: is_space_def)

lemma parse_render: assumes "wf_key ku" shows "parse_key_line (render_key ku) = Some ku"
proof -
  obtain k u where ku: "ku = (k, u)" by (cases ku)
  have k: "k \<noteq> []" "hd k \<noteq> CHR ''#''" "\<And>c. c \<in> set k \<Longrightarrow> \<not> is_space c" and u: "trim_ws u = u"
    using assms by (auto simp: wf_key_def ku list_all_iff)
  have hk: "\<not> is_space (hd k)" "\<not> is_space (last k)" using k by auto
  have lu: "u \<noteq> [] \<Longrightarrow> \<not> is_space (last u)" using u by (simp add: trim_ws_id)
  have t: "trim_ws (render_key ku) = render_key ku"
    using k hk lu by (simp add: trim_ws_id render_key_def ku)
  have b: "\<And>c. c \<in> set k \<Longrightarrow> \<not> (c = CHR '' '' \<or> c = CHR 0x09)" using k(3) blanks by blast
  have "trim_ws k = k" using hk by (simp add: trim_ws_id)
  then show ?thesis
    using k u t b by (auto simp: parse_key_line_def render_key_def ku Let_def find_char_append find_char_none)
qed

lemma render_no_newline: "wf_key ku \<Longrightarrow> CHR 0x0A \<notin> set (render_key ku)"
  by (auto simp: wf_key_def render_key_def list_all_iff is_space_def)

lemma getlines_render:
  "list_all wf_key kus \<Longrightarrow> getlines CHR 0x0A (concat (map (\<lambda>ku. render_key ku @ [CHR 0x0A]) kus)) = map render_key kus"
  by (induction kus) (simp_all add: getlines_cons render_no_newline)

lemma foldl_ingest:
  "list_all wf_key kus \<Longrightarrow> foldl ingest_line kt (map render_key kus) =
     \<lparr>keys = keys kt \<union> fst ` set kus,
      key_to_user = key_to_user kt ++ map_of (rev (filter (\<lambda>ku. snd ku \<noteq> []) kus))\<rparr>"
proof (induction kus arbitrary: kt)
  case (Cons ku kus)
  then have "ingest_line kt (render_key ku) = ingest kt ku" "fst ku \<noteq> []"
    by (simp_all add: ingest_line_def parse_render wf_key_def)
  with Cons show ?case by (cases ku) (auto simp: ingest_def map_add_def fun_eq_iff split: option.splits)
qed simp

section \<open>Sliding window\<close>

fun allow_run :: "rate_limiter \<Rightarrow> (int \<times> string) list \<Rightarrow> bool list \<times> rate_limiter" where
  "allow_run rl [] = ([], rl)"
| "allow_run rl ((now, user) # reqs) =
     (let (a, rl) = allow rl now user; (as, rl) = allow_run rl reqs in (a # as, rl))"

definition accepts :: "int \<Rightarrow> (int \<times> string) list \<Rightarrow> bool list" where
  "accepts n reqs = fst (allow_run (new_rate_limiter n) reqs)"

text \<open>The times of a user's accepted requests.\<close>

definition accepted_times :: "string \<Rightarrow> (int \<times> string) list \<Rightarrow> bool list \<Rightarrow> int list" where
  "accepted_times user reqs res = map (\<lambda>((t, _), _). t) (filter (\<lambda>((_, v), a). a \<and> v = user) (zip reqs res))"

definition limiter_ok :: "int \<Rightarrow> int \<Rightarrow> (string \<Rightarrow> int list) \<Rightarrow> rate_limiter \<Rightarrow> bool" where
  "limiter_ok n prev log rl \<longleftrightarrow> rpm rl = n \<and>
     (\<forall>u. u \<noteq> [] \<longrightarrow> sorted (log u) \<and> (\<forall>t \<in> set (log u). t \<le> prev) \<and> length (hits rl u) \<le> nat n \<and>
        (\<exists>old. log u = old @ hits rl u \<and> (\<forall>t \<in> set old. prev - t > window)))"

lemma dropWhile_sorted: "sorted xs \<Longrightarrow> dropWhile (\<lambda>t. now - t > window) xs = filter (\<lambda>t. now - t \<le> window) xs" for now :: int
proof (induction xs)
  case (Cons x xs)
  show ?case
  proof (cases "now - x > window")
    case False
    with Cons.prems have "filter (\<lambda>t. now - t \<le> window) xs = xs" by (auto simp: filter_id_conv)
    with False show ?thesis by simp
  qed (use Cons in simp)
qed simp

lemma allow_step:
  fixes v :: string
  assumes ok: "limiter_ok n prev log rl" and le: "prev \<le> now" and n: "0 < n" "n < 2147483648"
  defines "log' \<equiv> (\<lambda>u. if fst (allow rl now v) \<and> u = v then log u @ [now] else log u)"
  shows "limiter_ok n now log' (snd (allow rl now v))"
    and "v \<noteq> [] \<Longrightarrow> fst (allow rl now v) = (length (filter (\<lambda>t. now - t \<le> window) (log v)) < nat n)"
proof -
  have A: "fst (allow rl now v) = (length (filter (\<lambda>t. now - t \<le> window) (log v)) < nat n)
    \<and> limiter_ok n now log' (snd (allow rl now v))" if v: "v \<noteq> []"
  proof -
    from ok v obtain old where s: "sorted (log v)" "\<forall>t \<in> set (log v). t \<le> prev" "length (hits rl v) \<le> nat n"
      and old: "log v = old @ hits rl v" "\<forall>t \<in> set old. prev - t > window" and rpm: "rpm rl = n"
      by (auto simp: limiter_ok_def)
    define q where "q = dropWhile (\<lambda>t. now - t > window) (hits rl v)"
    have sq: "sorted (hits rl v)" using s(1) old(1) by (simp add: sorted_append)
    then have qf: "q = filter (\<lambda>t. now - t \<le> window) (hits rl v)" unfolding q_def by (rule dropWhile_sorted)
    have fo: "filter (\<lambda>t. now - t \<le> window) old = []" using old(2) le by (auto simp: filter_empty_conv)
    have f: "filter (\<lambda>t. now - t \<le> window) (log v) = q" by (simp add: old(1) fo qf)
    have lq: "length q \<le> nat n" unfolding qf by (rule le_trans [OF length_filter_le s(3)])
    have tq: "to_i32 (int (length q)) = int (length q)" using lq n by (intro to_i32_id) linarith+
    have split: "hits rl v = takeWhile (\<lambda>t. now - t > window) (hits rl v) @ q" by (simp add: q_def)
    have lv: "log v = (old @ takeWhile (\<lambda>t. now - t > window) (hits rl v)) @ q" using split old(1) by simp
    have gone: "\<forall>t \<in> set (old @ takeWhile (\<lambda>t. now - t > window) (hits rl v)). now - t > window"
      using old(2) le by (auto dest: set_takeWhileD)
    have al: "allow rl now v = (if int (length q) \<ge> n then (False, rl\<lparr>hits := (hits rl)(v := q)\<rparr>)
        else (True, rl\<lparr>hits := (hits rl)(v := q @ [now])\<rparr>))"
      using n v by (simp add: allow_def rpm q_def [symmetric] tq)
    have others: "sorted (log u) \<and> (\<forall>t \<in> set (log u). t \<le> now) \<and> length (hits rl u) \<le> nat n \<and>
        (\<exists>old. log u = old @ hits rl u \<and> (\<forall>t \<in> set old. now - t > window))" if "u \<noteq> []" for u
      using ok that le by (fastforce simp: limiter_ok_def)
    have mine: "sorted (log v @ [now])" "\<forall>t \<in> set (log v @ [now]). t \<le> now"
      using s le by (auto simp: sorted_append)
    show ?thesis
    proof (cases "int (length q) \<ge> n")
      case True
      then have "log' = log" by (simp add: log'_def al fun_eq_iff)
      moreover have "limiter_ok n now log (rl\<lparr>hits := (hits rl)(v := q)\<rparr>)"
        unfolding limiter_ok_def using others lv gone lq rpm by auto
      ultimately show ?thesis using True f by (simp add: al)
    next
      case False
      then have l': "log' = log(v := log v @ [now])" by (auto simp: log'_def al fun_eq_iff)
      have "limiter_ok n now log' (rl\<lparr>hits := (hits rl)(v := q @ [now])\<rparr>)"
        unfolding limiter_ok_def l' using others mine lv gone False rpm by auto
      then show ?thesis using False f by (simp add: al)
    qed
  qed
  show "v \<noteq> [] \<Longrightarrow> fst (allow rl now v) = (length (filter (\<lambda>t. now - t \<le> window) (log v)) < nat n)" using A by simp
  show "limiter_ok n now log' (snd (allow rl now v))"
  proof (cases "v = []")
    case True
    then have "snd (allow rl now v) = rl" by (simp add: allow_def)
    then show ?thesis using ok le True unfolding limiter_ok_def log'_def by fastforce
  qed (use A in simp)
qed

lemma allow_run_exact:
  assumes "0 < n" "n < 2147483648"
  shows "limiter_ok n prev log rl \<Longrightarrow> sorted (prev # map fst reqs) \<Longrightarrow> i < length reqs \<Longrightarrow> reqs ! i = (t, u) \<Longrightarrow> u \<noteq> [] \<Longrightarrow>
    fst (allow_run rl reqs) ! i =
     (length (filter (\<lambda>t'. t - t' \<le> window)
        (log u @ accepted_times u (take i reqs) (take i (fst (allow_run rl reqs))))) < nat n)"
proof (induction reqs arbitrary: prev log rl i)
  case (Cons r reqs)
  obtain now v where r: "r = (now, v)" by (cases r)
  define log' where "log' = (\<lambda>u. if fst (allow rl now v) \<and> u = v then log u @ [now] else log u)"
  have le: "prev \<le> now" using Cons.prems(2) r by simp
  have st: "limiter_ok n now log' (snd (allow rl now v))"
    unfolding log'_def by (rule allow_step(1) [OF Cons.prems(1) le assms])
  have run: "fst (allow_run rl (r # reqs)) = fst (allow rl now v) # fst (allow_run (snd (allow rl now v)) reqs)"
    by (simp add: r split: prod.splits)
  show ?case
  proof (cases i)
    case 0
    then show ?thesis unfolding run using allow_step(2) [OF Cons.prems(1) le assms, of v] Cons.prems r
      by (simp add: accepted_times_def)
  next
    case (Suc j)
    have "fst (allow_run (snd (allow rl now v)) reqs) ! j =
     (length (filter (\<lambda>t'. t - t' \<le> window)
        (log' u @ accepted_times u (take j reqs) (take j (fst (allow_run (snd (allow rl now v)) reqs))))) < nat n)"
      using Cons.prems r Suc by (intro Cons.IH [OF st]) auto
    moreover have "log' u @ accepted_times u (take j reqs) (take j (fst (allow_run (snd (allow rl now v)) reqs)))
      = log u @ accepted_times u (take i (r # reqs)) (take i (fst (allow_run rl (r # reqs))))"
      unfolding run Suc by (auto simp: log'_def accepted_times_def r)
    ultimately show ?thesis unfolding run Suc by simp
  qed
qed simp

section \<open>Settings lemmas\<close>

lemma env_flag_None:
  "env_flag getenv r name d = None \<longleftrightarrow> r (''CNE_'' @ name) = None \<and> getenv (''CNE_'' @ name) = Some []"
  by (auto simp: env_flag_def env_def Let_def split: option.splits if_splits)

lemma env_frame: "k \<noteq> ''CNE_'' @ name \<Longrightarrow> k \<noteq> ''SOE_'' @ name \<Longrightarrow> snd (env getenv r name) k = r k"
  by (auto simp: env_def Let_def split: option.splits if_splits)

lemma env_flag_frame:
  "env_flag getenv r name d = Some (b, r') \<Longrightarrow> k \<noteq> ''CNE_'' @ name \<Longrightarrow> k \<noteq> ''SOE_'' @ name \<Longrightarrow> r' k = r k"
  using env_frame [of k name getenv] by (auto simp: env_flag_def split: option.splits prod.splits) (metis snd_conv)+

lemma env_count_frame:
  "k \<noteq> ''CNE_'' @ name \<Longrightarrow> k \<noteq> ''SOE_'' @ name \<Longrightarrow> snd (env_count getenv r name d) k = r k"
  using env_frame [of k name getenv r] by (auto simp: env_count_def Let_def split: option.splits prod.splits)

lemma env_count_nonneg: "0 \<le> d \<Longrightarrow> 0 \<le> fst (env_count getenv r name d)"
  by (auto simp: env_count_def Let_def split: option.splits prod.splits)


lemma load_settings_None:
  "load_settings getenv Map.empty = None \<longleftrightarrow>
     getenv ''CNE_API_MODE'' = Some [] \<or> getenv ''CNE_API_REQUIRE_CHAT_ID'' = Some []"
proof (cases "env_flag getenv Map.empty ''API_MODE'' False")
  case None
  then have "load_settings getenv Map.empty = None" by (simp add: load_settings_def default_settings_def)
  moreover have "getenv ''CNE_API_MODE'' = Some []" using None by (simp add: env_flag_None)
  ultimately show ?thesis by simp
next
  case (Some er)
  obtain e r1 where er: "er = (e, r1)" by (cases er)
  obtain n r2 where c1: "env_count getenv r1 ''API_RPM'' 60 = (n, r2)" by fastforce
  obtain m r3 where c2: "env_count getenv r2 ''SESSION_MAX_PER_USER'' 2 = (m, r3)" by fastforce
  let ?k = "''CNE_API_REQUIRE_CHAT_ID''"
  have "r3 ?k = None"
    using env_count_frame [of ?k "''SESSION_MAX_PER_USER''" getenv r2 2] env_count_frame [of ?k "''API_RPM''" getenv r1 60]
      env_flag_frame [OF Some [unfolded er], of ?k] c1 c2 by simp
  moreover have "getenv ''CNE_API_MODE'' \<noteq> Some []" using Some env_flag_None [of getenv Map.empty "''API_MODE''" False] by auto
  ultimately show ?thesis
    using env_flag_None [of getenv r3 "''API_REQUIRE_CHAT_ID''" False]
    by (auto simp: load_settings_def default_settings_def Some er c1 c2 split: option.splits)
qed

lemma env_flag_value:
  "env_flag getenv Map.empty name d = Some (b, r) \<Longrightarrow>
   b = (case (case getenv (''CNE_'' @ name) of Some v \<Rightarrow> Some v | None \<Rightarrow> getenv (''SOE_'' @ name)) of
          None \<Rightarrow> d | Some v \<Rightarrow> char0 v \<noteq> CHR ''0'')"
  by (auto simp: env_flag_def env_def Let_def split: option.splits if_splits)

lemma load_settings_Some:
  assumes "load_settings getenv Map.empty = Some (s, r)"
  shows "0 \<le> rpm_per_user s \<and> enabled s =
     (case (case getenv ''CNE_API_MODE'' of Some v \<Rightarrow> Some v | None \<Rightarrow> getenv ''SOE_API_MODE'') of
        None \<Rightarrow> False | Some v \<Rightarrow> char0 v \<noteq> CHR ''0'')"
proof -
  from assms obtain e r1 n r2 where e: "env_flag getenv Map.empty ''API_MODE'' False = Some (e, r1)" "enabled s = e"
    and n: "env_count getenv r1 ''API_RPM'' 60 = (n, r2)" "rpm_per_user s = n"
    by (auto simp: load_settings_def default_settings_def split: option.splits prod.splits)
  have soe: "''SOE_'' @ ''API_MODE'' = ''SOE_API_MODE''" "''CNE_'' @ ''API_MODE'' = ''CNE_API_MODE''" by simp_all
  show ?thesis using env_flag_value [OF e(1), unfolded soe] e(2) n env_count_nonneg [of 60 getenv r1 "''API_RPM''"] by simp
qed

section \<open>Properties\<close>

lemma authenticate_bearer:
  assumes "enabled s" "header_get hs ''Authorization'' = ''Bearer '' @ cred" "cred \<noteq> []" "trim_ws cred \<in> keys kt"
  defines "h \<equiv> trim_ws (header_get hs ''X-User-Id'')"
  shows "authenticate hs s kt =
    (case key_to_user kt (trim_ws cred) of
       None \<Rightarrow> if h = [] then new_auth_result\<lparr>auth_error := ''X-User-Id header required in API mode'', http_status := 400\<rparr>
               else new_auth_result\<lparr>auth_ok := True, user_id := h\<rparr>
     | Some m \<Rightarrow> if h \<noteq> [] \<and> h \<noteq> m then new_auth_result\<lparr>auth_error := ''X-User-Id does not match API key'', http_status := 403\<rparr>
               else if m = [] then new_auth_result\<lparr>auth_error := ''X-User-Id header required in API mode'', http_status := 400\<rparr>
               else new_auth_result\<lparr>auth_ok := True, user_id := m\<rparr>)"
proof -
  have "drop (length ''Bearer '') (header_get hs ''Authorization'') = cred" by (simp add: assms(2))
  moreover have "\<not> (length (header_get hs ''Authorization'') \<le> length ''Bearer '' \<or> \<not> starts_with (header_get hs ''Authorization'') ''Bearer '')"
    using assms(3) by (simp add: assms(2) starts_with_def)
  moreover have "keys kt \<noteq> {}" using assms(4) by blast
  ultimately show ?thesis
    unfolding authenticate_def Let_def h_def [symmetric] using assms(1,4)
    by (cases "key_to_user kt (trim_ws cred)") simp_all
qed

lemma authenticate_refuses:
  assumes "enabled s" "\<nexists>cred. header_get hs ''Authorization'' = ''Bearer '' @ cred \<and> cred \<noteq> [] \<and> trim_ws cred \<in> keys kt"
  shows "\<not> auth_ok (authenticate hs s kt)"
proof (cases "length (header_get hs ''Authorization'') \<le> length ''Bearer '' \<or> \<not> starts_with (header_get hs ''Authorization'') ''Bearer ''")
  case True
  then show ?thesis unfolding authenticate_def Let_def using assms(1) by (simp add: new_auth_result_def)
next
  case False
  then obtain cred where c: "header_get hs ''Authorization'' = ''Bearer '' @ cred" "cred \<noteq> []"
    by (auto simp: starts_with_iff)
  then have "trim_ws (drop (length ''Bearer '') (header_get hs ''Authorization'')) \<notin> keys kt" using assms(2) by simp
  with False show ?thesis unfolding authenticate_def Let_def using assms(1) by (simp add: new_auth_result_def)
qed

lemma authenticate_status:
  "enabled s \<Longrightarrow> \<not> auth_ok (authenticate hs s kt) \<Longrightarrow> user_id (authenticate hs s kt) = []
      \<and> http_status (authenticate hs s kt) \<in> {400, 401, 403, 503}
      \<and> (http_status (authenticate hs s kt) = 503 \<longleftrightarrow> keys kt = {})"
  unfolding authenticate_def Let_def by (auto simp: new_auth_result_def split: if_split_asm option.split_asm)

text \<open>
  Claim C22. Authentication, exactly. In API mode a request is accepted for tenant \<open>u\<close> precisely when the
  Authorization header is a non-empty bearer credential whose trimmed token is a configured key and
  \<open>u\<close> is the tenant the key is bound to (the X-User-Id header must then be absent or agree) or, for an
  unbound key, the non-blank X-User-Id header. A refusal names no tenant and carries a status of
  400, 401, 403 or 503, 503 exactly when no key is configured.
\<close>

theorem authenticate_exact:
  assumes "enabled s"
  shows "((auth_ok (authenticate hs s kt) \<and> user_id (authenticate hs s kt) = u) \<longleftrightarrow>
      (\<exists>cred. header_get hs ''Authorization'' = ''Bearer '' @ cred \<and> cred \<noteq> [] \<and> trim_ws cred \<in> keys kt \<and> u \<noteq> [] \<and>
         (case key_to_user kt (trim_ws cred) of
            None \<Rightarrow> u = trim_ws (header_get hs ''X-User-Id'')
          | Some m \<Rightarrow> u = m \<and> trim_ws (header_get hs ''X-User-Id'') \<in> {[], m})))
    \<and> (\<not> auth_ok (authenticate hs s kt) \<longrightarrow> user_id (authenticate hs s kt) = []
        \<and> http_status (authenticate hs s kt) \<in> {400, 401, 403, 503}
        \<and> (http_status (authenticate hs s kt) = 503 \<longleftrightarrow> keys kt = {}))"
proof (cases "\<exists>cred. header_get hs ''Authorization'' = ''Bearer '' @ cred \<and> cred \<noteq> [] \<and> trim_ws cred \<in> keys kt")
  case True
  then obtain cred where c: "header_get hs ''Authorization'' = ''Bearer '' @ cred" "cred \<noteq> []" "trim_ws cred \<in> keys kt" by blast
  show ?thesis
    using c authenticate_bearer [OF assms c] authenticate_status [OF assms, of hs kt]
    by (cases "key_to_user kt (trim_ws cred)") (auto simp: new_auth_result_def)
next
  case False
  then show ?thesis using authenticate_refuses [OF assms False] authenticate_status [OF assms, of hs kt] by blast
qed

theorem authenticate_exact_witness:
  "auth_ok (authenticate [(''authorization'', ''Bearer k1''), (''x-user-id'', ''ann'')]
     (default_settings\<lparr>enabled := True\<rparr>) \<lparr>keys = {''k1''}, key_to_user = Map.empty\<rparr>)
   \<and> user_id (authenticate [(''authorization'', ''Bearer k1''), (''x-user-id'', ''ann'')]
     (default_settings\<lparr>enabled := True\<rparr>) \<lparr>keys = {''k1''}, key_to_user = Map.empty\<rparr>) = ''ann''"
proof -
  let ?hs = "[(''authorization'', ''Bearer k1''), (''x-user-id'', ''ann'')]"
  have "header_get ?hs ''Authorization'' = ''Bearer '' @ ''k1''" "trim_ws (header_get ?hs ''X-User-Id'') = ''ann''"
    "trim_ws ''k1'' = ''k1''" by code_simp+
  then show ?thesis
    using authenticate_exact [of "default_settings\<lparr>enabled := True\<rparr>" ?hs "\<lparr>keys = {''k1''}, key_to_user = Map.empty\<rparr>" "''ann''"] by auto
qed

text \<open>
  Claim C23. The rate limiter is an exact sliding window: in any sequence of requests with a monotone clock, a
  tenant's request is accepted precisely when fewer than the limit of the tenant's earlier requests were
  accepted within the minute before it; refused requests and other tenants do not count.
\<close>

theorem rate_limit_exact:
  assumes "0 < n" "n < 2147483648" "sorted (map fst reqs)" "i < length reqs" "reqs ! i = (t, u)" "u \<noteq> []"
  shows "accepts n reqs ! i \<longleftrightarrow>
    length (filter (\<lambda>t'. t - t' \<le> window) (accepted_times u (take i reqs) (take i (accepts n reqs)))) < nat n"
proof -
  obtain r rs where r: "reqs = r # rs" using assms(4) by (cases reqs) auto
  have "limiter_ok n (fst r) (\<lambda>_. []) (new_rate_limiter n)" by (simp add: limiter_ok_def new_rate_limiter_def)
  from allow_run_exact [OF assms(1,2) this _ assms(4-6)] show ?thesis using assms(3) by (simp add: accepts_def r)
qed

theorem rate_limit_exact_witness:
  "accepts 1 [(0, ''ann''), (1, ''ann''), (60000000001, ''ann'')] ! 2"
proof -
  have "length (filter (\<lambda>t'. 60000000001 - t' \<le> window) (accepted_times ''ann''
      (take 2 [(0, ''ann''), (1, ''ann''), (60000000001, ''ann'')])
      (take 2 (accepts 1 [(0, ''ann''), (1, ''ann''), (60000000001, ''ann'')])))) < nat 1" by code_simp
  then show ?thesis
    using rate_limit_exact [of 1 "[(0, ''ann''), (1, ''ann''), (60000000001, ''ann'')]" 2 60000000001 "''ann''"] by simp
qed

text \<open>
  Key files are read back exactly: a file of well-formed lines loads into the set of its keys and the
  map from keys to tenants in which a later line overrides an earlier one.
\<close>

theorem load_keys_file:
  assumes "list_all wf_key kus" "kus \<noteq> []" "path \<noteq> []"
    "readf path = Some (concat (map (\<lambda>ku. render_key ku @ [CHR 0x0A]) kus))"
  defines "getenv \<equiv> (\<lambda>k. if k = ''CNE_API_KEYS_FILE'' then Some path else None)"
  shows "fst (load_keys getenv readf Map.empty) \<and>
    fst (snd (load_keys getenv readf Map.empty)) =
      \<lparr>keys = fst ` set kus, key_to_user = map_of (rev (filter (\<lambda>ku. snd ku \<noteq> []) kus))\<rparr>"
  using assms by (simp add: load_keys_def env_def no_keys_def getlines_render foldl_ingest)

theorem load_keys_file_witness:
  "key_to_user (fst (snd (load_keys (\<lambda>k. if k = ''CNE_API_KEYS_FILE'' then Some ''keys'' else None)
     (\<lambda>_. Some (concat (map (\<lambda>ku. render_key ku @ [CHR 0x0A]) [(''k1'', ''ann''), (''k2'', [])]))) Map.empty))) ''k1'' = Some ''ann''"
proof -
  have "list_all wf_key [(''k1'', ''ann''), (''k2'', [])]" by code_simp
  from load_keys_file [OF this, of "''keys''" "\<lambda>_. Some (concat (map (\<lambda>ku. render_key ku @ [CHR 0x0A]) [(''k1'', ''ann''), (''k2'', [])]))"]
  show ?thesis by simp
qed

text \<open>
  Loading the settings at start-up dereferences a null pointer exactly when one of the two switches is
  set to the empty string; otherwise it returns a non-negative rate limit and the API mode the environment asks for.
\<close>

theorem load_settings_total:
  "(load_settings getenv Map.empty = None \<longleftrightarrow>
      getenv ''CNE_API_MODE'' = Some [] \<or> getenv ''CNE_API_REQUIRE_CHAT_ID'' = Some [])
   \<and> (\<forall>s r. load_settings getenv Map.empty = Some (s, r) \<longrightarrow> 0 \<le> rpm_per_user s \<and> enabled s =
        (case (case getenv ''CNE_API_MODE'' of Some v \<Rightarrow> Some v | None \<Rightarrow> getenv ''SOE_API_MODE'') of
           None \<Rightarrow> False | Some v \<Rightarrow> char0 v \<noteq> CHR ''0''))"
  by (rule conjI, rule load_settings_None, intro allI impI, rule load_settings_Some)

theorem load_settings_total_witness:
  "load_settings (\<lambda>k. if k = ''CNE_API_MODE'' then Some [] else None) Map.empty = None"
  using load_settings_total [of "\<lambda>k. if k = ''CNE_API_MODE'' then Some [] else None"] by simp

text \<open>
  Conversation ids separate tenants whose names contain no colon: such a tenant owns an id made for
  another one only when they are the same, and ids are equal only for the same tenant and chat.
  A tenant whose name extends another one after a colon is not separated: the shorter name owns its
  conversations too.
\<close>

lemma conversation_ids_separate:
  "(CHR '':'' \<notin> set u \<and> CHR '':'' \<notin> set v \<longrightarrow>
      (conversation_owned_by (make_conversation_id u c) v \<longleftrightarrow> u = v \<and> u \<noteq> [] \<and> c \<noteq> [])
      \<and> (make_conversation_id u c = make_conversation_id v d \<longleftrightarrow> u = v \<and> c = d))
   \<and> (u \<noteq> [] \<longrightarrow> conversation_owned_by (make_conversation_id (u @ '':'' @ x) c) u)"
proof (intro conjI impI)
  assume "CHR '':'' \<notin> set u \<and> CHR '':'' \<notin> set v"
  then have eq: "u @ CHR '':'' # c = v @ CHR '':'' # d \<longleftrightarrow> u = v \<and> c = d" for c d
    by (simp add: split_at_delim)
  then have "starts_with (u @ CHR '':'' # c) (v @ '':'') \<longleftrightarrow> u = v"
    unfolding starts_with_iff by auto
  then show "conversation_owned_by (make_conversation_id u c) v \<longleftrightarrow> u = v \<and> u \<noteq> [] \<and> c \<noteq> []"
    by (auto simp: conversation_owned_by_def make_conversation_id_def)
  show "make_conversation_id u c = make_conversation_id v d \<longleftrightarrow> u = v \<and> c = d"
    using eq by (simp add: make_conversation_id_def)
next
  assume "u \<noteq> []"
  then show "conversation_owned_by (make_conversation_id (u @ '':'' @ x) c) u"
    by (simp add: conversation_owned_by_def make_conversation_id_def starts_with_def)
qed

end
