(* ===== verification/Server_Chat.thy ===== *)
theory Server_Chat
  imports Server_Generate Api
begin

text \<open>
  \<^verbatim>\<open>server/cne-server.cpp\<close>, the chat completions request from its HTTP handler to its reply. The JSON library, the chat
  templates, the samplers and the speculative generator are arguments, collected in the record \<open>world\<close>:
  a JSON accessor answers \<open>None\<close> where the library reports the wrong type. Numbers of the sampler keep an
  abstract type \<open>'f\<close>. A request that does not come to a reply ends in a \<open>srv_fail\<close>.
\<close>

section \<open>The world of a request\<close>

record ('j, 'f) json_lib =
  j_contains :: "'j \<Rightarrow> string \<Rightarrow> bool"
  j_at :: "'j \<Rightarrow> string \<Rightarrow> 'j"
  j_string :: "'j \<Rightarrow> string option"
  j_bool :: "'j \<Rightarrow> bool option"
  j_int :: "'j \<Rightarrow> int option"
  j_uint :: "'j \<Rightarrow> u32 option"
  j_float :: "'j \<Rightarrow> 'f option"
  j_array :: "'j \<Rightarrow> 'j list option"

record 'f float_ops =
  f_zero :: 'f
  f_one :: 'f
  f_le :: "'f \<Rightarrow> 'f \<Rightarrow> bool"
  f_less :: "'f \<Rightarrow> 'f \<Rightarrow> bool"

datatype 'f sampler_stage = Greedy | Temp 'f | Top_p 'f | Dist u32

record ('j, 'f, 'c, 's) world =
  w_json :: "('j, 'f) json_lib"
  w_float :: "'f float_ops"
  w_llama :: "'c llama"
  w_gen :: "('c, 's) gen_api"
  w_tok :: tokenizer
  w_detok :: detokenizer
  w_template :: "string option \<Rightarrow> (string \<times> string) list \<Rightarrow> int \<Rightarrow> int \<times> string"
  w_sampler :: "'f sampler_stage list \<Rightarrow> 's"
  w_mtp :: "'c \<Rightarrow> int list \<Rightarrow> int \<Rightarrow> emit_ctx \<Rightarrow> int \<times> 'c \<times> emit_ctx"
  w_client :: "nat \<Rightarrow> token_stream \<Rightarrow> token_stream"
  w_clock :: "nat \<Rightarrow> int"
  w_getenv :: environ

datatype reply =
    Error_reply int string string
  | Completion string string string int int
  | Stream_open string

datatype chat_stop = Failed srv_fail | Replied reply

type_synonym 'a chat = "chat_stop + 'a"

fun bindC :: "'a chat \<Rightarrow> ('a \<Rightarrow> 'b chat) \<Rightarrow> 'b chat" where
  "bindC (Inl e) f = Inl e"
| "bindC (Inr x) f = f x"

fun lift_fail :: "srv_fail + 'a \<Rightarrow> 'a chat" where
  "lift_fail (Inl e) = Inl (Failed e)"
| "lift_fail (Inr x) = Inr x"

definition error_body :: "int \<Rightarrow> string \<Rightarrow> string \<Rightarrow> 'a chat" where
  "error_body status message type = Inl (Replied (Error_reply status message type))"

text \<open>\<^verbatim>\<open>body.value(key, default)\<close>: the default when the key is absent, an exception on the wrong type.\<close>

definition value_of :: "('j, 'f) json_lib \<Rightarrow> ('j \<Rightarrow> 'a option) \<Rightarrow> 'j \<Rightarrow> string \<Rightarrow> 'a \<Rightarrow> 'a chat" where
  "value_of J get body k d =
     (if j_contains J body k
      then (case get (j_at J body k) of None \<Rightarrow> Inl (Failed Type_error) | Some v \<Rightarrow> Inr v)
      else Inr d)"

definition quoted :: "string \<Rightarrow> string" where
  "quoted s = CHR 0x27 # s @ [CHR 0x27]"

section \<open>Sampler and template\<close>

definition build_sampler :: "'f float_ops \<Rightarrow> 'f \<Rightarrow> 'f \<Rightarrow> u32 \<Rightarrow> 'f sampler_stage list" where
  "build_sampler F temp top_p seed =
     (if f_le F temp (f_zero F) then [Greedy]
      else [Temp temp] @ (if f_less F (f_zero F) top_p \<and> f_less F top_p (f_one F) then [Top_p top_p] else []) @ [Dist seed])"

fun read_messages :: "('j, 'f) json_lib \<Rightarrow> 'j list \<Rightarrow> (string \<times> string) list option" where
  "read_messages J [] = Some []"
| "read_messages J (m # ms) =
     (if \<not> j_contains J m ''role'' \<or> \<not> j_contains J m ''content'' then None
      else case (j_string J (j_at J m ''role''), j_string J (j_at J m ''content'')) of
             (Some r, Some c) \<Rightarrow> map_option (\<lambda>rest. (r, c) # rest) (read_messages J ms)
           | _ \<Rightarrow> None)"

partial_function (option) template_loop :: "(int \<Rightarrow> int \<times> string) \<Rightarrow> nat \<Rightarrow> (string + string) option" where
  "template_loop tp cap =
     (let (n, buf) = tp (to_i32 (int cap)) in
      if n \<ge> 0 \<and> nat n < cap then Some (Inr (take (nat n) buf))
      else if n \<le> 0 \<and> cap > 16777216 then Some (Inl ''chat template failed'')
      else template_loop tp (if n > 0 then nat n + 1 else cap * 2))"

definition apply_chat_template ::
  "('j, 'f, 'c, 's) world \<Rightarrow> string \<Rightarrow> 'j list \<Rightarrow> (string + string) option" where
  "apply_chat_template W tmpl messages =
     (case read_messages (w_json W) messages of
        None \<Rightarrow> Some (Inl (''each message needs string '' @ quoted ''role'' @ '' and '' @ quoted ''content''))
      | Some msgs \<Rightarrow> template_loop (w_template W (if tmpl = [] then None else Some tmpl) msgs) 4096)"

section \<open>Conversation id\<close>

definition resolve_conversation_id ::
  "('j, 'f) json_lib \<Rightarrow> bool \<Rightarrow> 'j \<Rightarrow> string \<Rightarrow> string \<Rightarrow> bool \<Rightarrow> (int \<times> string) + string" where
  "resolve_conversation_id J require_id body conv_hdr api_user api_mode =
     (let chat_id = (if j_contains J body ''chat_id'' \<and> j_string J (j_at J body ''chat_id'') \<noteq> None
                     then the (j_string J (j_at J body ''chat_id'')) else []);
          conv_id = (if j_contains J body ''conversation_id'' \<and> j_string J (j_at J body ''conversation_id'') \<noteq> None
                     then the (j_string J (j_at J body ''conversation_id''))
                     else if conv_hdr \<noteq> [] then conv_hdr else [])
      in if \<not> api_mode then Inr conv_id
         else if chat_id \<noteq> [] \<and> conv_id \<noteq> [] then Inl (400, ''send either chat_id or conversation_id, not both'')
         else if chat_id \<noteq> [] then Inr (make_conversation_id api_user chat_id)
         else if conv_id \<noteq> [] then
           (if \<not> conversation_owned_by conv_id api_user
            then Inl (403, ''conversation_id does not belong to authenticated user'')
            else Inr conv_id)
         else if require_id then Inl (400, ''chat_id required in API mode for session reuse'')
         else Inr [])"

section \<open>Trimming the message list\<close>

definition count_msg_tokens :: "('j, 'f, 'c, 's) world \<Rightarrow> string \<Rightarrow> 'j list \<Rightarrow> int chat" where
  "count_msg_tokens W tmpl msgs =
     (case apply_chat_template W tmpl msgs of
        None \<Rightarrow> Inl (Failed Hangs)
      | Some (Inl err) \<Rightarrow> Inr (-1)
      | Some (Inr rendered) \<Rightarrow>
          (case tokenize (w_tok W) rendered False of
             None \<Rightarrow> Inl (Failed Hangs)
           | Some ts \<Rightarrow> Inr (to_i32 (int (length ts)))))"

fun drop_index :: "('j, 'f) json_lib \<Rightarrow> 'j list \<Rightarrow> nat chat" where
  "drop_index J [] = Inr 0"
| "drop_index J (m # ms) =
     bindC (value_of J (j_string J) m ''role'' [])
       (\<lambda>role. if role = ''system'' then bindC (drop_index J ms) (\<lambda>k. Inr (Suc k)) else Inr 0)"

function trim_messages_for_context ::
  "('j, 'f) json_lib \<Rightarrow> ('j list \<Rightarrow> int chat) \<Rightarrow> 'j list \<Rightarrow> int \<Rightarrow> nat \<Rightarrow> ('j list \<times> nat) chat" where
  "trim_messages_for_context J count messages max_prompt dropped =
     (if messages = [] then Inr (messages, dropped)
      else case count messages of
        Inl e \<Rightarrow> Inl e
      | Inr n \<Rightarrow>
          if n \<le> 0 then Inr (messages, dropped)
          else if n \<le> max_prompt then Inr (messages, dropped)
          else (case drop_index J messages of
                  Inl e \<Rightarrow> Inl e
                | Inr drop_at \<Rightarrow>
                    if drop_at \<ge> length messages then Inr (messages, dropped)
                    else trim_messages_for_context J count (take drop_at messages @ drop (Suc drop_at) messages) max_prompt (dropped + 1)))"
  by pat_completeness auto
termination
  by (relation "measure (\<lambda>(J, count, messages, max_prompt, dropped). length messages)") auto

declare trim_messages_for_context.simps [simp del]

section \<open>The request's parameters\<close>

record ('j, 'f) chat_params =
  want_stream :: bool
  temperature :: 'f
  top_p :: 'f
  seed :: u32
  max_tokens :: int
  conv_id :: string
  clear_conv :: bool
  think_enabled :: bool
  messages :: "'j list"

definition think_requested :: "('j, 'f) json_lib \<Rightarrow> 'j \<Rightarrow> bool \<Rightarrow> bool" where
  "think_requested J body d =
     (if j_contains J body ''chat_template_kwargs'' \<and> j_contains J (j_at J body ''chat_template_kwargs'') ''enable_thinking''
         \<and> j_bool J (j_at J (j_at J body ''chat_template_kwargs'') ''enable_thinking'') \<noteq> None
      then the (j_bool J (j_at J (j_at J body ''chat_template_kwargs'') ''enable_thinking'')) else d)"

definition chat_params ::
  "('j, 'f, 'c, 's) world \<Rightarrow> settings \<Rightarrow> 'c engine \<Rightarrow> 'j \<Rightarrow> 'j list \<Rightarrow> string \<Rightarrow> string \<Rightarrow> bool \<Rightarrow> ('j, 'f) chat_params chat" where
  "chat_params W s eng body msgs conv_hdr api_user api_mode =
     (let J = w_json W; F = w_float W in
      bindC (value_of J (j_bool J) body ''stream'' False) (\<lambda>stream.
      bindC (value_of J (j_float J) body ''temperature'' (f_zero F)) (\<lambda>temp.
      bindC (value_of J (j_float J) body ''top_p'' (f_one F)) (\<lambda>topp.
      bindC (value_of J (j_uint J) body ''seed'' 0) (\<lambda>sd.
      bindC (value_of J (j_int J) body ''max_completion_tokens'' 256) (\<lambda>mc.
      bindC (value_of J (j_int J) body ''max_tokens'' mc) (\<lambda>mt.
      (case resolve_conversation_id J (require_chat_id s) body conv_hdr api_user api_mode of
         Inl (st, err) \<Rightarrow> error_body st err (if st = 403 then ''permission_error'' else ''invalid_request_error'')
       | Inr conv \<Rightarrow>
           bindC (value_of J (j_bool J) body ''clear_conversation'' False) (\<lambda>clear.
             Inr \<lparr>want_stream = stream, temperature = temp, top_p = topp, seed = sd, max_tokens = (if mt < 1 then 1 else mt),
                  conv_id = conv, clear_conv = clear, think_enabled = think_requested J body (think_default eng), messages = msgs\<rparr>)))))))))"

section \<open>The prompt\<close>

definition lane_ctx :: "'c engine \<Rightarrow> int" where
  "lane_ctx eng = (if n_ctx_per_seq eng > 0 then n_ctx_per_seq eng else n_ctx eng)"

text \<open>With thinking off, Qwen3 models get a closed empty think block.\<close>

definition close_think :: "bool \<Rightarrow> bool \<Rightarrow> string \<Rightarrow> string" where
  "close_think think qwen3 rendered =
     (if \<not> think \<and> qwen3
      then rev (dropWhile (\<lambda>c. c = CHR 0x0A \<or> c = CHR '' '') (rev rendered))
           @ [CHR 0x0A] @ ''<think>'' @ [CHR 0x0A, CHR 0x0A] @ ''</think>'' @ [CHR 0x0A, CHR 0x0A]
      else rendered)"

partial_function (option) raw_tokenize_loop :: "(int \<Rightarrow> int \<times> int list) \<Rightarrow> nat \<Rightarrow> int list option" where
  "raw_tokenize_loop tk cap =
     (let (n, out) = tk (to_i32 (int cap)) in
      if n \<ge> 0 then Some (resize (nat n) 0 out) else raw_tokenize_loop tk (nat (- n)))"

definition tokenize_prompt ::
  "('j, 'f, 'c, 's) world \<Rightarrow> resolved \<Rightarrow> string \<Rightarrow> (int list \<times> resolved) chat" where
  "tokenize_prompt W r rendered =
     (let (raw, r) = env (w_getenv W) r ''RAW_PROMPT'';
          ts = (case raw of
                  Some t \<Rightarrow> raw_tokenize_loop (w_tok W t True False) 32
                | None \<Rightarrow> tokenize (w_tok W) rendered False);
          (dbg, r) = env (w_getenv W) r ''DEBUG_TOKIDS'';
          (dbg, r) = env (w_getenv W) r ''DEBUG_PROMPT''
      in case ts of None \<Rightarrow> Inl (Failed Hangs) | Some p \<Rightarrow> Inr (p, r))"

definition prepare_prompt ::
  "('j, 'f, 'c, 's) world \<Rightarrow> 'c engine \<Rightarrow> resolved \<Rightarrow> ('j, 'f) chat_params \<Rightarrow> (int list \<times> int \<times> resolved) chat" where
  "prepare_prompt W eng r q =
     (let lane = lane_ctx eng; max_prompt = lane - max_tokens q - 4; count = count_msg_tokens W (chat_template eng) in
      if max_prompt < 1 then
        error_body 400 (''max_tokens too large for context lane ('' @ to_string lane @ '' tokens)'') ''invalid_request_error''
      else
        bindC (trim_messages_for_context (w_json W) count (messages q) max_prompt 0) (\<lambda>(msgs, trimmed).
        bindC (count msgs) (\<lambda>n.
          if n < 0 then error_body 400 ''could not tokenize messages'' ''invalid_request_error''
          else if n > max_prompt then
            error_body 400 (''messages exceed context lane ('' @ to_string lane
              @ '' tokens) even after trim; shorten system prompt or max_tokens'') ''context_length_exceeded''
          else
            (case apply_chat_template W (chat_template eng) msgs of
               None \<Rightarrow> Inl (Failed Hangs)
             | Some (Inl err) \<Rightarrow> error_body 400 err ''invalid_request_error''
             | Some (Inr rendered) \<Rightarrow>
                 bindC (tokenize_prompt W r (close_think (think_enabled q) (arch_qwen3_think_off eng) rendered)) (\<lambda>(prompt, r).
                   let headroom = lane - to_i32 (int (length prompt)) - 4 in
                   if headroom < 1 then
                     error_body 400 (''prompt of '' @ dec (length prompt) @ '' tokens does not fit context lane of '' @ to_string lane
                       @ ''; raise CNE_CTX or trim messages'') ''context_length_exceeded''
                   else Inr (prompt, min (max_tokens q) headroom, r))))))"

section \<open>Running a generation\<close>

definition run_generation ::
  "('j, 'f, 'c, 's) world \<Rightarrow> 'c engine \<Rightarrow> string option \<Rightarrow> int list \<Rightarrow> 's \<Rightarrow> int \<Rightarrow> bool \<Rightarrow> emit_ctx \<Rightarrow>
   srv_fail + int \<times> emit_ctx \<times> string \<times> 'c engine" where
  "run_generation W eng key prompt smpl n_gen greedy emit =
     (if mtp_k eng > 0 \<and> greedy then
        (let (produced, c, emit) = w_mtp W (e_ctx eng) prompt n_gen emit;
             (n, emit, reason) = generate_mtp (produced, emit) n_gen []
         in Inr (n, emit, reason, eng\<lparr>e_ctx := c\<rparr>))
      else if key \<noteq> None \<and> map_of (slots (sessions eng)) (the key) = None then Inl Dangling_slot
      else
        (let slot = (case key of None \<Rightarrow> None | Some k \<Rightarrow> map_of (slots (sessions eng)) k) in
         case generate_sequential (w_llama W) (w_gen W) (w_detok W) (w_client W) (w_clock W) prompt n_gen
                \<lparr>gs_ctx = e_ctx eng, gs_smpl = smpl, gs_slot = slot, gs_emit = emit, gs_reason = [], gs_stats = None\<rparr> of
           Inl f \<Rightarrow> Inl f
         | Inr (n, g) \<Rightarrow>
             Inr (n, gs_emit g, gs_reason g,
                  eng\<lparr>e_ctx := gs_ctx g,
                      sessions := (case (key, gs_slot g) of (Some k, Some sl) \<Rightarrow> put_slot (sessions eng) k sl | _ \<Rightarrow> sessions eng)\<rparr>)))"

definition truncation_text :: "int \<Rightarrow> string" where
  "truncation_text n_gen = ''[no answer generated: the model used all '' @ to_string n_gen
     @ '' tokens thinking; increase max_tokens or disable thinking]''"

text \<open>A streamed generation, queued for the engine thread.\<close>

record 's stream_job =
  sj_key :: "string option"
  sj_prompt :: "int list"
  sj_smpl :: 's
  sj_n_gen :: int
  sj_greedy :: bool
  sj_emit :: emit_ctx

definition clear_if_stateless :: "'c llama \<Rightarrow> string option \<Rightarrow> 'c engine \<Rightarrow> 'c engine" where
  "clear_if_stateless L key eng = (if key = None then eng\<lparr>e_ctx := session_clear_seq L (e_ctx eng) 0\<rparr> else eng)"

definition run_stream_job ::
  "('j, 'f, 'c, 's) world \<Rightarrow> 's stream_job \<Rightarrow> 'c engine \<Rightarrow> srv_fail + token_stream \<times> string \<times> 'c engine" where
  "run_stream_job W j eng =
     (case run_generation W eng (sj_key j) (sj_prompt j) (sj_smpl j) (sj_n_gen j) (sj_greedy j) (sj_emit j) of
        Inl f \<Rightarrow> Inl f
      | Inr (n, emit, reason, eng) \<Rightarrow>
          (let ts = (case ec_stream emit of None \<Rightarrow> new_token_stream | Some ts \<Rightarrow> ts);
               ts = (if truncated_in_think (ec_em emit) then ts_push (truncation_text (sj_n_gen j)) ts else ts)
           in Inr (ts_finish (n \<ge> 0 \<and> reason \<noteq> ''error'') ts, reason, clear_if_stateless (w_llama W) (sj_key j) eng)))"

section \<open>The server\<close>

record ('c, 's) server =
  sv_eng :: "'c engine"
  sv_env :: resolved
  sv_req_counter :: int
  sv_jobs :: "'s stream_job job_queue"
  sv_settings :: settings
  sv_keys :: key_table
  sv_limiter :: rate_limiter

fun run_pending :: "('j, 'f, 'c, 's) world \<Rightarrow> 's stream_job list \<Rightarrow> 'c engine \<Rightarrow> srv_fail + 'c engine" where
  "run_pending W [] eng = Inr eng"
| "run_pending W (j # js) eng =
     (case run_stream_job W j eng of Inl f \<Rightarrow> Inl f | Inr (ts, reason, eng) \<Rightarrow> run_pending W js eng)"

definition new_emit :: "bool \<Rightarrow> bool \<Rightarrow> int option \<Rightarrow> emit_ctx" where
  "new_emit strip streaming d =
     \<lparr>ec_em = new_emitter strip, ec_stream = (if streaming then Some new_token_stream else None), ec_text = [],
      ec_emitted = 0, ec_deadline = d, ec_stop_reason = 0\<rparr>"

text \<open>The reply of a request that does not stream: it waits until the engine thread has run the queue and its own job.\<close>

definition serve_plain ::
  "('j, 'f, 'c, 's) world \<Rightarrow> ('c, 's) server \<Rightarrow> string option \<Rightarrow> int list \<Rightarrow> 's \<Rightarrow> int \<Rightarrow> bool \<Rightarrow> emit_ctx \<Rightarrow> string \<Rightarrow>
   srv_fail + reply \<times> ('c, 's) server" where
  "serve_plain W sv key prompt smpl n_gen greedy emit rid =
     (case run_pending W (jobs (sv_jobs sv)) (sv_eng sv) of
        Inl f \<Rightarrow> Inl f
      | Inr eng \<Rightarrow>
          (case run_generation W eng key prompt smpl n_gen greedy emit of
             Inl f \<Rightarrow> Inl f
           | Inr (n, emit, reason, eng) \<Rightarrow>
               (let text = (if truncated_in_think (ec_em emit) then truncation_text n_gen else ec_text emit);
                    sv = sv\<lparr>sv_jobs := (sv_jobs sv)\<lparr>jobs := []\<rparr>, sv_eng := clear_if_stateless (w_llama W) key eng\<rparr>
                in if reason = ''error'' \<or> n < 0
                   then Inr (Error_reply 500 ''generation failed (see server logs)'' ''internal_error'', sv)
                   else Inr (Completion rid text reason (int (length prompt)) (ec_emitted emit), sv))))"

text \<open>
  From the decode mutex on; a streamed request queues its job and returns, releasing the mutex. The queue gauges and the log
  are left out.
\<close>

definition serve_chat ::
  "('j, 'f, 'c, 's) world \<Rightarrow> ('c, 's) server \<Rightarrow> ('j, 'f) chat_params \<Rightarrow> int list \<Rightarrow> int \<Rightarrow> string \<Rightarrow> bool \<Rightarrow> int \<Rightarrow>
   srv_fail + reply \<times> ('c, 's) server" where
  "serve_chat W sv q prompt n_gen api_user api_mode now =
     (let (key, eng) = bind_conversation (w_llama W) (sv_eng sv) (conv_id q) (clear_conv q) api_user;
          sv = sv\<lparr>sv_eng := eng\<rparr>
      in if api_mode \<and> conv_id q \<noteq> [] \<and> key = None then
           Inr (Error_reply 403 ''conversation owned by another user'' ''permission_error'', sv)
         else
           (let sv = sv\<lparr>sv_req_counter := sv_req_counter sv + 1\<rparr>;
                rid = ''chatcmpl-cne-'' @ to_string (sv_req_counter sv);
                smpl = w_sampler W (build_sampler (w_float W) (temperature q) (top_p q) (seed q));
                greedy = f_le (w_float W) (temperature q) (f_zero (w_float W));
                emit = new_emit (\<not> think_enabled q \<and> \<not> arch_lfm2moe eng) (want_stream q) (map_option (\<lambda>b. now + b) (max_req_ns eng))
            in if want_stream q then
                 Inr (Stream_open rid, sv\<lparr>sv_jobs := submit_job
                   \<lparr>sj_key = key, sj_prompt = prompt, sj_smpl = smpl, sj_n_gen = n_gen, sj_greedy = greedy, sj_emit = emit\<rparr> (sv_jobs sv)\<rparr>)
               else serve_plain W sv key prompt smpl n_gen greedy emit rid))"

definition handle_chat ::
  "('j, 'f, 'c, 's) world \<Rightarrow> ('c, 's) server \<Rightarrow> 'j \<Rightarrow> 'j list \<Rightarrow> string \<Rightarrow> string \<Rightarrow> int \<Rightarrow> srv_fail + reply \<times> ('c, 's) server" where
  "handle_chat W sv body msgs conv_hdr api_user now =
     (let api_mode = enabled (sv_settings sv) \<and> api_user \<noteq> [] in
      case bindC (chat_params W (sv_settings sv) (sv_eng sv) body msgs conv_hdr api_user api_mode) (\<lambda>q.
             bindC (prepare_prompt W (sv_eng sv) (sv_env sv) q) (\<lambda>(prompt, n_gen, r). Inr (q, prompt, n_gen, r))) of
        Inl (Failed f) \<Rightarrow> Inl f
      | Inl (Replied rep) \<Rightarrow> Inr (rep, sv)
      | Inr (q, prompt, n_gen, r) \<Rightarrow> serve_chat W (sv\<lparr>sv_env := r\<rparr>) q prompt n_gen api_user api_mode now)"

section \<open>The HTTP handler\<close>

text \<open>\<open>parsed\<close> is the outcome of parsing the body, \<open>conv_hdr\<close> the value of the X-Conversation-Id header or the empty string.\<close>

definition collect_headers :: "headers \<Rightarrow> headers" where
  "collect_headers hs = foldl (\<lambda>out h. filter (\<lambda>x. fst x \<noteq> fst h) out @ [h]) [] hs"

definition chat_completions ::
  "('j, 'f, 'c, 's) world \<Rightarrow> ('c, 's) server \<Rightarrow> 'j option \<Rightarrow> headers \<Rightarrow> string \<Rightarrow> int \<Rightarrow> srv_fail + reply \<times> ('c, 's) server" where
  "chat_completions W sv parsed hs conv_hdr now =
     (case parsed of
        None \<Rightarrow> Inr (Error_reply 400 ''invalid JSON body'' ''invalid_request_error'', sv)
      | Some body \<Rightarrow>
          (let msgs = (if j_contains (w_json W) body ''messages'' then j_array (w_json W) (j_at (w_json W) body ''messages'') else None) in
           if msgs = None \<or> the msgs = [] then
             Inr (Error_reply 400 (quoted ''messages'' @ '' must be a non-empty array'') ''invalid_request_error'', sv)
           else if enabled (sv_settings sv) then
             (let auth = authenticate (collect_headers hs) (sv_settings sv) (sv_keys sv) in
              if \<not> auth_ok auth then
                Inr (Error_reply (http_status auth) (auth_error auth)
                       (if http_status auth = 403 then ''permission_error''
                        else if http_status auth = 503 then ''server_error'' else ''authentication_error''), sv)
              else
                (let (ok, rl) = allow (sv_limiter sv) now (user_id auth); sv = sv\<lparr>sv_limiter := rl\<rparr> in
                 if \<not> ok then Inr (Error_reply 429 ''rate limit exceeded (requests per minute)'' ''rate_limit_error'', sv)
                 else handle_chat W sv body (the msgs) conv_hdr (user_id auth) now))
           else handle_chat W sv body (the msgs) conv_hdr [] now))"


section \<open>Lemmas\<close>

lemma bindC_Inr: "bindC step rest = Inr res \<longleftrightarrow> (\<exists>v. step = Inr v \<and> rest v = Inr res)"
  by (cases step) auto

text \<open>
  The contract of the chat templates, as \<^verbatim>\<open>llama.h\<close> documents it: a call returns the length of the whole text and writes as
  much of it as the buffer holds.
\<close>

definition template_ok :: "(int \<Rightarrow> int \<times> string) \<Rightarrow> string \<Rightarrow> bool" where
  "template_ok tp text \<longleftrightarrow> length text < 2147483647 \<and>
     (\<forall>cap. fst (tp cap) = int (length text) \<and> (int (length text) < cap \<longrightarrow> take (length text) (snd (tp cap)) = text))"

lemma template_loop_ok:
  assumes t: "template_ok tp text" and cap: "0 < cap" "cap < 2147483648"
  shows "template_loop tp cap = Some (Inr text)"
proof -
  have fit: "template_loop tp cap = Some (Inr text)" if "length text < cap" "cap < 2147483648" for cap
  proof -
    have "fst (tp (int cap)) = int (length text)" "take (length text) (snd (tp (int cap))) = text"
      using t that(1) by (simp_all add: template_ok_def)
    then show ?thesis using that by (subst template_loop.simps) (simp add: split_def)
  qed
  show ?thesis
  proof (cases "length text < cap")
    case False
    have n: "template_loop tp (length text + 1) = Some (Inr text)" using t by (intro fit) (simp_all add: template_ok_def)
    obtain buf where b: "tp (int cap) = (int (length text), buf)" using t by (metis prod.collapse template_ok_def)
    have "text \<noteq> []" using False cap(1) by auto
    then show ?thesis using b n cap False by (subst template_loop.simps) simp
  qed (use fit cap in simp)
qed

section \<open>Trimming\<close>

text \<open>The oldest message that is not a system message goes.\<close>

fun drop_oldest :: "('j \<Rightarrow> bool) \<Rightarrow> 'j list \<Rightarrow> 'j list" where
  "drop_oldest sys [] = []"
| "drop_oldest sys (m # ms) = (if sys m then m # drop_oldest sys ms else ms)"

lemma drop_oldest_filter:
  "filter sys (drop_oldest sys ms) = filter sys ms" "filter (\<lambda>m. \<not> sys m) (drop_oldest sys ms) = drop 1 (filter (\<lambda>m. \<not> sys m) ms)"
  by (induction ms) auto

lemma drop_oldest_pow_filter:
  "filter sys ((drop_oldest sys ^^ k) ms) = filter sys ms \<and>
   filter (\<lambda>m. \<not> sys m) ((drop_oldest sys ^^ k) ms) = drop k (filter (\<lambda>m. \<not> sys m) ms)"
  by (induction k) (simp_all add: drop_oldest_filter [simplified])

lemma set_drop_oldest: "set (drop_oldest sys ms) \<subseteq> set ms"
  by (induction ms) auto

definition role_is_system :: "('j, 'f) json_lib \<Rightarrow> 'j \<Rightarrow> bool" where
  "role_is_system J m \<longleftrightarrow> value_of J (j_string J) m ''role'' [] = Inr ''system''"

definition has_role :: "('j, 'f) json_lib \<Rightarrow> 'j \<Rightarrow> bool" where
  "has_role J m \<longleftrightarrow> (\<exists>r. value_of J (j_string J) m ''role'' [] = Inr r)"

lemma drop_index_ok:
  "list_all (has_role J) ms \<Longrightarrow> \<exists>k. drop_index J ms = Inr k \<and>
     (if list_all (role_is_system J) ms then k = length ms
      else k < length ms \<and> take k ms @ drop (Suc k) ms = drop_oldest (role_is_system J) ms)"
proof (induction ms)
  case (Cons m ms)
  then obtain r where r: "value_of J (j_string J) m ''role'' [] = Inr r" by (auto simp: has_role_def)
  from Cons obtain k where k: "drop_index J ms = Inr k"
    "if list_all (role_is_system J) ms then k = length ms
     else k < length ms \<and> take k ms @ drop (Suc k) ms = drop_oldest (role_is_system J) ms" by auto
  moreover have "role_is_system J m \<longleftrightarrow> r = ''system''" by (simp add: r role_is_system_def)
  ultimately show ?case by (cases "r = ''system''") (auto simp: r)
qed simp

text \<open>What trimming returns, for a token count that never fails.\<close>

definition trim_post :: "('j \<Rightarrow> bool) \<Rightarrow> ('j list \<Rightarrow> int) \<Rightarrow> int \<Rightarrow> 'j list \<Rightarrow> nat \<Rightarrow> 'j list \<Rightarrow> bool" where
  "trim_post sys cnt mp ms k ms' \<longleftrightarrow>
     ms' = (drop_oldest sys ^^ k) ms \<and> (\<forall>j < k. cnt ((drop_oldest sys ^^ j) ms) > mp) \<and>
     (ms' = [] \<or> cnt ms' \<le> mp \<or> list_all sys ms')"

lemma trim_ok:
  assumes "1 \<le> mp"
  shows "list_all (has_role J) ms \<Longrightarrow> (\<And>ms'. set ms' \<subseteq> set ms \<Longrightarrow> ms' \<noteq> [] \<Longrightarrow> count ms' = Inr (cnt ms')) \<Longrightarrow>
   \<exists>k ms'. trim_messages_for_context J count ms mp d = Inr (ms', d + k) \<and> trim_post (role_is_system J) cnt mp ms k ms'"
proof (induction "length ms" arbitrary: ms d rule: less_induct)
  case less
  let ?sys = "role_is_system J"
  show ?case
  proof (cases "ms = [] \<or> cnt ms \<le> mp")
    case True
    then have "trim_messages_for_context J count ms mp d = Inr (ms, d + 0)"
      using less.prems(2) [of ms] assms by (subst trim_messages_for_context.simps) auto
    with True show ?thesis by (auto simp: trim_post_def intro!: exI [of _ 0])
  next
    case False
    obtain k where k: "drop_index J ms = Inr k"
      "if list_all ?sys ms then k = length ms else k < length ms \<and> take k ms @ drop (Suc k) ms = drop_oldest ?sys ms"
      using drop_index_ok [OF less.prems(1)] by blast
    show ?thesis
    proof (cases "list_all ?sys ms")
      case True
      then have "trim_messages_for_context J count ms mp d = Inr (ms, d + 0)"
        using less.prems(2) [of ms] assms k False by (subst trim_messages_for_context.simps) auto
      with True show ?thesis by (auto simp: trim_post_def intro!: exI [of _ 0])
    next
      case ns: False
      then have kl: "k < length ms" "take k ms @ drop (Suc k) ms = drop_oldest ?sys ms" using k(2) by simp_all
      have sub: "set (drop_oldest ?sys ms) \<subseteq> set ms" by (rule set_drop_oldest)
      have "length (take k ms @ drop (Suc k) ms) < length ms" using kl(1) by simp
      then have lt: "length (drop_oldest ?sys ms) < length ms" unfolding kl(2) .
      have "list_all (has_role J) (drop_oldest ?sys ms)" using less.prems(1) sub by (auto simp: list_all_iff)
      from less.hyps [OF lt this, of "d + 1"] less.prems(2) sub obtain k' ms' where
        r: "trim_messages_for_context J count (drop_oldest ?sys ms) mp (d + 1) = Inr (ms', d + 1 + k')"
          "trim_post ?sys cnt mp (drop_oldest ?sys ms) k' ms'" by blast
      have "trim_messages_for_context J count ms mp d = Inr (ms', d + Suc k')"
        using less.prems(2) [of ms] assms k False ns kl r(1) by (subst trim_messages_for_context.simps) simp
      moreover have "trim_post ?sys cnt mp ms (Suc k') ms'"
        using r(2) False by (auto simp: trim_post_def funpow_swap1 less_Suc_eq_0_disj)
      ultimately show ?thesis by blast
    qed
  qed
qed

section \<open>A world that keeps its contracts\<close>

definition world_ok :: "('j, 'f, 'c, 's) world \<Rightarrow> (string option \<Rightarrow> (string \<times> string) list \<Rightarrow> string) \<Rightarrow> (string \<Rightarrow> bool \<Rightarrow> bool \<Rightarrow> int list) \<Rightarrow> bool" where
  "world_ok W render toks \<longleftrightarrow> tok_ok (w_tok W) toks \<and> (\<forall>tmpl msgs. template_ok (w_template W tmpl msgs) (render tmpl msgs))"

definition wf_message :: "('j, 'f) json_lib \<Rightarrow> 'j \<Rightarrow> bool" where
  "wf_message J m \<longleftrightarrow> j_contains J m ''role'' \<and> j_contains J m ''content''
     \<and> j_string J (j_at J m ''role'') \<noteq> None \<and> j_string J (j_at J m ''content'') \<noteq> None"

definition message_of :: "('j, 'f) json_lib \<Rightarrow> 'j \<Rightarrow> string \<times> string" where
  "message_of J m = (the (j_string J (j_at J m ''role'')), the (j_string J (j_at J m ''content'')))"

definition prompt_tokens ::
  "('j, 'f) json_lib \<Rightarrow> (string option \<Rightarrow> (string \<times> string) list \<Rightarrow> string) \<Rightarrow> (string \<Rightarrow> bool \<Rightarrow> bool \<Rightarrow> int list) \<Rightarrow> string \<Rightarrow> 'j list \<Rightarrow> int list" where
  "prompt_tokens J render toks tmpl ms = toks (render (if tmpl = [] then None else Some tmpl) (map (message_of J) ms)) False True"

lemma read_messages_ok: "list_all (wf_message J) ms \<Longrightarrow> read_messages J ms = Some (map (message_of J) ms)"
  by (induction ms) (auto simp: wf_message_def message_of_def)

lemma wf_has_role: "wf_message J m \<Longrightarrow> has_role J m"
  by (auto simp: wf_message_def has_role_def value_of_def)

lemma count_msg_tokens_ok:
  assumes "world_ok W render toks" "list_all (wf_message (w_json W)) ms"
  shows "count_msg_tokens W tmpl ms = Inr (int (length (prompt_tokens (w_json W) render toks tmpl ms)))"
proof -
  let ?t = "if tmpl = [] then None else Some tmpl" and ?m = "map (message_of (w_json W)) ms"
  have "template_loop (w_template W ?t ?m) 4096 = Some (Inr (render ?t ?m))"
    using assms(1) by (intro template_loop_ok) (simp_all add: world_ok_def)
  moreover have "tok_ok (w_tok W) toks" using assms(1) by (simp add: world_ok_def)
  moreover from this have "length (toks (render ?t ?m) False True) < 2147483648" by (auto simp: tok_ok_def fills_def)
  ultimately show ?thesis
    using read_messages_ok [OF assms(2)] by (simp add: count_msg_tokens_def apply_chat_template_def tokenize_ok prompt_tokens_def)
qed

section \<open>Bindings\<close>

lemma prepare_prompt_fits:
  assumes "prepare_prompt W eng r q = Inr (prompt, n_gen, r')"
  shows "n_gen = min (max_tokens q) (lane_ctx eng - to_i32 (int (length prompt)) - 4) \<and> 1 \<le> lane_ctx eng - to_i32 (int (length prompt)) - 4"
  using assms
  by (auto simp: prepare_prompt_def Let_def bindC_Inr error_body_def split: if_splits option.splits sum.splits prod.splits)

lemma bind_not_clear:
  "sessions_enabled eng \<Longrightarrow> conv \<noteq> [] \<Longrightarrow> mtp_k eng = 0 \<Longrightarrow>
   bind_conversation L eng conv False ow =
     (let (err, res, c, st) = get_or_create L (e_ctx eng) (sessions eng) conv ow
      in (res, eng\<lparr>e_ctx := c, sessions := st, active_conv_id := conv\<rparr>))"
  by (simp add: bind_conversation_def)


lemma get_or_create_max_slots:
  assumes "llama_ok L kv" "good kv (c, st)" "get_or_create L c st i ow = (err, res, c', st')"
  shows "max_slots st' = max_slots st"
proof (cases "map_of (slots st) i")
  case None
  then show ?thesis using create_spec [OF assms(1,2) None assms(3)] by (auto simp: with_new_slot_def)
next
  case (Some s)
  then show ?thesis using assms(3) by (auto simp: get_or_create_def touch_slot_def split: if_splits)
qed

text \<open>With a single slot, the slot of the last conversation bound is the only one.\<close>

lemma bind_only_slot:
  assumes L: "llama_ok L kv" and g: "good kv (e_ctx eng, sessions eng)" and m: "max_slots (sessions eng) = 1"
    and b: "bind_conversation L eng conv False ow = (Some i, eng')"
  shows "i = conv \<and> good kv (e_ctx eng', sessions eng') \<and> max_slots (sessions eng') = 1 \<and> fst ` set (slots (sessions eng')) = {conv}
    \<and> mtp_k eng' = mtp_k eng \<and> sessions_enabled eng' = sessions_enabled eng"
proof -
  obtain err c st where gc: "get_or_create L (e_ctx eng) (sessions eng) conv ow = (err, Some i, c, st)"
    and e: "eng' = eng\<lparr>e_ctx := c, sessions := st, active_conv_id := conv\<rparr>"
    using b by (auto simp: bind_conversation_def Let_def split: if_splits prod.splits)
  have sp: "good kv (c, st)" "i = conv" "\<exists>s. map_of (slots st) i = Some s"
    using get_or_create_spec [OF L g gc] by auto
  have mx: "max_slots st = 1" using get_or_create_max_slots [OF L g gc] m by simp
  have "length (slots st) \<le> 1" using sp(1) mx by (simp add: good_def store_inv_def)
  moreover have "conv \<in> fst ` set (slots st)" using sp(2,3) by (auto dest: map_of_SomeD intro: rev_image_eqI)
  ultimately have "fst ` set (slots st) = {conv}" by (cases "slots st") auto
  then show ?thesis using sp mx e by simp
qed

lemma serve_streamed:
  assumes "serve_chat W sv q prompt n_gen u True now = Inr (rep, sv')" "conv_id q \<noteq> []" "want_stream q" "rep = Stream_open rid"
  shows "\<exists>i eng j. bind_conversation (w_llama W) (sv_eng sv) (conv_id q) (clear_conv q) u = (Some i, eng) \<and> sv_eng sv' = eng
    \<and> jobs (sv_jobs sv') = jobs (sv_jobs sv) @ [j] \<and> sj_key j = Some i"
proof -
  obtain k eng where b: "bind_conversation (w_llama W) (sv_eng sv) (conv_id q) (clear_conv q) u = (k, eng)" by fastforce
  show ?thesis using assms b by (cases k) (auto simp: serve_chat_def Let_def submit_job_def)
qed

section \<open>Properties\<close>

text \<open>
  Claim C24. Trimming the history: every system message is kept, the other messages lose a prefix, oldest first, and no
  more of them than needed: with one message less dropped the prompt was still too long. What is left fits the
  token budget, or only system messages are left.
\<close>

theorem trim_keeps_system_messages:
  fixes tmpl :: string
  assumes W: "world_ok W render toks" and ms: "list_all (wf_message (w_json W)) ms" and mp: "1 \<le> mp"
  defines "sys \<equiv> role_is_system (w_json W)" and "len \<equiv> (\<lambda>ms. int (length (prompt_tokens (w_json W) render toks tmpl ms)))"
  shows "\<exists>k ms'. trim_messages_for_context (w_json W) (count_msg_tokens W tmpl) ms mp 0 = Inr (ms', k)
    \<and> filter sys ms' = filter sys ms \<and> filter (\<lambda>m. \<not> sys m) ms' = drop k (filter (\<lambda>m. \<not> sys m) ms)
    \<and> (\<forall>j < k. mp < len ((drop_oldest sys ^^ j) ms))
    \<and> (ms' = [] \<or> len ms' \<le> mp \<or> list_all sys ms')"
proof -
  have "count_msg_tokens W tmpl ms' = Inr (len ms')" if "set ms' \<subseteq> set ms" for ms'
    unfolding len_def using ms that by (intro count_msg_tokens_ok [OF W]) (auto simp: list_all_iff)
  moreover have "list_all (has_role (w_json W)) ms" using ms by (auto simp: list_all_iff wf_has_role)
  ultimately obtain k ms' where "trim_messages_for_context (w_json W) (count_msg_tokens W tmpl) ms mp 0 = Inr (ms', 0 + k)"
    "trim_post sys len mp ms k ms'"
    unfolding sys_def using trim_ok [OF mp, of "w_json W" ms "count_msg_tokens W tmpl" len 0] by blast
  then show ?thesis using drop_oldest_pow_filter [of sys k ms] by (auto simp: trim_post_def)
qed

text \<open>
  Claim C25. The context guard: a request that reaches generation leaves room for what it may generate. The prompt, the tokens to
  generate and the reserve of four fit the context lane, and at least one token and at most the requested number
  will be generated.
\<close>

theorem prompt_fits_lane:
  assumes "prepare_prompt W eng r q = Inr (prompt, n_gen, r')" "1 \<le> max_tokens q" "length prompt < 2147483648"
  shows "int (length prompt) + n_gen + 4 \<le> lane_ctx eng \<and> 1 \<le> n_gen \<and> n_gen \<le> max_tokens q"
  using prepare_prompt_fits [OF assms(1)] assms(2,3) by auto

text \<open>
  Claim C21. The gate: in API mode a request changes the engine or the job queue, or gets anything but an error, only when it carries a
  valid credential and the rate limiter lets its tenant pass.
\<close>

theorem only_admitted_requests_reach_engine:
  assumes "enabled (sv_settings sv)" "chat_completions W sv parsed hs conv_hdr now = Inr (rep, sv')"
    "sv_eng sv' \<noteq> sv_eng sv \<or> sv_jobs sv' \<noteq> sv_jobs sv \<or> (\<forall>st m t. rep \<noteq> Error_reply st m t)"
  defines "auth \<equiv> authenticate (collect_headers hs) (sv_settings sv) (sv_keys sv)"
  shows "auth_ok auth \<and> fst (allow (sv_limiter sv) now (user_id auth))"
  using assms by (auto simp: chat_completions_def Let_def split: option.splits if_splits prod.splits)


text \<open>
  Claim C38. The exception: a tenant whose name is the part before a colon of another tenant's name can destroy the other tenant's
  conversation. The ownership test accepts its id, and with \<^verbatim>\<open>clear_conversation\<close> the session is removed before
  the owner check of the store, so that the conversation starts anew as the caller's; without it, the request is
  refused.
\<close>

theorem clear_conversation_wipes_foreign:
  assumes L: "llama_ok L kv" and g: "good kv (e_ctx eng, sessions eng)" and on: "sessions_enabled eng" "mtp_k eng = 0"
    and u: "u \<noteq> []" and conv: "conv = make_conversation_id (u @ '':'' @ x) c"
    and s: "map_of (slots (sessions eng)) conv = Some s" "owner s = u @ '':'' @ x"
  shows "conversation_owned_by conv u
    \<and> fst (bind_conversation L eng conv False u) = None
    \<and> (\<exists>s'. fst (bind_conversation L eng conv True u) = Some conv
         \<and> map_of (slots (sessions (snd (bind_conversation L eng conv True u)))) conv = Some s' \<and> owner s' = u \<and> kv_tokens s' = [])"
proof (intro conjI)
  have ne: "conv \<noteq> []" by (simp add: conv make_conversation_id_def)
  show "conversation_owned_by conv u" using conversation_ids_separate [of u u c c x] u conv by simp
  show "fst (bind_conversation L eng conv False u) = None"
    using s u on ne by (simp add: bind_conversation_def get_or_create_def)
  obtain c1 st1 where rm: "remove_session L (e_ctx eng) (sessions eng) conv = (c1, st1)" by fastforce
  have g1: "good kv (c1, st1)" "map_of (slots st1) conv = None" using removal_spec [OF L g, of conv] rm by simp_all
  obtain err res c2 st2 where gc: "get_or_create L c1 st1 conv u = (err, res, c2, st2)" by (metis prod_cases4)
  obtain s' where "res = Some conv" "map_of (slots st2) conv = Some s'" "owner s' = u" "kv_tokens s' = []"
    using get_or_create_spec [OF L g1(1) gc] create_spec [OF L g1 gc] g1(2) u by auto
  then show "\<exists>s'. fst (bind_conversation L eng conv True u) = Some conv
         \<and> map_of (slots (sessions (snd (bind_conversation L eng conv True u)))) conv = Some s' \<and> owner s' = u \<and> kv_tokens s' = []"
    using on ne rm gc by (simp add: bind_conversation_def)
qed

text \<open>
  In API mode, a request that names a conversation is refused as belonging to another user whenever sessions are
  switched off or speculative decoding is on, whoever asks.
\<close>

theorem conversations_refused_without_sessions:
  assumes "\<not> sessions_enabled (sv_eng sv) \<or> mtp_k (sv_eng sv) \<noteq> 0" "conv_id q \<noteq> []"
  shows "serve_chat W sv q prompt n_gen u True now =
    Inr (Error_reply 403 ''conversation owned by another user'' ''permission_error'', sv\<lparr>sv_eng := (sv_eng sv)\<lparr>active_conv_id := []\<rparr>\<rparr>)"
  using assms by (auto simp: serve_chat_def bind_conversation_def)

text \<open>
  Claim C37. A streamed request gives up the decode mutex when its handler returns, before its generation has run. With a single session
  slot, a second streamed request for another conversation then evicts the slot the first job still points to:
  when the engine thread comes to the first job, its slot no longer exists.
\<close>

theorem streamed_job_loses_slot:
  assumes L: "llama_ok (w_llama W) kv" and g: "good kv (e_ctx (sv_eng sv), sessions (sv_eng sv))"
    and m: "max_slots (sessions (sv_eng sv)) = 1" and mtp: "mtp_k (sv_eng sv) = 0" and j0: "jobs (sv_jobs sv) = []"
    and q1: "want_stream q1" "conv_id q1 \<noteq> []" "\<not> clear_conv q1" and q2: "want_stream q2" "conv_id q2 \<noteq> []" "\<not> clear_conv q2"
    and ne: "conv_id q1 \<noteq> conv_id q2"
    and s1: "serve_chat W sv q1 p1 n1 u1 True t1 = Inr (Stream_open r1, sv1)"
    and s2: "serve_chat W sv1 q2 p2 n2 u2 True t2 = Inr (Stream_open r2, sv2)"
  shows "run_stream_job W (hd (jobs (sv_jobs sv2))) (sv_eng sv2) = Inl Dangling_slot"
proof -
  obtain i1 eng1 j1 where a: "bind_conversation (w_llama W) (sv_eng sv) (conv_id q1) False u1 = (Some i1, eng1)" "sv_eng sv1 = eng1"
    "jobs (sv_jobs sv1) = [j1]" "sj_key j1 = Some i1"
    using serve_streamed [OF s1 q1(2,1)] q1(3) j0 by auto
  obtain i2 eng2 j2 where b: "bind_conversation (w_llama W) eng1 (conv_id q2) False u2 = (Some i2, eng2)" "sv_eng sv2 = eng2"
    "jobs (sv_jobs sv2) = [j1, j2]"
    using serve_streamed [OF s2 q2(2,1)] q2(3) a by auto
  have o1: "i1 = conv_id q1" "good kv (e_ctx eng1, sessions eng1)" "max_slots (sessions eng1) = 1" "mtp_k eng1 = 0"
    using bind_only_slot [OF L g m a(1)] mtp by auto
  have o2: "fst ` set (slots (sessions eng2)) = {conv_id q2}" "mtp_k eng2 = 0"
    using bind_only_slot [OF L o1(2,3) b(1)] o1(4) by auto
  have "map_of (slots (sessions eng2)) i1 = None" using o1(1) o2(1) ne by (auto simp: map_of_eq_None_iff)
  then show ?thesis using b(2,3) a(4) o2(2) by (simp add: run_stream_job_def run_generation_def)
qed


section \<open>Witnesses\<close>

text \<open>A small world: JSON values as a datatype, one token per character, a template that joins the messages.\<close>

datatype jv = JBool bool | JInt int | JStr string | JArr "jv list" | JObj "(string \<times> jv) list"

definition demo_json :: "(jv, int) json_lib" where
  "demo_json = \<lparr>j_contains = (\<lambda>j k. case j of JObj kvs \<Rightarrow> map_of kvs k \<noteq> None | _ \<Rightarrow> False),
     j_at = (\<lambda>j k. case j of JObj kvs \<Rightarrow> the (map_of kvs k) | _ \<Rightarrow> j),
     j_string = (\<lambda>j. case j of JStr s \<Rightarrow> Some s | _ \<Rightarrow> None), j_bool = (\<lambda>j. case j of JBool b \<Rightarrow> Some b | _ \<Rightarrow> None),
     j_int = (\<lambda>j. case j of JInt i \<Rightarrow> Some i | _ \<Rightarrow> None), j_uint = (\<lambda>j. case j of JInt i \<Rightarrow> Some (word_of_int i) | _ \<Rightarrow> None),
     j_float = (\<lambda>j. case j of JInt i \<Rightarrow> Some i | _ \<Rightarrow> None), j_array = (\<lambda>j. case j of JArr js \<Rightarrow> Some js | _ \<Rightarrow> None)\<rparr>"

definition demo_render :: "string option \<Rightarrow> (string \<times> string) list \<Rightarrow> string" where
  "demo_render tmpl msgs = take 1000 (concat (map snd msgs))"

definition demo_toks :: "string \<Rightarrow> bool \<Rightarrow> bool \<Rightarrow> int list" where
  "demo_toks text a p = take 1000 (map of_char text)"

definition demo_tok :: tokenizer where
  "demo_tok text a p cap = (let ts = demo_toks text a p in if int (length ts) \<le> cap then (int (length ts), ts) else (- int (length ts), []))"

definition demo_world :: "(jv, int, ref_ctx, nat) world" where
  "demo_world = \<lparr>w_json = demo_json, w_float = \<lparr>f_zero = 0, f_one = 1, f_le = (\<le>), f_less = (<)\<rparr>, w_llama = ref_llama, w_gen = demo_api,
     w_tok = demo_tok, w_detok = char_detok, w_template = (\<lambda>tmpl msgs cap. (int (length (demo_render tmpl msgs)), demo_render tmpl msgs)),
     w_sampler = (\<lambda>_. 0), w_mtp = (\<lambda>c p n e. (0, c, e)), w_client = (\<lambda>_ s. s), w_clock = (\<lambda>_. 0), w_getenv = (\<lambda>_. None)\<rparr>"

lemma demo_world_ok: "world_ok demo_world demo_render demo_toks"
proof -
  have "length (demo_toks t a p) < 2147483648" for t a p by (simp add: demo_toks_def)
  moreover have "length (demo_render t m) < 2147483647" for t m by (simp add: demo_render_def)
  ultimately show ?thesis
    by (simp add: world_ok_def demo_world_def tok_ok_def fills_def demo_tok_def template_ok_def Let_def)
qed

definition demo_message :: "string \<Rightarrow> string \<Rightarrow> jv" where
  "demo_message r c = JObj [(''role'', JStr r), (''content'', JStr c)]"

theorem trim_keeps_system_messages_witness:
  "\<exists>k ms'. trim_messages_for_context demo_json (count_msg_tokens demo_world [])
     [demo_message ''system'' ''ab'', demo_message ''user'' ''cdefg''] 3 0 = Inr (ms', k)"
proof -
  have "list_all (wf_message (w_json demo_world)) [demo_message ''system'' ''ab'', demo_message ''user'' ''cdefg'']" by code_simp
  from trim_keeps_system_messages [OF demo_world_ok this, of 3 "[]"] show ?thesis by (auto simp: demo_world_def)
qed

definition demo_params :: "string \<Rightarrow> (jv, int) chat_params" where
  "demo_params conv = \<lparr>want_stream = True, temperature = 0, top_p = 1, seed = 0, max_tokens = 8, conv_id = conv, clear_conv = False,
     think_enabled = True, messages = [demo_message ''user'' ''hi'']\<rparr>"

definition demo_server :: "(ref_ctx, nat) server" where
  "demo_server = \<lparr>sv_eng = demo_engine, sv_env = Map.empty, sv_req_counter = 0, sv_jobs = \<lparr>jobs = [], jobs_stop = False\<rparr>,
     sv_settings = default_settings\<lparr>enabled := True\<rparr>, sv_keys = \<lparr>keys = {''k1''}, key_to_user = Map.empty\<rparr>, sv_limiter = new_rate_limiter 60\<rparr>"

lemma demo_prompt: "prepare_prompt demo_world demo_engine Map.empty (demo_params conv) = Inr ([104, 105], 8, Map.empty)"
proof -
  let ?m = "[demo_message ''user'' ''hi'']" and ?W = demo_world
  have wf: "list_all (wf_message (w_json ?W)) ?m" by code_simp
  have c: "count_msg_tokens ?W [] ?m = Inr 2"
    using count_msg_tokens_ok [OF demo_world_ok wf, of "[]"] by (simp add: prompt_tokens_def demo_render_def demo_toks_def message_of_def demo_message_def demo_world_def demo_json_def)
  then have t: "trim_messages_for_context (w_json ?W) (count_msg_tokens ?W []) ?m 52 0 = Inr (?m, 0)"
    by (subst trim_messages_for_context.simps) simp
  have a: "apply_chat_template ?W [] ?m = Some (Inr ''hi'')"
    using template_loop_ok [of "w_template ?W None [(''user'', ''hi'')]" "''hi''" 4096] read_messages_ok [OF wf] demo_world_ok
    by (simp add: apply_chat_template_def world_ok_def message_of_def demo_message_def demo_world_def demo_json_def demo_render_def template_ok_def)
  have "tokenize (w_tok ?W) ''hi'' False = Some [104, 105]"
    using demo_world_ok by (simp add: world_ok_def tokenize_ok [of _ demo_toks] demo_toks_def)
  then have p: "tokenize_prompt ?W Map.empty ''hi'' = Inr ([104, 105], Map.empty)"
    by (simp add: tokenize_prompt_def env_def) (simp add: demo_world_def)
  show ?thesis
    using c t a p by (simp add: prepare_prompt_def demo_params_def demo_engine_def lane_ctx_def close_think_def Let_def)
qed

theorem prompt_fits_lane_witness: "int (length [104, 105 :: int]) + 8 + 4 \<le> lane_ctx demo_engine"
  using prompt_fits_lane [OF demo_prompt] by (simp add: demo_params_def)


definition demo_body :: jv where
  "demo_body = JObj [(''messages'', JArr [demo_message ''user'' ''hi'']), (''stream'', JBool True), (''chat_id'', JStr ''a''), (''max_tokens'', JInt 8)]"

lemma demo_chat_params:
  "chat_params demo_world (sv_settings demo_server) demo_engine demo_body [demo_message ''user'' ''hi''] [] ''ann'' True = Inr (demo_params ''ann:a'')"
  by code_simp

theorem conversations_refused_without_sessions_witness:
  "serve_chat demo_world (demo_server\<lparr>sv_eng := demo_engine\<lparr>sessions_enabled := False\<rparr>\<rparr>) (demo_params ''ann:a'') [104, 105] 8 ''ann'' True 0 =
    Inr (Error_reply 403 ''conversation owned by another user'' ''permission_error'',
         demo_server\<lparr>sv_eng := demo_engine\<lparr>sessions_enabled := False, active_conv_id := []\<rparr>\<rparr>)"
  using conversations_refused_without_sessions [of "demo_server\<lparr>sv_eng := demo_engine\<lparr>sessions_enabled := False\<rparr>\<rparr>" "demo_params ''ann:a''"
    demo_world "[104, 105]" 8 "''ann''" 0] by (simp add: demo_params_def)

definition demo_foreign :: "ref_ctx engine" where
  "demo_foreign = snd (bind_conversation ref_llama demo_engine ''ann:eve:c'' False ''ann:eve'')"

theorem clear_conversation_wipes_foreign_witness:
  "conversation_owned_by (make_conversation_id ''ann:eve'' ''c'') ''ann''
   \<and> fst (bind_conversation ref_llama demo_foreign (make_conversation_id ''ann:eve'' ''c'') True ''ann'') = Some (make_conversation_id ''ann:eve'' ''c'')"
proof -
  let ?conv = "make_conversation_id (''ann'' @ '':'' @ ''eve'') ''c''"
  have "fst (bind_conversation ref_llama demo_engine ''ann:eve:c'' False ''ann:eve'') = Some ''ann:eve:c''" by code_simp
  then have b: "bind_conversation ref_llama demo_engine ''ann:eve:c'' False ''ann:eve'' = (Some ''ann:eve:c'', demo_foreign)"
    unfolding demo_foreign_def by (metis prod.collapse)
  have m: "max_slots (sessions demo_engine) = 1" by code_simp
  have g: "good (\<lambda>c. c) (e_ctx demo_foreign, sessions demo_foreign)" "mtp_k demo_foreign = 0" "sessions_enabled demo_foreign"
    using bind_only_slot [OF ref_llama_ok demo_engine_good m b] by (simp_all add: demo_engine_def)
  have s: "map_of (slots (sessions demo_foreign)) ?conv = Some (new_session_slot\<lparr>sid := ''ann:eve:c'', owner := ''ann:eve'', seq_id := 0, last_tick := 1\<rparr>)"
    by code_simp
  from clear_conversation_wipes_foreign [OF ref_llama_ok g(1,3,2) _ refl s] show ?thesis by simp
qed

fun streaming_server :: "srv_fail + reply \<times> 'v \<Rightarrow> 'v option" where
  "streaming_server (Inr (Stream_open r, sv)) = Some sv"
| "streaming_server _ = None"

lemma streaming_server_Some: "streaming_server x = Some sv \<Longrightarrow> \<exists>r. x = Inr (Stream_open r, sv)"
  by (cases x rule: streaming_server.cases) auto

lemma demo_streams:
  "\<exists>r sv. serve_chat demo_world demo_server (demo_params ''ann:a'') [104, 105] 8 ''ann'' True 0 = Inr (Stream_open r, sv)
     \<and> (\<exists>r' sv'. serve_chat demo_world sv (demo_params ''ann:b'') [104, 105] 8 ''ann'' True 1 = Inr (Stream_open r', sv'))"
proof -
  have "(case streaming_server (serve_chat demo_world demo_server (demo_params ''ann:a'') [104, 105] 8 ''ann'' True 0) of
      None \<Rightarrow> False
    | Some sv \<Rightarrow> streaming_server (serve_chat demo_world sv (demo_params ''ann:b'') [104, 105] 8 ''ann'' True 1) \<noteq> None)" by code_simp
  then obtain sv sv' where "streaming_server (serve_chat demo_world demo_server (demo_params ''ann:a'') [104, 105] 8 ''ann'' True 0) = Some sv"
    "streaming_server (serve_chat demo_world sv (demo_params ''ann:b'') [104, 105] 8 ''ann'' True 1) = Some sv'"
    by (auto split: option.splits)
  from this [THEN streaming_server_Some] show ?thesis by metis
qed

theorem streamed_job_loses_slot_witness:
  "\<exists>r1 sv1 r2 sv2. serve_chat demo_world demo_server (demo_params ''ann:a'') [104, 105] 8 ''ann'' True 0 = Inr (Stream_open r1, sv1)
     \<and> serve_chat demo_world sv1 (demo_params ''ann:b'') [104, 105] 8 ''ann'' True 1 = Inr (Stream_open r2, sv2)
     \<and> run_stream_job demo_world (hd (jobs (sv_jobs sv2))) (sv_eng sv2) = Inl Dangling_slot"
proof -
  obtain r1 sv1 r2 sv2 where s: "serve_chat demo_world demo_server (demo_params ''ann:a'') [104, 105] 8 ''ann'' True 0 = Inr (Stream_open r1, sv1)"
    "serve_chat demo_world sv1 (demo_params ''ann:b'') [104, 105] 8 ''ann'' True 1 = Inr (Stream_open r2, sv2)"
    using demo_streams by blast
  have L: "llama_ok (w_llama demo_world) (\<lambda>c. c)" using ref_llama_ok by (simp add: demo_world_def)
  have "max_slots (sessions demo_engine) = 1" "mtp_k demo_engine = 0" by code_simp+
  with streamed_job_loses_slot [OF L, of demo_server "demo_params ''ann:a''" "demo_params ''ann:b''"] s demo_engine_good
  have "run_stream_job demo_world (hd (jobs (sv_jobs sv2))) (sv_eng sv2) = Inl Dangling_slot"
    by (simp add: demo_server_def demo_params_def)
  with s show ?thesis by blast
qed

theorem only_admitted_requests_reach_engine_witness:
  "auth_ok (authenticate (collect_headers [(''Authorization'', ''Bearer k1''), (''X-User-Id'', ''ann'')])
     (sv_settings demo_server) (sv_keys demo_server))"
proof -
  let ?hs = "[(''Authorization'', ''Bearer k1''), (''X-User-Id'', ''ann'')]"
  let ?auth = "authenticate (collect_headers ?hs) (sv_settings demo_server) (sv_keys demo_server)"
  have a: "auth_ok ?auth" "user_id ?auth = ''ann''" by code_simp+
  have al: "fst (allow (sv_limiter demo_server) 0 ''ann'')" by code_simp
  have p: "prepare_prompt demo_world demo_engine Map.empty (demo_params ''ann:a'') = Inr ([104, 105], 8, Map.empty)" by (rule demo_prompt)
  let ?sv = "demo_server\<lparr>sv_limiter := snd (allow (sv_limiter demo_server) 0 ''ann'')\<rparr>"
  have e: "enabled (sv_settings demo_server)" "j_contains (w_json demo_world) demo_body ''messages''"
    "j_array (w_json demo_world) (j_at (w_json demo_world) demo_body ''messages'') = Some [demo_message ''user'' ''hi'']" by code_simp+
  have "handle_chat demo_world ?sv demo_body [demo_message ''user'' ''hi''] [] ''ann'' 0 =
      serve_chat demo_world ?sv (demo_params ''ann:a'') [104, 105] 8 ''ann'' True 0"
    using demo_chat_params p e(1) by (simp add: handle_chat_def demo_server_def)
  moreover have "streaming_server (serve_chat demo_world ?sv (demo_params ''ann:a'') [104, 105] 8 ''ann'' True 0) \<noteq> None" by code_simp
  ultimately obtain r sv where "handle_chat demo_world ?sv demo_body [demo_message ''user'' ''hi''] [] ''ann'' 0 = Inr (Stream_open r, sv)"
    using streaming_server_Some by (metis not_None_eq)
  then have "chat_completions demo_world demo_server (Some demo_body) ?hs [] 0 = Inr (Stream_open r, sv)"
    using a al e by (simp add: chat_completions_def split_def Let_def)
  from only_admitted_requests_reach_engine [OF e(1) this] show ?thesis by blast
qed

end
