(* ===== verification/Fs_Path.thy ===== *)
theory Fs_Path
  imports Cne_Prelude
begin

text \<open>
  What the drivers use of \<^verbatim>\<open>std::filesystem::path\<close>, on POSIX path names: \<^verbatim>\<open>is_absolute\<close>, \<^verbatim>\<open>operator/\<close>, \<^verbatim>\<open>parent_path\<close>, \<^verbatim>\<open>filename\<close>,
  \<^verbatim>\<open>extension\<close> and \<^verbatim>\<open>lexically_normal\<close>. A path is its text.
\<close>

section \<open>Definitions\<close>

definition is_sep :: "char \<Rightarrow> bool" where
  "is_sep c \<longleftrightarrow> c = CHR ''/''"

definition is_absolute :: "string \<Rightarrow> bool" where
  "is_absolute p \<longleftrightarrow> p \<noteq> [] \<and> is_sep (hd p)"

definition path_append :: "string \<Rightarrow> string \<Rightarrow> string" where
  "path_append a b =
     (if is_absolute b then b else if a = [] \<or> is_sep (last a) then a @ b else a @ ''/'' @ b)"

text \<open>The text before the file name, without the separators between them unless they are the root directory.\<close>

definition strip_end :: "(char \<Rightarrow> bool) \<Rightarrow> string \<Rightarrow> string" where
  "strip_end P s = rev (dropWhile P (rev s))"

definition filename :: "string \<Rightarrow> string" where
  "filename p = rev (takeWhile (\<lambda>c. \<not> is_sep c) (rev p))"

definition parent_path :: "string \<Rightarrow> string" where
  "parent_path p =
     (let dir = strip_end (\<lambda>c. \<not> is_sep c) p; d = strip_end is_sep dir
      in if d = [] then dir else d)"

text \<open>The extension of a file name; \<^verbatim>\<open>.\<close> and \<^verbatim>\<open>..\<close> and names that start with their only dot have none.\<close>

definition extension :: "string \<Rightarrow> string" where
  "extension p =
     (let f = filename p; stem = strip_end (\<lambda>c. c \<noteq> CHR ''.'') f
      in if f = ''.'' \<or> f = ''..'' \<or> length stem \<le> 1 then [] else drop (length stem - 1) f)"

text \<open>The names of a path, in order, empty ones left out.\<close>

fun names :: "string \<Rightarrow> string \<Rightarrow> string list" where
  "names acc [] = (if acc = [] then [] else [rev acc])"
| "names acc (c # s) = (if is_sep c then (if acc = [] then names [] s else rev acc # names [] s) else names (c # acc) s)"

text \<open>One name against the names kept so far, the last one first; the flag is set when the result has to end in a separator.\<close>

definition normal_step :: "bool \<Rightarrow> string list \<times> bool \<Rightarrow> string \<Rightarrow> string list \<times> bool" where
  "normal_step rooted st n =
     (let (kept, tr) = st in
      if n = ''.'' then (kept, True)
      else if n = ''..'' then
        (case kept of
           [] \<Rightarrow> if rooted then ([], True) else ([n], False)
         | k # ks \<Rightarrow> if k = ''..'' then (n # kept, False) else (ks, True))
      else (n # kept, False))"

fun join_names :: "string list \<Rightarrow> string" where
  "join_names [] = []"
| "join_names [n] = n"
| "join_names (n # ns) = n @ ''/'' @ join_names ns"

definition lexically_normal :: "string \<Rightarrow> string" where
  "lexically_normal p =
     (if p = [] then []
      else let rooted = is_absolute p;
               (kept, tr) = foldl (normal_step rooted) ([], False) (names [] p);
               tr = (tr \<or> is_sep (last p));
               body = join_names (rev kept) @ (if kept \<noteq> [] \<and> tr \<and> hd kept \<noteq> ''..'' then ''/'' else [])
           in if rooted then ''/'' @ body else if kept = [] then ''.'' else body)"

section \<open>Lemmas\<close>

lemma filename_append:
  assumes "\<not> list_ex is_sep f" "f \<noteq> []"
  shows "filename (path_append d f) = f"
proof -
  have ns: "\<forall>c\<in>set (rev f). \<not> is_sep c" using assms(1) by (auto simp: list_ex_iff)
  have "\<not> is_absolute f" using assms by (cases f) (auto simp: is_absolute_def)
  then have "path_append d f = d @ f \<and> (d = [] \<or> is_sep (last d)) \<or> path_append d f = (d @ ''/'') @ f"
    by (auto simp: path_append_def)
  moreover have "filename (e @ f) = f" if "e = [] \<or> is_sep (last e)" for e
  proof (cases e rule: rev_cases)
    case Nil
    have "takeWhile (\<lambda>c. \<not> is_sep c) (rev f) = rev f" using ns by (simp only: takeWhile_eq_all_conv)
    then show ?thesis by (simp only: Nil filename_def append_Nil rev_rev_ident)
  next
    case (snoc ys y)
    with that ns show ?thesis by (simp add: filename_def takeWhile_append)
  qed
  moreover have "is_sep (last (d @ ''/''))" by (simp add: is_sep_def)
  ultimately show ?thesis by metis
qed

end
