(* ===== verification/Server_Config.thy ===== *)
theory Server_Config
  imports Knobs Fs_Path
begin

text \<open>
  \<^verbatim>\<open>server/cne-server.cpp\<close>, the configuration file and the command line. The JSON library is the record \<open>cfg_json\<close>; an
  accessor answers \<open>None\<close> where the value has another type. The file system is the record \<open>fsys\<close>, the process environment a map
  that \<^verbatim>\<open>setenv\<close> updates.
\<close>

section \<open>The JSON library\<close>

record 'j cfg_json =
  cj_parse :: "string \<Rightarrow> 'j option"
  cj_is_object :: "'j \<Rightarrow> bool"
  cj_find :: "'j \<Rightarrow> string \<Rightarrow> 'j option"
  cj_is_null :: "'j \<Rightarrow> bool"
  cj_bool :: "'j \<Rightarrow> bool option"
  cj_string :: "'j \<Rightarrow> string option"
  cj_integer :: "'j \<Rightarrow> int option"
  cj_array :: "'j \<Rightarrow> 'j list option"
  cj_dump :: "'j \<Rightarrow> string"

record fsys =
  fs_exists :: "string \<Rightarrow> bool"
  fs_read :: "string \<Rightarrow> string option"

section \<open>The configuration file\<close>

definition g_config_knobs :: "(string \<times> string) list" where
  "g_config_knobs =
     [(''stream'', ''STREAM''), (''think'', ''THINK''), (''kernels'', ''KERNELS''), (''mtp'', ''MTP''),
      (''mtp_p_min'', ''MTP_P_MIN''), (''threads'', ''THREADS''), (''ctx'', ''CTX''), (''cache_gib'', ''CACHE_GIB''),
      (''dense'', ''DENSE''), (''max_req_s'', ''MAX_REQ_S''), (''session_max'', ''SESSION_MAX''),
      (''api_mode'', ''API_MODE''), (''api_rpm'', ''API_RPM''), (''session_max_per_user'', ''SESSION_MAX_PER_USER''),
      (''prefetch'', ''PREFETCH'')]"

definition knob_text :: "('j, 'z) cfg_json_scheme \<Rightarrow> 'j \<Rightarrow> string" where
  "knob_text J v = (case cj_bool J v of Some b \<Rightarrow> if b then ''1'' else ''0'' | None \<Rightarrow> cj_dump J v)"

definition apply_knob :: "('j, 'z) cfg_json_scheme \<Rightarrow> 'j \<Rightarrow> environ \<Rightarrow> string \<times> string \<Rightarrow> environ" where
  "apply_knob J cfg ge kn =
     (case cj_find J cfg (fst kn) of
        None \<Rightarrow> ge
      | Some v \<Rightarrow>
          if cj_is_null J v then ge
          else if ge (''CNE_'' @ snd kn) \<noteq> None then ge
          else ge(''CNE_'' @ snd kn \<mapsto> knob_text J v))"

record config =
  cf_env :: environ
  cf_model :: string
  cf_host :: string
  cf_port :: int
  cf_api_keys :: "string set"

definition no_config :: "environ \<Rightarrow> config" where
  "no_config ge = \<lparr>cf_env = ge, cf_model = [], cf_host = [], cf_port = 0, cf_api_keys = {}\<rparr>"

definition string_key :: "('j, 'z) cfg_json_scheme \<Rightarrow> 'j \<Rightarrow> string \<Rightarrow> string \<Rightarrow> string" where
  "string_key J cfg k d = (case cj_find J cfg k of None \<Rightarrow> d | Some v \<Rightarrow> (case cj_string J v of None \<Rightarrow> d | Some s \<Rightarrow> s))"

definition config_keys :: "('j, 'z) cfg_json_scheme \<Rightarrow> 'j \<Rightarrow> string set" where
  "config_keys J cfg =
     (case cj_find J cfg ''api_keys'' of
        None \<Rightarrow> {}
      | Some a \<Rightarrow>
          (case cj_array J a of
             None \<Rightarrow> {}
           | Some vs \<Rightarrow> set (filter (\<lambda>k. k \<noteq> []) (List.map_filter (cj_string J) vs))))"

definition apply_keys_file :: "('j, 'z) cfg_json_scheme \<Rightarrow> string \<Rightarrow> 'j \<Rightarrow> environ \<Rightarrow> environ" where
  "apply_keys_file J path cfg ge =
     (case Option.bind (cj_find J cfg ''api_keys_file'') (cj_string J) of
        None \<Rightarrow> ge
      | Some kp \<Rightarrow>
          (let kp = (if kp \<noteq> [] \<and> \<not> is_absolute kp then lexically_normal (path_append (parent_path path) kp) else kp)
           in if ge ''CNE_API_KEYS_FILE'' = None then ge(''CNE_API_KEYS_FILE'' \<mapsto> kp) else ge))"

definition apply_config_file :: "('j, 'z) cfg_json_scheme \<Rightarrow> fsys \<Rightarrow> environ \<Rightarrow> string \<Rightarrow> config" where
  "apply_config_file J F ge path =
     (case Option.bind (fs_read F path) (cj_parse J) of
        None \<Rightarrow> no_config ge
      | Some cfg \<Rightarrow>
          if \<not> cj_is_object J cfg then no_config ge
          else \<lparr>cf_env = apply_keys_file J path cfg (foldl (apply_knob J cfg) ge g_config_knobs),
                cf_model = string_key J cfg ''model'' [],
                cf_host = string_key J cfg ''host'' [],
                cf_port = (case Option.bind (cj_find J cfg ''port'') (cj_integer J) of None \<Rightarrow> 0 | Some p \<Rightarrow> to_i32 p),
                cf_api_keys = config_keys J cfg\<rparr>)"

section \<open>The command line\<close>

text \<open>\<open>Inl\<close> is the exit status of \<^verbatim>\<open>main\<close>.\<close>

fun parse_args :: "string list \<Rightarrow> string option \<Rightarrow> string list \<Rightarrow> int + (string option \<times> string list)" where
  "parse_args [] cfg pos = Inr (cfg, pos)"
| "parse_args (a # args) cfg pos =
     (if a = ''--config'' then (case args of [] \<Rightarrow> Inl 2 | c # rest \<Rightarrow> parse_args rest (Some c) pos)
      else if a = ''-h'' \<or> a = ''--help'' then Inl 0
      else if a \<noteq> [] \<and> hd a = CHR ''-'' then Inl 2
      else parse_args args cfg (pos @ [a]))"

definition nth_arg :: "string list \<Rightarrow> nat \<Rightarrow> string option" where
  "nth_arg pos i = (if i < length pos then Some (pos ! i) else None)"

definition config_path_of :: "fsys \<Rightarrow> string option \<Rightarrow> string option \<Rightarrow> string" where
  "config_path_of F config_arg model_arg =
     (let p = (case config_arg of
                 Some c \<Rightarrow> c
               | None \<Rightarrow> (case model_arg of None \<Rightarrow> [] | Some m \<Rightarrow> path_append (parent_path m) ''server.json''))
      in if p = [] \<or> \<not> fs_exists F p then ''models/server.json'' else p)"

record server_args =
  sa_model :: string
  sa_host :: string
  sa_port :: int
  sa_config :: config

definition resolve_model :: "string \<Rightarrow> string option \<Rightarrow> string \<Rightarrow> string" where
  "resolve_model config_path model_arg cfg_model =
     (case model_arg of
        Some m \<Rightarrow> m
      | None \<Rightarrow>
          (let dir = parent_path config_path
           in if dir \<noteq> [] \<and> \<not> is_absolute cfg_model \<and> cfg_model \<noteq> []
              then lexically_normal (path_append dir cfg_model) else cfg_model))"

definition resolve_server :: "('j, 'z) cfg_json_scheme \<Rightarrow> fsys \<Rightarrow> environ \<Rightarrow> string list \<Rightarrow> int + server_args" where
  "resolve_server J F ge args =
     (case parse_args args None [] of
        Inl code \<Rightarrow> Inl code
      | Inr (config_arg, pos) \<Rightarrow>
          (let model_arg = nth_arg pos 0; host_arg = nth_arg pos 1; port_arg = nth_arg pos 2;
               config_path = config_path_of F config_arg model_arg;
               cf = apply_config_file J F ge config_path;
               host = (case host_arg of Some h \<Rightarrow> h | None \<Rightarrow> if cf_host cf \<noteq> [] then cf_host cf else ''127.0.0.1'');
               port = (case port_arg of Some p \<Rightarrow> atoi p | None \<Rightarrow> if cf_port cf > 0 then cf_port cf else 8080);
               resolved = (case model_arg of Some m \<Rightarrow> m | None \<Rightarrow> cf_model cf)
           in if resolved = [] then Inl 2
              else Inr \<lparr>sa_model = resolve_model config_path model_arg (cf_model cf), sa_host = host, sa_port = port,
                        sa_config = cf\<rparr>))"

section \<open>Lemmas\<close>

text \<open>What the file says of a knob: nothing, or the text that is injected.\<close>

definition config_value :: "('j, 'z) cfg_json_scheme \<Rightarrow> 'j \<Rightarrow> string \<Rightarrow> string option" where
  "config_value J cfg k = (case cj_find J cfg k of None \<Rightarrow> None | Some v \<Rightarrow> if cj_is_null J v then None else Some (knob_text J v))"

lemma apply_knob_other: "x \<noteq> ''CNE_'' @ snd kn \<Longrightarrow> apply_knob J cfg ge kn x = ge x"
  by (auto simp: apply_knob_def split: option.splits)

lemma apply_knob_same:
  "apply_knob J cfg ge (k, n) (''CNE_'' @ n) = (case ge (''CNE_'' @ n) of Some v \<Rightarrow> Some v | None \<Rightarrow> config_value J cfg k)"
  by (auto simp: apply_knob_def config_value_def split: option.splits)

lemma foldl_apply_other: "x \<notin> (\<lambda>kn. ''CNE_'' @ snd kn) ` set kns \<Longrightarrow> foldl (apply_knob J cfg) ge kns x = ge x"
  by (induction kns arbitrary: ge) (auto simp: apply_knob_other)

lemma foldl_apply_same:
  "(k, n) \<in> set kns \<Longrightarrow> distinct (map snd kns) \<Longrightarrow>
    foldl (apply_knob J cfg) ge kns (''CNE_'' @ n) = (case ge (''CNE_'' @ n) of Some v \<Rightarrow> Some v | None \<Rightarrow> config_value J cfg k)"
proof (induction kns arbitrary: ge)
  case (Cons kn kns)
  show ?case
  proof (cases "kn = (k, n)")
    case True
    then have "''CNE_'' @ n \<notin> (\<lambda>kn. ''CNE_'' @ snd kn) ` set kns" using Cons.prems(2) by force
    then show ?thesis using True apply_knob_same [of J cfg ge k n] by (simp add: foldl_apply_other)
  next
    case False
    then have kn: "(k, n) \<in> set kns" using Cons.prems(1) by simp
    then have "n \<in> snd ` set kns" by force
    then have "snd kn \<noteq> n" using Cons.prems(2) by auto
    then show ?thesis using Cons.IH [OF kn, of "apply_knob J cfg ge kn"] Cons.prems(2) by (simp add: apply_knob_other)
  qed
qed simp

lemma config_knobs_distinct: "distinct (map snd g_config_knobs)"
  by (simp add: g_config_knobs_def)

lemma apply_keys_file_other: "x \<noteq> ''CNE_API_KEYS_FILE'' \<Longrightarrow> apply_keys_file J path cfg ge x = ge x"
  by (auto simp: apply_keys_file_def Let_def split: option.splits)

lemma env_fresh: "fst (env ge Map.empty name) = knob_value ge name"
  by (simp add: env_def knob_value_def Let_def split: option.splits)

lemma apply_config_env:
  assumes "fs_read F path = Some text" "cj_parse J text = Some cfg" "cj_is_object J cfg"
  shows "cf_env (apply_config_file J F ge path) = apply_keys_file J path cfg (foldl (apply_knob J cfg) ge g_config_knobs)"
  using assms by (simp add: apply_config_file_def)

lemma config_knob_value:
  assumes "fs_read F path = Some text" "cj_parse J text = Some cfg" "cj_is_object J cfg" "(k, n) \<in> set g_config_knobs"
  shows "knob_value (cf_env (apply_config_file J F ge path)) n =
    (case ge (''CNE_'' @ n) of Some v \<Rightarrow> Some v
     | None \<Rightarrow> (case config_value J cfg k of Some s \<Rightarrow> Some s | None \<Rightarrow> ge (''SOE_'' @ n)))"
proof -
  have ne: "''CNE_'' @ n \<noteq> ''CNE_API_KEYS_FILE''" "''SOE_'' @ n \<noteq> ''CNE_API_KEYS_FILE''"
    "''SOE_'' @ n \<notin> (\<lambda>kn. ''CNE_'' @ snd kn) ` set g_config_knobs"
    using assms(4) by (auto simp: g_config_knobs_def)
  show ?thesis
    unfolding knob_value_def apply_config_env [OF assms(1-3)] apply_keys_file_other [OF ne(1)] apply_keys_file_other [OF ne(2)]
      foldl_apply_other [OF ne(3)] foldl_apply_same [OF assms(4) config_knobs_distinct]
    by (auto split: option.splits)
qed

text \<open>A model, host and port given as arguments are used as they are, whatever the configuration file says.\<close>

lemma arguments_win:
  assumes "resolve_server J F ge args = Inr sa" "parse_args args None [] = Inr (cfg, m # h # p # rest)"
  shows "sa_model sa = m \<and> sa_host sa = h \<and> sa_port sa = atoi p \<and> m \<noteq> []"
  using assms by (auto simp: resolve_server_def Let_def nth_arg_def resolve_model_def split: if_splits)

section \<open>Properties\<close>

text \<open>
  Claim C30. Precedence of the configuration: after a configuration file was applied, the first lookup of each of its knobs returns the \<^verbatim>\<open>CNE_\<close>
  variable the user set, else the value of the file, else the legacy \<^verbatim>\<open>SOE_\<close> variable; a null in the file counts as absent,
  and no variable other than the knobs of the table and \<^verbatim>\<open>CNE_API_KEYS_FILE\<close> is touched.
\<close>

theorem config_precedence:
  assumes "fs_read F path = Some text" "cj_parse J text = Some cfg" "cj_is_object J cfg" "(k, n) \<in> set g_config_knobs"
  shows "fst (env (cf_env (apply_config_file J F ge path)) Map.empty n) =
      (case ge (''CNE_'' @ n) of Some v \<Rightarrow> Some v
       | None \<Rightarrow> (case config_value J cfg k of Some s \<Rightarrow> Some s | None \<Rightarrow> ge (''SOE_'' @ n)))
    \<and> (x \<notin> insert ''CNE_API_KEYS_FILE'' ((\<lambda>kn. ''CNE_'' @ snd kn) ` set g_config_knobs) \<longrightarrow>
       cf_env (apply_config_file J F ge path) x = ge x)"
proof -
  have "cf_env (apply_config_file J F ge path) x = ge x"
    if "x \<notin> insert ''CNE_API_KEYS_FILE'' ((\<lambda>kn. ''CNE_'' @ snd kn) ` set g_config_knobs)"
    using that unfolding apply_config_env [OF assms(1-3)] by (simp add: apply_keys_file_other foldl_apply_other)
  then show ?thesis using config_knob_value [OF assms] by (simp add: env_fresh)
qed

section \<open>A concrete JSON library\<close>

datatype cjson = CNull | CBool bool | CInt int | CDouble fpv | CStr string | CArr "cjson list" | CObj "(string \<times> cjson) list"

fun cjson_find :: "cjson \<Rightarrow> string \<Rightarrow> cjson option" where
  "cjson_find (CObj kvs) k = map_of kvs k"
| "cjson_find _ k = None"

fun cjson_dump :: "cjson \<Rightarrow> string" where
  "cjson_dump CNull = ''null''"
| "cjson_dump (CBool b) = (if b then ''true'' else ''false'')"
| "cjson_dump (CInt i) = to_string i"
| "cjson_dump (CStr s) = [CHR 0x22] @ s @ [CHR 0x22]"
| "cjson_dump _ = []"

text \<open>A library whose parser accepts the texts of a table.\<close>

definition table_json :: "(string \<rightharpoonup> cjson) \<Rightarrow> cjson cfg_json" where
  "table_json tab =
     \<lparr>cj_parse = tab,
      cj_is_object = (\<lambda>j. case j of CObj _ \<Rightarrow> True | _ \<Rightarrow> False),
      cj_find = cjson_find,
      cj_is_null = (\<lambda>j. j = CNull),
      cj_bool = (\<lambda>j. case j of CBool b \<Rightarrow> Some b | _ \<Rightarrow> None),
      cj_string = (\<lambda>j. case j of CStr s \<Rightarrow> Some s | _ \<Rightarrow> None),
      cj_integer = (\<lambda>j. case j of CInt i \<Rightarrow> Some i | _ \<Rightarrow> None),
      cj_array = (\<lambda>j. case j of CArr vs \<Rightarrow> Some vs | _ \<Rightarrow> None),
      cj_dump = cjson_dump\<rparr>"

theorem config_precedence_witness:
  "fst (env (cf_env (apply_config_file (table_json [''t'' \<mapsto> CObj [(''threads'', CInt 8)]])
       \<lparr>fs_exists = (\<lambda>_. True), fs_read = (\<lambda>_. Some ''t'')\<rparr> [''SOE_THREADS'' \<mapsto> ''2''] ''models/server.json'')) Map.empty ''THREADS'') = Some ''8''"
proof -
  let ?J = "table_json [''t'' \<mapsto> CObj [(''threads'', CInt 8)]]"
  have t: "to_string 8 = ''8''" by code_simp
  have v: "config_value ?J (CObj [(''threads'', CInt 8)]) ''threads'' = Some ''8''"
    by (simp add: config_value_def table_json_def knob_text_def t)
  have "(''threads'', ''THREADS'') \<in> set g_config_knobs" by (simp add: g_config_knobs_def)
  from config_precedence [where ?J = ?J and ?F = "\<lparr>fs_exists = (\<lambda>_. True), fs_read = (\<lambda>_. Some ''t'')\<rparr>", OF _ _ _ this,
      of "''models/server.json''" "''t''" "CObj [(''threads'', CInt 8)]" "[''SOE_THREADS'' \<mapsto> ''2'']"] v
  show ?thesis by (simp add: table_json_def)
qed

end
