(* ===== verification/Setup_Cli.thy ===== *)
theory Setup_Cli
  imports Server_Config Budget
begin

text \<open>
  \<^verbatim>\<open>cli/cne-setup.cpp\<close>: the first-run configuration tool. The operating system is the record \<open>setup_sys\<close>: presets and the terminal,
  the directory walk, \<^verbatim>\<open>std::sort\<close>, memory and threads, file sizes, which paths can be opened for writing, the bytes of \<^verbatim>\<open>/dev/urandom\<close>,
  \<^verbatim>\<open>fs::relative\<close>. Standard input is the list of its lines. The result is the exit status and the files written. An item
  is its key and value: labels and reasons are only printed.
\<close>

section \<open>The machine\<close>

text \<open>The part of the JSON library that builds values.\<close>

record 'j cfg_build = "'j cfg_json" +
  cj_new :: 'j
  cj_set :: "'j \<Rightarrow> string \<Rightarrow> 'j \<Rightarrow> 'j"
  cj_of_bool :: "bool \<Rightarrow> 'j"
  cj_of_int :: "int \<Rightarrow> 'j"
  cj_of_double :: "fpv \<Rightarrow> 'j"
  cj_of_string :: "string \<Rightarrow> 'j"
  cj_pretty :: "'j \<Rightarrow> string"

type_synonym item = "string \<times> string"

record setup_sys =
  su_getenv :: environ
  su_tty :: bool
  su_exists :: "string \<Rightarrow> bool"
  su_entries :: "string \<Rightarrow> (string \<times> bool) list"
  su_sort :: "(string \<Rightarrow> string \<Rightarrow> bool) \<Rightarrow> string list \<Rightarrow> string list"
  su_budget :: memory_budget
  su_threads :: int
  su_size :: "string \<Rightarrow> u64"
  su_writable :: "string \<Rightarrow> bool"
  su_random :: "u8 list option"
  su_relative :: "string \<Rightarrow> string \<Rightarrow> string"

datatype 'j written = Keys_file string string | Config_file string 'j

section \<open>Values\<close>

definition all_digits :: "string \<Rightarrow> bool" where
  "all_digits s \<longleftrightarrow> s \<noteq> [] \<and> list_all is_digit s"

text \<open>The grammar a key advertises, \<open>None\<close> for the keys that accept everything at once.\<close>

definition value_hint :: "string \<Rightarrow> string option" where
  "value_hint k =
     (if k \<in> {''stream'', ''think'', ''kernels''} then Some ''on | off''
      else if k = ''dense'' then Some ''mmap | warm | anon''
      else if k \<in> {''mtp'', ''threads'', ''ctx'', ''session_max'', ''session_max_per_user'', ''api_rpm''}
      then Some (''a whole number'' @ (if k = ''threads'' then '' >= 1'' else []))
      else if k = ''port'' then Some ''a port 1-65535''
      else if k = ''cache_gib'' then Some ''a GiB number''
      else if k = ''max_req_s'' then Some ''seconds (e.g. 600)''
      else if k = ''host'' then Some ''an IP or hostname''
      else if k = ''api_keys_file'' then Some ''a path (relative to models dir)''
      else None)"

definition valid_value :: "string \<Rightarrow> string \<Rightarrow> bool" where
  "valid_value k v =
     (if value_hint k = None then True
      else if v = [] then True
      else if k \<in> {''stream'', ''think'', ''kernels'', ''api_mode'', ''prefetch''}
      then v \<in> {''on'', ''off'', ''0'', ''1''}
      else if k = ''dense'' then v \<in> {''mmap'', ''warm'', ''anon''}
      else if k = ''host'' then \<not> list_ex (\<lambda>c. c \<in> {CHR '' '', CHR 0x09, CHR ''/''}) v
      else if k = ''port'' then all_digits v \<and> atoi v \<ge> 1 \<and> atoi v \<le> 65535
      else if k = ''max_req_s'' then (let (d, rest) = strtod v in rest = [] \<and> fge d (Fin 0))
      else if \<not> all_digits v then False
      else if k \<in> {''threads'', ''ctx''} then strtol v \<ge> 1
      else if k \<in> {''session_max'', ''session_max_per_user''} then strtol v \<ge> 1 \<and> strtol v \<le> 64
      else if k = ''api_rpm'' then strtol v \<ge> 0
      else if k = ''api_keys_file'' then \<not> list_ex (\<lambda>c. c \<in> {CHR '' '', CHR 0x09}) v
      else True)"

definition read_line :: "string list \<Rightarrow> (string \<times> string list) option" where
  "read_line stdin = (case stdin of [] \<Rightarrow> None | l # ls \<Rightarrow> Some (strip_end (\<lambda>c. c = CHR 0x0D \<or> c = CHR '' '') l, ls))"

section \<open>Artifacts\<close>

definition artifact_less :: "string \<Rightarrow> string \<Rightarrow> bool" where
  "artifact_less a b =
     (let pa = str_contains a ''-prepared''; pb = str_contains b ''-prepared''
      in if pa \<noteq> pb then pa else lexordp (\<lambda>c d. (of_char c :: nat) < of_char d) (filename a) (filename b))"

definition scan_artifacts :: "setup_sys \<Rightarrow> string \<Rightarrow> string list" where
  "scan_artifacts S dir =
     su_sort S artifact_less (map fst (filter (\<lambda>(p, reg). reg \<and> extension p = ''.gguf'') (su_entries S dir)))"

text \<open>\<^verbatim>\<open>std::stoul\<close>; \<open>None\<close> is an exception.\<close>

definition stoul :: "string \<Rightarrow> u64 option" where
  "stoul s =
     (let t = dropWhile is_space s;
          (neg, u) = (case t of [] \<Rightarrow> (False, t)
                      | c # q \<Rightarrow> if c = CHR ''-'' then (True, q) else if c = CHR ''+'' then (False, q) else (False, t));
          ds = takeWhile is_digit u; n = digits_val 0 ds
      in if ds = [] \<or> n \<ge> 2 ^ 64 then None else Some (if neg then - of_nat n else of_nat n))"

definition pick_artifact :: "bool \<Rightarrow> string \<Rightarrow> string list \<Rightarrow> string list \<Rightarrow> int + string \<times> string list" where
  "pick_artifact accept_all model_flag artifacts stdin =
     (if model_flag \<noteq> [] then
        (case find (\<lambda>p. str_contains (filename p) model_flag) artifacts of
           None \<Rightarrow> Inl 1
         | Some p \<Rightarrow> Inr (p, stdin))
      else if length artifacts = 1 \<or> accept_all then Inr (hd artifacts, stdin)
      else
        let (line, stdin) = (case read_line stdin of None \<Rightarrow> (''0'', stdin) | Some (l, ls) \<Rightarrow> (if l = [] then ''0'' else l, ls))
        in case stoul line of
             None \<Rightarrow> Inl 1
           | Some i \<Rightarrow> if unat i \<ge> length artifacts then Inl 1 else Inr (artifacts ! unat i, stdin))"

section \<open>Suggestions\<close>

text \<open>\<open>None\<close>: the search for a KV plan does not end.\<close>

definition build_suggestions :: "string \<Rightarrow> u64 \<Rightarrow> memory_budget \<Rightarrow> int \<Rightarrow> item list option" where
  "build_suggestions artifact model_bytes budget hw_threads =
     (let regime = classify model_bytes (mem_available budget);
          deep = (regime = R3_FAR_ABOVE \<or> regime = R4_EXTREME_EDGE);
          has_mtp = str_contains artifact ''mtp'';
          mtp_on = (has_mtp \<and> \<not> deep)
      in map_option (\<lambda>est.
           [(''stream'', if deep then ''on'' else ''off''),
            (''prefetch'', ''off''),
            (''kernels'', ''on''),
            (''dense'', if has_mtp \<and> \<not> deep then ''mmap'' else []),
            (''mtp'', if mtp_on then ''8'' else ''0''),
            (''threads'', to_string (max 1 (hw_threads div 2))),
            (''ctx'', to_string (serving_kv_estimate.n_ctx est)),
            (''session_max'', to_string (n_seq_max est)),
            (''api_mode'', if mtp_on then ''off'' else ''on''),
            (''session_max_per_user'', ''2''),
            (''api_rpm'', ''120''),
            (''api_keys_file'', ''api_keys.txt''),
            (''cache_gib'', []),
            (''think'', ''on''),
            (''max_req_s'', ''0''),
            (''host'', ''127.0.0.1''),
            (''port'', ''8080'')])
         (suggest_serving_kv budget model_bytes regime mtp_on))"

section \<open>Confirmation\<close>

definition upcase :: "char \<Rightarrow> char" where
  "upcase c = (let n = (of_char c :: nat) in if 97 \<le> n \<and> n \<le> 122 then char_of (n - 32) else c)"

fun ask_item :: "string \<Rightarrow> string \<Rightarrow> string list \<Rightarrow> (string \<times> string list) option" where
  "ask_item k value [] = None"
| "ask_item k value (l # stdin) =
     (let line = fst (the (read_line (l # stdin))) in
      if line = [] then Some (value, stdin)
      else if line = ''!'' then Some ([], stdin)
      else if valid_value k line then Some (line, stdin)
      else ask_item k value stdin)"

definition confirm_item :: "setup_sys \<Rightarrow> bool \<Rightarrow> item \<Rightarrow> string list \<Rightarrow> int + item \<times> string list" where
  "confirm_item S accept_all it stdin =
     (let (k, value) = it;
          preset = su_getenv S (map upcase (''CNE_SETUP_'' @ k))
      in if accept_all \<or> (preset \<noteq> None \<and> the preset \<noteq> []) then
           (if preset \<noteq> None \<and> the preset \<noteq> [] then
              (if valid_value k (the preset) then Inr ((k, the preset), stdin) else Inl 2)
            else Inr ((k, value), stdin))
         else if \<not> su_tty S then Inl 1
         else case ask_item k value stdin of None \<Rightarrow> Inl 130 | Some (v, stdin) \<Rightarrow> Inr ((k, v), stdin))"

fun confirm_items :: "setup_sys \<Rightarrow> bool \<Rightarrow> item list \<Rightarrow> string list \<Rightarrow> int + item list \<times> string list" where
  "confirm_items S accept_all [] stdin = Inr ([], stdin)"
| "confirm_items S accept_all (it # its) stdin =
     (case confirm_item S accept_all it stdin of
        Inl code \<Rightarrow> Inl code
      | Inr (it, stdin) \<Rightarrow>
          (case confirm_items S accept_all its stdin of
             Inl code \<Rightarrow> Inl code
           | Inr (its, stdin) \<Rightarrow> Inr (it # its, stdin)))"

definition confirm_write :: "bool \<Rightarrow> string list \<Rightarrow> bool" where
  "confirm_write accept_all stdin =
     (accept_all \<or> (case read_line stdin of None \<Rightarrow> False | Some (l, _) \<Rightarrow> l = [] \<or> l = ''y'' \<or> l = ''Y''))"

section \<open>The configuration\<close>

definition is_on :: "string \<Rightarrow> bool" where
  "is_on v \<longleftrightarrow> v = ''on'' \<or> v = ''1'' \<or> v = ''true''"

definition api_mode_on :: "item list \<Rightarrow> bool" where
  "api_mode_on its = (case find (\<lambda>(k, v). k = ''api_mode'') its of None \<Rightarrow> False | Some (k, v) \<Rightarrow> is_on v)"

record 'j building =
  bu_cfg :: 'j
  bu_mtp_k :: int
  bu_api_on :: bool
  bu_keys_rel :: string

definition add_item :: "('j, 'z) cfg_build_scheme \<Rightarrow> 'j building \<Rightarrow> item \<Rightarrow> 'j building" where
  "add_item J b it =
     (let (k, v) = it; put = (\<lambda>x. b\<lparr>bu_cfg := cj_set J (bu_cfg b) k x\<rparr>) in
      if v = [] then b
      else if k \<in> {''stream'', ''think'', ''kernels'', ''prefetch''} then put (cj_of_bool J (is_on v))
      else if k = ''api_mode'' then
        (let b = b\<lparr>bu_api_on := is_on v\<rparr> in if is_on v then b\<lparr>bu_cfg := cj_set J (bu_cfg b) k (cj_of_bool J True)\<rparr> else b)
      else if k \<in> {''threads'', ''ctx'', ''port'', ''session_max''} then put (cj_of_int J (atoi v))
      else if k \<in> {''session_max_per_user'', ''api_rpm''} then (if bu_api_on b then put (cj_of_int J (atoi v)) else b)
      else if k = ''max_req_s'' then put (cj_of_double J (atof v))
      else if k = ''mtp'' then (put (cj_of_int J (atoi v)))\<lparr>bu_mtp_k := atoi v\<rparr>
      else if k = ''cache_gib'' then (if atoi v > 0 then put (cj_of_int J (atoi v)) else b)
      else if k = ''api_keys_file'' then (if bu_api_on b then (put (cj_of_string J v))\<lparr>bu_keys_rel := v\<rparr> else b\<lparr>bu_keys_rel := v\<rparr>)
      else put (cj_of_string J v))"

definition build_config :: "('j, 'z) cfg_build_scheme \<Rightarrow> string \<Rightarrow> item list \<Rightarrow> 'j building" where
  "build_config J model its =
     foldl (add_item J)
       \<lparr>bu_cfg = cj_set J (cj_new J) ''model'' (cj_of_string J model), bu_mtp_k = 0, bu_api_on = api_mode_on its, bu_keys_rel = ''api_keys.txt''\<rparr> its"

text \<open>API mode needs two session lanes.\<close>

definition bump_sessions :: "('j, 'z) cfg_build_scheme \<Rightarrow> 'j \<Rightarrow> 'j" where
  "bump_sessions J cfg =
     (case Option.bind (cj_find J cfg ''session_max'') (cj_integer J) of
        None \<Rightarrow> cj_set J cfg ''session_max'' (cj_of_int J 2)
      | Some n \<Rightarrow> if to_i32 n < 2 then cj_set J cfg ''session_max'' (cj_of_int J 2) else cfg)"

definition hex :: "u8 \<Rightarrow> string" where
  "hex b = [''0123456789abcdef'' ! unat (drop_bit 4 b), ''0123456789abcdef'' ! unat (take_bit 4 b)]"

definition gen_internal_api_key :: "setup_sys \<Rightarrow> string" where
  "gen_internal_api_key S =
     (case su_random S of
        None \<Rightarrow> ''change-me-in-production''
      | Some buf \<Rightarrow> if length buf \<noteq> 24 then ''change-me-in-production'' else ''cne_internal_'' @ concat (map hex buf))"

definition keys_text :: "string \<Rightarrow> string" where
  "keys_text k =
     ''# Internal key for cne_gateway '' @ [CHR 0xE2, CHR 0x86, CHR 0x92] @ '' cne_server (not client keys)'' @ [CHR 0x0A] @ k @ [CHR 0x0A]"

section \<open>The program\<close>

record setup_opts =
  so_models :: string
  so_config :: string
  so_accept :: bool
  so_model :: string

fun setup_args :: "string list \<Rightarrow> setup_opts \<Rightarrow> int + setup_opts" where
  "setup_args [] o1 = Inr o1"
| "setup_args (a # args) o1 =
     (if a = ''-y'' \<or> a = ''--accept-all'' then setup_args args (o1\<lparr>so_accept := True\<rparr>)
      else if a = ''--config'' then (case args of [] \<Rightarrow> Inl 2 | c # rest \<Rightarrow> setup_args rest (o1\<lparr>so_config := c\<rparr>))
      else if a = ''--model'' then (case args of [] \<Rightarrow> Inl 2 | m # rest \<Rightarrow> setup_args rest (o1\<lparr>so_model := m\<rparr>))
      else if a \<noteq> [] \<and> hd a = CHR ''-'' then Inl 2
      else setup_args args (o1\<lparr>so_models := a\<rparr>))"

text \<open>Lines 401--481: the internal key file, then the configuration file.\<close>

definition final_config :: "('j, 'z) cfg_build_scheme \<Rightarrow> 'j building \<Rightarrow> 'j" where
  "final_config J b =
     (let cfg = (if bu_api_on b then bump_sessions J (bu_cfg b) else bu_cfg b)
      in if bu_mtp_k b > 0 then cj_set J cfg ''mtp_p_min'' (cj_of_double J (Fin (1 / 2))) else cfg)"

definition write_files ::
  "('j, 'z) cfg_build_scheme \<Rightarrow> setup_sys \<Rightarrow> string \<Rightarrow> string \<Rightarrow> 'j building \<Rightarrow> int \<times> 'j written list" where
  "write_files J S models_dir config_path b =
     (let keys_path = path_append models_dir (bu_keys_rel b);
          preset = su_getenv S ''CNE_SETUP_INTERNAL_API_KEY'';
          k = (if preset \<noteq> None \<and> the preset \<noteq> [] then the preset else gen_internal_api_key S);
          new_keys = (bu_api_on b \<and> \<not> su_exists S keys_path);
          keys = (if new_keys then [Keys_file keys_path (keys_text k)] else [])
      in if new_keys \<and> \<not> su_writable S keys_path then (1, [])
         else if \<not> su_writable S config_path then (1, keys)
         else (0, keys @ [Config_file config_path (final_config J b)]))"

definition setup_main ::
  "('j, 'z) cfg_build_scheme \<Rightarrow> setup_sys \<Rightarrow> string list \<Rightarrow> string list \<Rightarrow> (int \<times> 'j written list) option" where
  "setup_main J S args stdin =
     (case setup_args args \<lparr>so_models = ''models'', so_config = [], so_accept = False, so_model = []\<rparr> of
        Inl code \<Rightarrow> Some (code, [])
      | Inr o1 \<Rightarrow>
          if \<not> su_exists S (so_models o1) then Some (1, [])
          else
            let config_path = (if so_config o1 = [] then path_append (so_models o1) ''server.json'' else so_config o1);
                artifacts = scan_artifacts S (so_models o1)
            in if artifacts = [] then Some (1, [])
               else
                 (case pick_artifact (so_accept o1) (so_model o1) artifacts stdin of
                    Inl code \<Rightarrow> Some (code, [])
                  | Inr (artifact, stdin) \<Rightarrow>
                      (case build_suggestions artifact (su_size S artifact) (su_budget S) (su_threads S) of
                         None \<Rightarrow> None
                       | Some items \<Rightarrow>
                           (case confirm_items S (so_accept o1) items stdin of
                              Inl code \<Rightarrow> Some (code, [])
                            | Inr (items, stdin) \<Rightarrow>
                                if \<not> confirm_write (so_accept o1) stdin then Some (130, [])
                                else Some (write_files J S (so_models o1) config_path
                                             (build_config J (su_relative S artifact (so_models o1)) items))))))"

text \<open>The command line the tool prints at the end.\<close>

definition env_on :: "string \<Rightarrow> string" where
  "env_on v = (if is_on v then ''1'' else ''0'')"

definition launch_knob :: "item \<Rightarrow> (string \<times> string) list" where
  "launch_knob it =
     (let (k, v) = it in
      if v = [] then []
      else if k = ''stream'' then [(''CNE_STREAM'', env_on v)]
      else if k = ''prefetch'' then [(''CNE_PREFETCH'', env_on v)]
      else if k = ''kernels'' then [(''CNE_KERNELS'', env_on v)]
      else if k = ''dense'' then [(''CNE_DENSE'', v)]
      else if k = ''mtp'' then [(''CNE_MTP'', v)]
      else if k = ''threads'' then [(''CNE_THREADS'', v)]
      else if k = ''ctx'' then [(''CNE_CTX'', v)]
      else if k = ''session_max'' then [(''CNE_SESSION_MAX'', v)]
      else if k = ''session_max_per_user'' then [(''CNE_SESSION_MAX_PER_USER'', v)]
      else if k = ''api_mode'' then [(''CNE_API_MODE'', env_on v)]
      else if k = ''api_rpm'' then [(''CNE_API_RPM'', v)]
      else if k = ''cache_gib'' then [(''CNE_CACHE_GIB'', v)]
      else if k = ''think'' then [(''CNE_THINK'', env_on v)]
      else if k = ''max_req_s'' then [(''CNE_MAX_REQ_S'', v)]
      else [])"

definition launch_envs :: "item list \<Rightarrow> int \<Rightarrow> (string \<times> string) list" where
  "launch_envs its mtp_k = concat (map launch_knob its) @ (if mtp_k > 0 then [(''CNE_MTP_P_MIN'', ''0.5'')] else [])"

definition launch_value :: "string \<Rightarrow> string \<Rightarrow> item list \<Rightarrow> string" where
  "launch_value k d its = foldl (\<lambda>x it. if fst it = k \<and> snd it \<noteq> [] then snd it else x) d its"

definition launch_command :: "item list \<Rightarrow> int \<Rightarrow> string \<Rightarrow> string" where
  "launch_command its mtp_k artifact =
     concat (map (\<lambda>(n, v). n @ ''='' @ v @ '' '') (launch_envs its mtp_k)) @ ''cne_server '' @ artifact @ '' ''
     @ launch_value ''host'' ''127.0.0.1'' its @ '' '' @ launch_value ''port'' ''8080'' its"

section \<open>What the JSON library promises\<close>

definition json_ok :: "('j, 'z) cfg_build_scheme \<Rightarrow> bool" where
  "json_ok J \<longleftrightarrow>
     (\<forall>x k v. x = cj_new J \<or> cj_is_object J x \<longrightarrow>
        cj_is_object J (cj_set J x k v) \<and> (\<forall>k'. cj_find J (cj_set J x k v) k' = (if k' = k then Some v else cj_find J x k')))
     \<and> (\<forall>k. cj_find J (cj_new J) k = None)
     \<and> (\<forall>b. cj_bool J (cj_of_bool J b) = Some b \<and> \<not> cj_is_null J (cj_of_bool J b))
     \<and> (\<forall>i. cj_bool J (cj_of_int J i) = None \<and> \<not> cj_is_null J (cj_of_int J i) \<and> cj_integer J (cj_of_int J i) = Some i
          \<and> cj_dump J (cj_of_int J i) = to_string i)
     \<and> (\<forall>s. cj_bool J (cj_of_string J s) = None \<and> \<not> cj_is_null J (cj_of_string J s) \<and> cj_string J (cj_of_string J s) = Some s
          \<and> (\<exists>t. cj_dump J (cj_of_string J s) = CHR 0x22 # t))"

section \<open>Lemmas\<close>

lemma strtol_dec:
  assumes "n < 2 ^ 63"
  shows "strtol (dec n) = int n"
proof -
  obtain x xs where x: "dec n = x # xs" by (cases "dec n") auto
  have "is_digit x" using is_digit_dec [of n] x by simp
  then have "\<not> is_space x" "x \<noteq> CHR ''-''" "x \<noteq> CHR ''+''" by (auto simp: is_digit_def is_space_def Let_def)
  moreover have "digits_val 0 (x # xs) = n" using digits_val_dec [of n] x by simp
  ultimately show ?thesis using x assms by (simp add: strtol_def Let_def del: digits_val.simps)
qed

lemma atoi_to_string:
  assumes "- 2147483648 \<le> i" "i < 2147483648"
  shows "atoi (to_string i) = i"
proof (cases "i < 0")
  case False
  then show ?thesis using strtol_dec [of "nat i"] assms by (simp add: atoi_def to_string_def)
next
  case True
  have "\<not> is_space CHR ''-''" by (simp add: is_space_def)
  then have "strtol (to_string i) = i"
    using True assms digits_val_dec [of "nat (- i)"] by (simp add: to_string_def strtol_def Let_def)
  then show ?thesis using assms by (simp add: atoi_def)
qed

lemma atoi_range: "- 2147483648 \<le> atoi s \<and> atoi s < 2147483648"
  by (simp add: atoi_def to_i32_range)

lemma json_set:
  assumes "json_ok J" "x = cj_new J \<or> cj_is_object J x"
  shows "cj_is_object J (cj_set J x k v)" "cj_find J (cj_set J x k v) k' = (if k' = k then Some v else cj_find J x k')"
  using assms unfolding json_ok_def by blast+

lemma json_new: "json_ok J \<Longrightarrow> cj_find J (cj_new J) k = None"
  unfolding json_ok_def by blast

text \<open>The value an item puts into the configuration, if any.\<close>

definition item_json :: "('j, 'z) cfg_build_scheme \<Rightarrow> bool \<Rightarrow> item \<Rightarrow> 'j option" where
  "item_json J api it =
     (let (k, v) = it in
      if v = [] then None
      else if k \<in> {''stream'', ''think'', ''kernels'', ''prefetch''} then Some (cj_of_bool J (is_on v))
      else if k = ''api_mode'' then (if is_on v then Some (cj_of_bool J True) else None)
      else if k \<in> {''threads'', ''ctx'', ''port'', ''session_max'', ''mtp''} then Some (cj_of_int J (atoi v))
      else if k \<in> {''session_max_per_user'', ''api_rpm''} then (if api then Some (cj_of_int J (atoi v)) else None)
      else if k = ''max_req_s'' then Some (cj_of_double J (atof v))
      else if k = ''cache_gib'' then (if atoi v > 0 then Some (cj_of_int J (atoi v)) else None)
      else if k = ''api_keys_file'' then (if api then Some (cj_of_string J v) else None)
      else Some (cj_of_string J v))"

lemma add_item_cfg:
  "bu_cfg (add_item J b it) = (case item_json J (bu_api_on b) it of None \<Rightarrow> bu_cfg b | Some x \<Rightarrow> cj_set J (bu_cfg b) (fst it) x)"
  by (cases it) (auto simp: add_item_def item_json_def Let_def)

lemma add_item_api: "bu_api_on (add_item J b it) = (if fst it = ''api_mode'' \<and> snd it \<noteq> [] then is_on (snd it) else bu_api_on b)"
  by (cases it) (auto simp: add_item_def Let_def)

lemma add_item_mtp: "bu_mtp_k (add_item J b it) = (if fst it = ''mtp'' \<and> snd it \<noteq> [] then atoi (snd it) else bu_mtp_k b)"
  by (cases it) (auto simp: add_item_def Let_def)

text \<open>All items see the same API mode.\<close>

lemma foldl_api:
  "(\<forall>it\<in>set its. fst it = ''api_mode'' \<longrightarrow> snd it \<noteq> [] \<longrightarrow> is_on (snd it) = bu_api_on b) \<Longrightarrow> bu_api_on (foldl (add_item J) b its) = bu_api_on b"
  by (induction its arbitrary: b) (auto simp: add_item_api)

lemma foldl_find:
  assumes "json_ok J"
  shows "distinct (map fst its) \<Longrightarrow> (\<forall>it\<in>set its. fst it = ''api_mode'' \<longrightarrow> snd it \<noteq> [] \<longrightarrow> is_on (snd it) = bu_api_on b) \<Longrightarrow>
    cj_is_object J (bu_cfg b) \<Longrightarrow>
    cj_is_object J (bu_cfg (foldl (add_item J) b its)) \<and>
    cj_find J (bu_cfg (foldl (add_item J) b its)) k =
      (case map_of its k of
         None \<Rightarrow> cj_find J (bu_cfg b) k
       | Some v \<Rightarrow> (case item_json J (bu_api_on b) (k, v) of None \<Rightarrow> cj_find J (bu_cfg b) k | Some x \<Rightarrow> Some x))"
proof (induction its arbitrary: b)
  case (Cons it its)
  let ?b = "add_item J b it"
  have api: "bu_api_on ?b = bu_api_on b" using Cons.prems(2) by (auto simp: add_item_api)
  have obj: "cj_is_object J (bu_cfg ?b)"
    using Cons.prems(3) json_set(1) [OF assms] by (auto simp: add_item_cfg split: option.splits)
  have f: "cj_find J (bu_cfg ?b) k =
      (if k = fst it then (case item_json J (bu_api_on b) it of None \<Rightarrow> cj_find J (bu_cfg b) k | Some x \<Rightarrow> Some x) else cj_find J (bu_cfg b) k)"
    using json_set(2) [OF assms, of "bu_cfg b"] Cons.prems(3) by (auto simp: add_item_cfg split: option.splits)
  have "map_of its k = None" if "k = fst it" using that Cons.prems(1) by (simp add: map_of_eq_None_iff)
  then show ?case
    using Cons.IH [of ?b] Cons.prems(1,2) api obj f by (cases it) (auto split: option.splits)
qed simp

lemma api_mode_value:
  assumes "distinct (map fst its)" "it \<in> set its" "fst it = ''api_mode''"
  shows "is_on (snd it) = api_mode_on its"
proof -
  obtain j where "find (\<lambda>(k, v). k = ''api_mode'') its = Some j"
  proof (cases "find (\<lambda>(k, v). k = ''api_mode'') its")
    case None
    then show ?thesis using assms(2,3) by (cases it) (auto simp: find_None_iff)
  qed
  moreover from this have "j \<in> set its" "fst j = ''api_mode''" by (auto simp: find_Some_iff intro: nth_mem)
  moreover from this have "j = it" using assms by (metis distinct_map inj_onD)
  ultimately show ?thesis by (simp add: api_mode_on_def split_beta)
qed

lemma build_config_find:
  assumes "json_ok J" "distinct (map fst its)" "k \<noteq> ''model''"
  shows "cj_is_object J (bu_cfg (build_config J model its)) \<and> bu_api_on (build_config J model its) = api_mode_on its \<and>
    cj_find J (bu_cfg (build_config J model its)) k = Option.bind (map_of its k) (\<lambda>v. item_json J (api_mode_on its) (k, v))"
proof -
  let ?b = "\<lparr>bu_cfg = cj_set J (cj_new J) ''model'' (cj_of_string J model), bu_mtp_k = 0, bu_api_on = api_mode_on its, bu_keys_rel = ''api_keys.txt''\<rparr>"
  have ob: "cj_is_object J (bu_cfg ?b)" "cj_find J (bu_cfg ?b) k = None"
    using json_set [OF assms(1), of "cj_new J"] json_new [OF assms(1)] assms(3) by simp_all
  have ap: "\<forall>it\<in>set its. fst it = ''api_mode'' \<longrightarrow> snd it \<noteq> [] \<longrightarrow> is_on (snd it) = bu_api_on ?b"
    using api_mode_value [OF assms(2)] by simp
  show ?thesis
    using foldl_find [OF assms(1,2) ap ob(1), of k] foldl_api [OF ap, of J] ob(2)
    unfolding build_config_def by (auto split: option.splits)
qed

lemma json_texts:
  assumes "json_ok J"
  shows "knob_text J (cj_of_bool J b) = (if b then ''1'' else ''0'')" "\<not> cj_is_null J (cj_of_bool J b)"
    "knob_text J (cj_of_int J i) = to_string i" "\<not> cj_is_null J (cj_of_int J i)" "cj_integer J (cj_of_int J i) = Some i"
    "\<exists>t. knob_text J (cj_of_string J s) = CHR 0x22 # t" "\<not> cj_is_null J (cj_of_string J s)"
  using assms unfolding json_ok_def knob_text_def by simp_all

lemma bump_find:
  assumes "json_ok J" "cj_is_object J cfg"
  shows "cj_is_object J (bump_sessions J cfg)" "k \<noteq> ''session_max'' \<Longrightarrow> cj_find J (bump_sessions J cfg) k = cj_find J cfg k"
    "cj_find J cfg ''session_max'' = Some (cj_of_int J i) \<Longrightarrow> - 2147483648 \<le> i \<Longrightarrow> i < 2147483648 \<Longrightarrow>
      cj_find J (bump_sessions J cfg) ''session_max'' = Some (cj_of_int J (max 2 i))"
  using json_set [OF assms(1), of cfg] assms(2) json_texts(5) [OF assms(1)]
  by (auto simp: bump_sessions_def max_def split: option.splits)

lemma final_config_find:
  assumes "json_ok J" "cj_is_object J (bu_cfg b)"
  shows "cj_is_object J (final_config J b)"
    "k \<notin> {''session_max'', ''mtp_p_min''} \<Longrightarrow> cj_find J (final_config J b) k = cj_find J (bu_cfg b) k"
    "cj_find J (bu_cfg b) ''session_max'' = Some (cj_of_int J i) \<Longrightarrow> - 2147483648 \<le> i \<Longrightarrow> i < 2147483648 \<Longrightarrow>
      cj_find J (final_config J b) ''session_max'' = Some (cj_of_int J (if bu_api_on b then max 2 i else i))"
proof -
  let ?c = "if bu_api_on b then bump_sessions J (bu_cfg b) else bu_cfg b"
  have o: "cj_is_object J ?c" using bump_find(1) [OF assms] assms(2) by simp
  note st = json_set [OF assms(1), of ?c]
  show "cj_is_object J (final_config J b)" using o st(1) by (simp add: final_config_def Let_def)
  show "k \<notin> {''session_max'', ''mtp_p_min''} \<Longrightarrow> cj_find J (final_config J b) k = cj_find J (bu_cfg b) k"
    using o st(2) bump_find(2) [OF assms] by (simp add: final_config_def Let_def)
  show "cj_find J (bu_cfg b) ''session_max'' = Some (cj_of_int J i) \<Longrightarrow> - 2147483648 \<le> i \<Longrightarrow> i < 2147483648 \<Longrightarrow>
      cj_find J (final_config J b) ''session_max'' = Some (cj_of_int J (if bu_api_on b then max 2 i else i))"
    using o st(2) bump_find(3) [OF assms] by (simp add: final_config_def Let_def)
qed

lemma setup_args_code: "setup_args args o1 = Inl c \<Longrightarrow> c = 2"
proof (induction "length args" arbitrary: args o1 rule: less_induct)
  case less
  show ?case
  proof (cases args)
    case (Cons a as)
    then have as: "setup_args as o2 = Inl c \<Longrightarrow> c = 2" for o2 using less.hyps [of as o2] by simp
    have as': "setup_args bs o2 = Inl c \<Longrightarrow> c = 2" if "as = b # bs" for b bs o2 using less.hyps [of bs o2] that Cons by simp
    consider "a \<in> {''-y'', ''--accept-all''}" | "a = ''--config''" | "a = ''--model''" | "a \<notin> {''-y'', ''--accept-all'', ''--config'', ''--model''}"
      by blast
    then show ?thesis
    proof cases
      case 1
      then show ?thesis using less.prems Cons as by auto
    next
      case 2
      then show ?thesis using less.prems Cons as' by (cases as) auto
    next
      case 3
      then show ?thesis using less.prems Cons as' by (cases as) auto
    next
      case 4
      then show ?thesis using less.prems Cons as by (simp split: if_splits)
    qed
  qed (use less.prems in simp)
qed

text \<open>What a confirmed item says to the server that reads the file.\<close>

lemma final_config_value:
  assumes J: "json_ok J" and d: "distinct (map fst its)" and v: "map_of its k = Some v" "v \<noteq> []"
    and c: "cfg = final_config J (build_config J model its)"
  shows "cj_is_object J cfg" "k \<in> {''stream'', ''think'', ''kernels'', ''prefetch''} \<Longrightarrow> config_value J cfg k = Some (if is_on v then ''1'' else ''0'')"
    "k \<in> {''threads'', ''ctx'', ''mtp''} \<Longrightarrow> config_value J cfg k = Some (to_string (atoi v))"
    "k = ''session_max'' \<Longrightarrow> config_value J cfg k = Some (to_string (if api_mode_on its then max 2 (atoi v) else atoi v))"
    "k = ''dense'' \<Longrightarrow> \<exists>t. config_value J cfg k = Some (CHR 0x22 # t)"
proof -
  let ?b = "build_config J model its"
  have b: "cj_is_object J (bu_cfg ?b)" "bu_api_on ?b = api_mode_on its"
    using build_config_find [OF J d, of "''x''"] by simp_all
  have f: "cj_find J (bu_cfg ?b) k = item_json J (api_mode_on its) (k, v)" if "k \<noteq> ''model''"
    using build_config_find [OF J d that] v(1) by simp
  note fc = final_config_find [OF J b(1), folded c] and tx = json_texts [OF J]
  show "cj_is_object J cfg" by (rule fc(1))
  show "config_value J cfg k = Some (if is_on v then ''1'' else ''0'')" if "k \<in> {''stream'', ''think'', ''kernels'', ''prefetch''}"
    using that f fc(2) [of k] v(2) tx(1,2) by (auto simp: config_value_def item_json_def)
  show "config_value J cfg k = Some (to_string (atoi v))" if "k \<in> {''threads'', ''ctx'', ''mtp''}"
    using that f fc(2) [of k] v(2) tx(3,4) by (auto simp: config_value_def item_json_def)
  show "config_value J cfg k = Some (to_string (if api_mode_on its then max 2 (atoi v) else atoi v))" if "k = ''session_max''"
    using that f fc(3) [of "atoi v"] v(2) tx(3,4) atoi_range [of v] b(2) by (auto simp: config_value_def item_json_def)
  show "\<exists>t. config_value J cfg k = Some (CHR 0x22 # t)" if "k = ''dense''"
    using that f fc(2) [of k] v(2) tx(6,7) by (auto simp: config_value_def item_json_def)
qed

text \<open>The outcomes of the stages.\<close>

lemma pick_artifact_code: "pick_artifact acc mf as i = Inl c \<Longrightarrow> c = 1"
  unfolding pick_artifact_def Let_def by (simp split: if_splits option.splits prod.splits)

lemma confirm_item_code: "confirm_item S acc it i = Inl c \<Longrightarrow> c \<noteq> 0"
  unfolding confirm_item_def Let_def by (simp split: if_splits option.splits prod.splits)

lemma confirm_items_code: "confirm_items S acc its i = Inl c \<Longrightarrow> c \<noteq> 0"
  by (induction its arbitrary: i) (auto dest: confirm_item_code split: sum.splits prod.splits)

lemma ask_item_value: "ask_item k v i = Some (w, i') \<Longrightarrow> w = [] \<or> w = v \<or> valid_value k w"
  by (induction k v i rule: ask_item.induct) (auto simp: Let_def split: if_splits)

lemma confirm_item_value:
  assumes "confirm_item S acc it i = Inr (it', i')"
  shows "fst it' = fst it \<and> (snd it' = [] \<or> snd it' = snd it \<or> valid_value (fst it') (snd it'))"
proof -
  obtain k v where it: "it = (k, v)" by (cases it)
  let ?p = "su_getenv S (map upcase (''CNE_SETUP_'' @ k))"
  consider (preset) p where "?p = Some p" "p \<noteq> []" | (accept) "?p = None \<or> ?p = Some []" acc | (ask) "?p = None \<or> ?p = Some []" "\<not> acc"
    by (cases ?p) auto
  then show ?thesis
  proof cases
    case preset
    then show ?thesis using assms it unfolding confirm_item_def Let_def by (auto split: if_splits)
  next
    case accept
    then have "\<not> (?p \<noteq> None \<and> the ?p \<noteq> [])" by auto
    then show ?thesis using assms it accept(2) unfolding confirm_item_def Let_def prod.case by (simp only: if_True if_False HOL.simp_thms) auto
  next
    case ask
    then have "\<not> (?p \<noteq> None \<and> the ?p \<noteq> [])" by auto
    then show ?thesis using assms it ask(2) ask_item_value [of k v i]
      unfolding confirm_item_def Let_def prod.case by (simp only: if_False HOL.simp_thms) (auto split: if_splits option.splits)
  qed
qed

lemma confirm_items_value:
  "confirm_items S acc its i = Inr (its', i') \<Longrightarrow>
    map fst its' = map fst its \<and> list_all2 (\<lambda>it sg. snd it = [] \<or> snd it = snd sg \<or> valid_value (fst it) (snd it)) its' its"
proof (induction its arbitrary: i its')
  case (Cons it its)
  then show ?case using confirm_item_value [of S acc it i] by (auto split: sum.splits prod.splits)
qed simp

definition setting_keys :: "string list" where
  "setting_keys = [''stream'', ''prefetch'', ''kernels'', ''dense'', ''mtp'', ''threads'', ''ctx'', ''session_max'', ''api_mode'',
     ''session_max_per_user'', ''api_rpm'', ''api_keys_file'', ''cache_gib'', ''think'', ''max_req_s'', ''host'', ''port'']"

lemma suggestion_keys: "build_suggestions a n b t = Some sugg \<Longrightarrow> map fst sugg = setting_keys"
  by (auto simp: build_suggestions_def setting_keys_def Let_def)

lemma write_files_outcome:
  assumes "write_files J S dir path b = (code, ws)"
  shows "code = 0 \<Longrightarrow> \<exists>keys. ws = keys @ [Config_file path (final_config J b)] \<and> (\<forall>p c. Config_file p c \<notin> set keys)"
    "code \<noteq> 0 \<Longrightarrow> Config_file p c \<notin> set ws"
  using assms unfolding write_files_def Let_def by (auto split: if_splits)

lemma setup_main_written:
  assumes "setup_main J S args stdin = Some (code, ws)"
  shows "code \<noteq> 0 \<and> ws = [] \<or>
    (\<exists>dir path model artifact sugg acc i its i'. write_files J S dir path (build_config J model its) = (code, ws)
       \<and> build_suggestions artifact (su_size S artifact) (su_budget S) (su_threads S) = Some sugg
       \<and> confirm_items S acc sugg i = Inr (its, i'))"
proof (cases "setup_args args \<lparr>so_models = ''models'', so_config = [], so_accept = False, so_model = []\<rparr>")
  case (Inl c)
  then show ?thesis using assms setup_args_code [OF Inl] by (simp add: setup_main_def)
next
  case (Inr o1)
  let ?as = "scan_artifacts S (so_models o1)"
  show ?thesis
  proof (cases "pick_artifact (so_accept o1) (so_model o1) ?as stdin")
    case (Inl c)
    then show ?thesis using assms Inr pick_artifact_code [OF Inl] by (auto simp: setup_main_def Let_def split: if_splits)
  next
    case pick: (Inr r)
    obtain a i where r: "r = (a, i)" by (cases r)
    let ?sg = "build_suggestions a (su_size S a) (su_budget S) (su_threads S)"
    show ?thesis
    proof (cases ?sg)
      case None
      then show ?thesis using assms Inr pick r by (auto simp: setup_main_def Let_def split: if_splits)
    next
      case (Some sugg)
      show ?thesis
        using assms Inr pick r Some confirm_items_code [of S "so_accept o1" sugg i]
        by (cases "confirm_items S (so_accept o1) sugg i") (auto simp: setup_main_def Let_def split: if_splits)
    qed
  qed
qed

lemma setup_mainE:
  assumes "setup_main J S args stdin = Some (code, ws)" "code = 0"
  shows "\<exists>keys path model artifact sugg its. ws = keys @ [Config_file path (final_config J (build_config J model its))]
    \<and> (\<forall>p c. Config_file p c \<notin> set keys)
    \<and> build_suggestions artifact (su_size S artifact) (su_budget S) (su_threads S) = Some sugg
    \<and> map fst its = setting_keys
    \<and> list_all2 (\<lambda>it sg. snd it = [] \<or> snd it = snd sg \<or> valid_value (fst it) (snd it)) its sugg"
proof -
  obtain dir path model artifact sugg acc i its i' where w: "write_files J S dir path (build_config J model its) = (code, ws)"
    and sg: "build_suggestions artifact (su_size S artifact) (su_budget S) (su_threads S) = Some sugg"
    and c: "confirm_items S acc sugg i = Inr (its, i')"
    using setup_main_written [OF assms(1)] assms(2) by blast
  from write_files_outcome(1) [OF w assms(2)] obtain keys where
    k: "ws = keys @ [Config_file path (final_config J (build_config J model its))]" "\<forall>p c. Config_file p c \<notin> set keys" by blast
  show ?thesis
    using confirm_items_value [OF c] suggestion_keys [OF sg] sg k
    by (intro exI [of _ keys] exI [of _ path] exI [of _ model] exI [of _ artifact] exI [of _ sugg] exI [of _ its]) simp
qed

lemma setup_exit_code: "setup_main J S args stdin = Some (code, ws) \<Longrightarrow> code \<noteq> 0 \<Longrightarrow> Config_file p c \<notin> set ws"
  using setup_main_written [of J S args stdin code ws] write_files_outcome(2) by fastforce

text \<open>The internal key file cannot be named: every name the tool asks for is checked as a number first.\<close>

lemma keys_file_value: "valid_value ''api_keys_file'' v \<longleftrightarrow> v = [] \<or> all_digits v"
proof -
  have "\<not> list_ex (\<lambda>c. c \<in> {CHR '' '', CHR 0x09}) v" if "all_digits v"
    using that by (auto simp: all_digits_def list_ex_iff list_all_iff is_digit_def)
  then show ?thesis by (simp add: valid_value_def value_hint_def)
qed

lemma free_values: "valid_value ''api_mode'' v" "valid_value ''prefetch'' v"
  by (simp_all add: valid_value_def value_hint_def)

text \<open>The printed command line keeps a lane count that API mode raised in the file.\<close>

lemma launch_line_lanes:
  assumes "json_ok J" "its = [(''session_max'', ''1''), (''api_mode'', ''on'')]"
  shows "launch_envs its 0 = [(''CNE_SESSION_MAX'', ''1''), (''CNE_API_MODE'', ''1'')]"
    "cj_find J (final_config J (build_config J m its)) ''session_max'' = Some (cj_of_int J 2)"
proof -
  show "launch_envs its 0 = [(''CNE_SESSION_MAX'', ''1''), (''CNE_API_MODE'', ''1'')]"
    by (simp add: launch_envs_def launch_knob_def env_on_def is_on_def assms(2))
  have api: "api_mode_on its" by (simp add: api_mode_on_def is_on_def assms(2))
  have one: "atoi ''1'' = 1" by code_simp
  have b: "cj_is_object J (bu_cfg (build_config J m its))" "bu_api_on (build_config J m its)"
    "cj_find J (bu_cfg (build_config J m its)) ''session_max'' = Some (cj_of_int J 1)"
    using build_config_find [OF assms(1), of its "''session_max''" m] api one by (simp_all add: assms(2) item_json_def)
  show "cj_find J (final_config J (build_config J m its)) ''session_max'' = Some (cj_of_int J 2)"
    using final_config_find(3) [OF assms(1) b(1,3)] b(2) by simp
qed

section \<open>Properties\<close>



section \<open>A concrete set-up\<close>

definition demo_items :: "item list" where
  "demo_items = [(''stream'', ''off''), (''threads'', ''6''), (''session_max'', ''1''), (''api_mode'', ''on'')]"

definition demo_build :: "(string \<rightharpoonup> cjson) \<Rightarrow> cjson cfg_build" where
  "demo_build tab = cfg_json.extend (table_json tab)
     \<lparr>cj_new = CNull, cj_set = (\<lambda>j k v. case j of CObj kvs \<Rightarrow> CObj ((k, v) # kvs) | _ \<Rightarrow> CObj [(k, v)]), cj_of_bool = CBool, cj_of_int = CInt,
      cj_of_double = CDouble, cj_of_string = CStr, cj_pretty = cjson_dump\<rparr>"

lemma demo_json_ok: "json_ok (demo_build tab)"
  unfolding json_ok_def by (auto simp: demo_build_def table_json_def cfg_json.defs split: cjson.splits)

lemma demo_set_up:
  obtains J :: "cjson cfg_build" and F :: fsys and cfg where "json_ok J" "cfg = final_config J (build_config J m its)"
    "fs_read F path = Some (cj_pretty J cfg @ [CHR 0x0A])" "cj_parse J (cj_pretty J cfg @ [CHR 0x0A]) = Some cfg"
proof -
  have sel: "cj_new (demo_build t) = cj_new (demo_build Map.empty)" "cj_set (demo_build t) = cj_set (demo_build Map.empty)"
    "cj_of_bool (demo_build t) = cj_of_bool (demo_build Map.empty)" "cj_of_int (demo_build t) = cj_of_int (demo_build Map.empty)"
    "cj_of_double (demo_build t) = cj_of_double (demo_build Map.empty)" "cj_of_string (demo_build t) = cj_of_string (demo_build Map.empty)"
    "cj_find (demo_build t) = cj_find (demo_build Map.empty)" "cj_integer (demo_build t) = cj_integer (demo_build Map.empty)"
    "cj_pretty (demo_build t) = cj_pretty (demo_build Map.empty)" "cj_parse (demo_build t) = t" for t
    by (simp_all add: demo_build_def table_json_def cfg_json.defs)
  have add: "add_item (demo_build t) = add_item (demo_build Map.empty)" for t
    by (intro ext) (unfold add_item_def sel [of t], rule refl)
  have fin: "final_config (demo_build t) (build_config (demo_build t) m its)
      = final_config (demo_build Map.empty) (build_config (demo_build Map.empty) m its)" for t
    unfolding final_config_def bump_sessions_def build_config_def add [of t] sel [of t] ..
  define cfg where "cfg = final_config (demo_build Map.empty) (build_config (demo_build Map.empty) m its)"
  define body where "body = cj_pretty (demo_build Map.empty) cfg @ [CHR 0x0A]"
  let ?J = "demo_build [body \<mapsto> cfg]"
  show ?thesis
  proof (rule that [of ?J cfg "\<lparr>fs_exists = (\<lambda>_. True), fs_read = (\<lambda>_. Some body)\<rparr>"])
    show "json_ok ?J" by (rule demo_json_ok)
    show "cfg = final_config ?J (build_config ?J m its)" unfolding cfg_def by (rule fin [symmetric])
    show "fs_read \<lparr>fs_exists = (\<lambda>_. True), fs_read = (\<lambda>_. Some body)\<rparr> path = Some (cj_pretty ?J cfg @ [CHR 0x0A])"
      unfolding sel(9) [of "[body \<mapsto> cfg]"] by (simp add: body_def)
    show "cj_parse ?J (cj_pretty ?J cfg @ [CHR 0x0A]) = Some cfg"
      unfolding sel(9,10) [of "[body \<mapsto> cfg]"] by (simp add: body_def)
  qed
qed



end
