(* ===== verification/Server_Boot.thy ===== *)
theory Server_Boot
  imports Runtime_Boot Server_Chat Setup_Cli
begin

text \<open>
  \<^verbatim>\<open>server/cne-server.cpp\<close>, the start of the server: from the command line and the configuration file through the runtime to the
  state the chat handler works on. The llama.cpp context is what \<open>boot_api\<close> says of the parameters it was created with; the
  process environment of everything after the configuration file is the one that file left.
\<close>

section \<open>API state\<close>

definition merge_api_keys :: "environ \<Rightarrow> (string \<Rightarrow> string option) \<Rightarrow> string set \<Rightarrow> resolved \<Rightarrow> key_table \<times> resolved" where
  "merge_api_keys getenv readf cfg_keys r =
     (let (_, kt, r) = load_keys getenv readf r in (kt\<lparr>keys := keys kt \<union> cfg_keys\<rparr>, r))"

record api_state =
  as_settings :: settings
  as_keys :: key_table
  as_limiter :: rate_limiter

definition init_api_state ::
  "environ \<Rightarrow> (string \<Rightarrow> string option) \<Rightarrow> string set \<Rightarrow> session_store \<Rightarrow> (api_state \<times> session_store) knob" where
  "init_api_state getenv readf cfg_keys st r =
     (case load_settings getenv r of
        None \<Rightarrow> None
      | Some (s, r) \<Rightarrow>
          (let (kt, r) = merge_api_keys getenv readf cfg_keys r
           in Some ((\<lparr>as_settings = s, as_keys = kt, as_limiter = new_rate_limiter (rpm_per_user s)\<rparr>,
                     if session_max_per_user s > 0 then set_max_slots_per_user st (session_max_per_user s) else st), r)))"

section \<open>The engine\<close>

record 'c boot_api =
  ba_ctx :: "context_params \<Rightarrow> 'c"
  ba_n_seq_max :: "'c \<Rightarrow> u32"
  ba_n_ctx_seq :: "'c \<Rightarrow> int"
  ba_to_ll :: "fpv \<Rightarrow> int"
  ba_read :: "string \<Rightarrow> string option"

text \<open>The fields of \<^verbatim>\<open>Engine\<close> that only the status endpoints read.\<close>

record server_info =
  si_model_name :: string
  si_regime :: string
  si_dense :: dense_policy
  si_odirect :: bool
  si_streaming :: bool
  si_cache_cap :: u64
  si_mtp_p_min :: fpv
  si_main_engine :: bool

definition model_name_of :: "string \<Rightarrow> string" where
  "model_name_of path =
     (let base = rev (takeWhile (\<lambda>c. c \<noteq> CHR ''/'') (rev path))
      in if length base > 5 \<and> drop (length base - 5) base = ''.gguf'' then take (length base - 5) base else base)"

definition boot_settings :: "environ \<Rightarrow> string \<Rightarrow> runtime_settings knob" where
  "boot_settings getenv model =
     then_knob (env_or getenv ''CACHE_GIB'' (\<lambda>v. word_of_int (atoll v)) 8) (\<lambda>cap.
     then_knob (env_or getenv ''STREAM'' (\<lambda>v. atoi v \<noteq> 0) True) (\<lambda>stream_on.
       ret_knob \<lparr>rs_model_path = model, rs_cap_gib = cap, rs_n_ctx = 1024, rs_n_threads = 8, rs_stream_on = stream_on\<rparr>))"

text \<open>\<^verbatim>\<open>(size_t) atoi(sm)\<close>: a negative count is a huge one; zero keeps the eight slots of the initial store.\<close>

definition boot_store :: "string option \<Rightarrow> session_store" where
  "boot_store sm =
     (case sm of
        None \<Rightarrow> new_session_store 8
      | Some v \<Rightarrow> (let n = nat (atoi v mod 2 ^ 64) in if n > 0 then new_session_store n else new_session_store 8))"

text \<open>The wall budget of a request: \<^verbatim>\<open>(long long)(max_req_s * 1000)\<close> milliseconds when it is positive.\<close>

definition req_budget :: "(fpv \<Rightarrow> int) \<Rightarrow> string option \<Rightarrow> int option" where
  "req_budget to_ll mr =
     (case mr of
        None \<Rightarrow> None
      | Some v \<Rightarrow>
          (case atof v of
             Fin x \<Rightarrow> if x > 0 then Some (1000000 * to_ll (round64 (x * 1000))) else None
           | Inf neg \<Rightarrow> if neg then None else Some (1000000 * to_ll (Inf False))
           | NaN \<Rightarrow> None))"

definition engine_stage :: "'c boot_api \<Rightarrow> environ \<Rightarrow> runtime \<Rightarrow> context_params \<Rightarrow> 'c engine knob" where
  "engine_stage K getenv rt cp =
     then_knob (env_get getenv ''CHAT_TEMPLATE'') (\<lambda>ct.
     then_knob (env_or getenv ''THINK'' (\<lambda>v. v = ''0'') False) (\<lambda>no_think.
     then_knob (env_or getenv ''SESSION'' (\<lambda>v. v = ''0'') False) (\<lambda>no_session.
     then_knob (env_get getenv ''SESSION_MAX'') (\<lambda>sm.
     then_knob (env_get getenv ''MAX_REQ_S'') (\<lambda>mr.
     then_knob (env_get getenv ''CHAT_TEMPLATE'') (\<lambda>ct2.
     then_knob (env_or getenv ''THINK'' (\<lambda>v. v = ''0'') False) (\<lambda>no_think2.
     let c = ba_ctx K cp; arch = architecture (rt_manifest rt) in
       ret_knob
         \<lparr>e_ctx = c,
          sessions = set_seq_capacity (boot_store sm) (unat (ba_n_seq_max K c)),
          sessions_enabled = (\<not> no_session),
          active_conv_id = [],
          mtp_k = rt_mtp_k rt,
          engine.n_ctx = rt_n_ctx rt,
          engine.n_ctx_per_seq = ba_n_ctx_seq K c,
          think_default = (\<not> no_think \<and> \<not> no_think2),
          arch_qwen3_think_off = starts_with arch ''qwen3'',
          arch_lfm2moe = starts_with arch ''lfm2moe'',
          chat_template = (case ct2 of Some t \<Rightarrow> t | None \<Rightarrow> (case ct of Some t \<Rightarrow> t | None \<Rightarrow> [])),
          max_req_ns = req_budget (ba_to_ll K) mr\<rparr>)))))))"

section \<open>The server\<close>

definition serving_stage ::
  "machine \<Rightarrow> 'c boot_api \<Rightarrow> string set \<Rightarrow> runtime_settings \<Rightarrow> runtime \<Rightarrow> context_params \<Rightarrow> (('c, 's) server \<times> server_info) knob" where
  "serving_stage B K cfg_keys rs rt cp =
     then_knob (env_or (b_getenv B) ''MTP_P_MIN'' (\<lambda>v. to_float (atof v)) (Fin 0)) (\<lambda>p_min.
     then_knob (engine_stage K (b_getenv B) rt cp) (\<lambda>eng.
     then_knob (init_api_state (b_getenv B) (ba_read K) cfg_keys (sessions eng)) (\<lambda>(api, sess).
     then_knob (env_or (b_getenv B) ''THREADS'' atoi 8) (\<lambda>n_threads.
     then_knob (env_get (b_getenv B) ''MAIN_ENGINE'') (\<lambda>main_engine.
     (\<lambda>r. Some
        ((\<lparr>sv_eng = eng\<lparr>sessions := sess\<rparr>, sv_env = r, sv_req_counter = 0, sv_jobs = \<lparr>jobs = [], jobs_stop = False\<rparr>,
           sv_settings = as_settings api, sv_keys = as_keys api, sv_limiter = as_limiter api\<rparr>,
          \<lparr>si_model_name = model_name_of (rs_model_path rs), si_regime = rt_regime_str rt, si_dense = rt_dense rt,
           si_odirect = rt_odirect rt, si_streaming = rs_stream_on rs, si_cache_cap = rt_cache_cap rt, si_mtp_p_min = p_min,
           si_main_engine = (main_engine \<noteq> None)\<rparr>), r)))))))"

text \<open>\<open>Inl\<close> is the exit status of \<^verbatim>\<open>main\<close>.\<close>

definition server_boot ::
  "machine \<Rightarrow> 'c boot_api \<Rightarrow> string set \<Rightarrow> string \<Rightarrow> stream \<Rightarrow> (int + (('c, 's) server \<times> server_info) \<times> stream) knob" where
  "server_boot B K cfg_keys model st =
     then_knob (boot_settings (b_getenv B) model) (\<lambda>rs.
     then_knob (runtime_prepare B rs st) (\<lambda>p.
     case p of
       Inl e \<Rightarrow> ret_knob (Inl 1)
     | Inr (rt, st) \<Rightarrow>
         then_knob (runtime_load_llama B rs rt st) (\<lambda>(ok, rt, st).
         case (if ok then rt_ctx rt else None) of
           None \<Rightarrow> ret_knob (Inl 1)
         | Some cp \<Rightarrow> then_knob (serving_stage B K cfg_keys rs rt cp) (\<lambda>sv. ret_knob (Inr (sv, st))))))"

definition server_main ::
  "('j, 'z) cfg_json_scheme \<Rightarrow> fsys \<Rightarrow> machine \<Rightarrow> 'c boot_api \<Rightarrow> string list \<Rightarrow> stream \<Rightarrow>
   ((int + (('c, 's) server \<times> server_info) \<times> stream) \<times> resolved) option" where
  "server_main J F B K args st =
     (case resolve_server J F (b_getenv B) args of
        Inl code \<Rightarrow> Some (Inl code, Map.empty)
      | Inr sa \<Rightarrow>
          server_boot (B\<lparr>b_getenv := cf_env (sa_config sa)\<rparr>) K (cf_api_keys (sa_config sa)) (sa_model sa) st Map.empty)"

section \<open>Status\<close>

record health =
  h_model :: string
  h_regime :: string
  h_dense_policy :: string
  h_odirect :: bool
  h_streaming :: bool
  h_mtp :: "int option"
  h_thinking_default :: bool
  h_sessions_enabled :: bool
  h_active :: "string option"
  h_slots :: nat
  h_max_slots :: nat
  h_waiting :: int
  h_decoding :: bool
  h_cache_cap_mib :: u64
  h_n_ctx :: int
  h_n_ctx_per_seq :: int
  h_api_enabled :: bool
  h_rpm_per_user :: int
  h_session_max_per_user :: nat
  h_keys_loaded :: nat

definition dense_policy_str :: "dense_policy \<Rightarrow> string" where
  "dense_policy_str d = (case d of ANON \<Rightarrow> ''anon'' | WARM \<Rightarrow> ''warm'' | MMAP \<Rightarrow> ''mmap'')"

definition get_health :: "('c, 's) server \<Rightarrow> server_info \<Rightarrow> int \<Rightarrow> bool \<Rightarrow> health" where
  "get_health sv si waiting decoding =
     \<lparr>h_model = si_model_name si, h_regime = si_regime si, h_dense_policy = dense_policy_str (si_dense si), h_odirect = si_odirect si,
      h_streaming = si_streaming si, h_mtp = (if mtp_k (sv_eng sv) > 0 then Some (mtp_k (sv_eng sv)) else None),
      h_thinking_default = think_default (sv_eng sv), h_sessions_enabled = sessions_enabled (sv_eng sv),
      h_active = (if active_conv_id (sv_eng sv) = [] then None else Some (active_conv_id (sv_eng sv))),
      h_slots = length (slots (sessions (sv_eng sv))), h_max_slots = max_slots (sessions (sv_eng sv)),
      h_waiting = waiting, h_decoding = decoding, h_cache_cap_mib = drop_bit 20 (si_cache_cap si),
      h_n_ctx = engine.n_ctx (sv_eng sv), h_n_ctx_per_seq = engine.n_ctx_per_seq (sv_eng sv),
      h_api_enabled = enabled (sv_settings sv), h_rpm_per_user = rpm_per_user (sv_settings sv),
      h_session_max_per_user = session_max_per_user (sv_settings sv), h_keys_loaded = card (keys (sv_keys sv))\<rparr>"

section \<open>Lemmas\<close>

lemma env_get_value: "env_get ge name r = Some (x, r') \<Longrightarrow> resolved_ok ge r \<Longrightarrow> no_empty_knob ge \<Longrightarrow> x = knob_value ge name"
  by (metis yields_get yieldsE option.inject prod.inject)

lemma keeps_cacheD: "keeps_cache ge m \<Longrightarrow> m r = Some (x, r') \<Longrightarrow> resolved_ok ge r \<Longrightarrow> resolved_ok ge r'"
  unfolding keeps_cache_def by blast

lemma keeps_cache_none: "keeps_cache ge (\<lambda>r. None)"
  by (simp add: keeps_cache_def)

lemma keeps_cache_prepare: "keeps_cache (b_getenv B) (runtime_prepare B s st)"
  unfolding runtime_prepare_def stream_stage_def Let_def
  by (auto intro!: keeps_cache_intros keeps_cache_none stages_keep_cache split: sum.splits option.splits prod.splits)

lemma keeps_cache_settings: "keeps_cache ge (boot_settings ge model)"
  unfolding boot_settings_def by (intro keeps_cache_intros)

lemma keeps_cache_context: "keeps_cache (b_getenv B) (context_stage B s k)"
  unfolding context_stage_def Let_def by (intro keeps_cache_intros)

lemma keeps_cache_mtp: "keeps_cache (b_getenv B) (mtp_stage B)"
  unfolding mtp_stage_def by (intro keeps_cache_intros)

lemma keeps_cache_load: "keeps_cache (b_getenv B) (runtime_load_llama B s rt st)"
  unfolding runtime_load_llama_def kv_stage_def Let_def
  by (intro keeps_cache_intros keeps_cache_context keeps_cache_mtp, (split if_split)?, (intro conjI impI keeps_cache_intros keeps_cache_context)?)
     (auto intro!: keeps_cache_intros keeps_cache_context)

text \<open>The lanes a context is created with.\<close>

definition lanes_of :: "string option \<Rightarrow> nat" where
  "lanes_of sm = (case sm of None \<Rightarrow> 1 | Some v \<Rightarrow> if atoi v > 1 then nat (atoi v) else 1)"

lemma context_lanes:
  assumes "context_stage B s k r = Some (cp, r')" "resolved_ok (b_getenv B) r" "no_empty_knob (b_getenv B)"
  shows "unat (cp_n_seq_max cp) = lanes_of (knob_value (b_getenv B) ''SESSION_MAX'')"
proof -
  obtain a b q8 fa sm r1 r2 r3 r4 r5 where
    e: "env_or (b_getenv B) ''CTX'' atoi (rs_n_ctx s) r = Some (a, r1)" "env_or (b_getenv B) ''THREADS'' atoi (rs_n_threads s) r1 = Some (b, r2)"
      "env_get (b_getenv B) ''KV_Q8'' r2 = Some (q8, r3)" "env_get (b_getenv B) ''FA'' r3 = Some (fa, r4)"
    and sm: "env_get (b_getenv B) ''SESSION_MAX'' r4 = Some (sm, r5)"
    and cp: "cp_n_seq_max cp = (case sm of None \<Rightarrow> 1 | Some v \<Rightarrow> if atoi v > 1 then word_of_int (atoi v) else 1)"
    using assms(1) by (auto simp: context_stage_def Let_def knob_elim)
  have "resolved_ok (b_getenv B) r4"
    using assms(2) e keeps_cacheD [OF keeps_cache_or] keeps_cacheD [OF keeps_cache_get] by metis
  then have "sm = knob_value (b_getenv B) ''SESSION_MAX''" using env_get_value [OF sm _ assms(3)] by simp
  moreover have "unat (word_of_int (atoi v) :: 32 word) = nat (atoi v)" if "atoi v > 1" for v
    using that atoi_range [of v] by (simp add: unat_eq_nat_uint uint_word_of_int)
  ultimately show ?thesis unfolding cp lanes_of_def by (auto split: option.splits)
qed

lemma boot_store_fresh: "slots (boot_store sm) = []" "1 \<le> max_slots (boot_store sm)"
  by (auto simp: boot_store_def new_session_store_def Let_def split: option.splits)

lemma fresh_store_good:
  assumes "slots st = []" "1 \<le> max_slots st" "\<forall>i. klane c i = []"
  shows "good klane (c, set_seq_capacity st n)"
  using assms by (auto simp: good_def store_inv_def lanes_ok_def lane_used_def set_seq_capacity_def Let_def)

lemma good_per_user: "good klane (c, set_max_slots_per_user st n) = good klane (c, st)"
  by (simp add: set_max_slots_per_user_def good_def store_inv_def lanes_ok_def lane_used_def)

lemma init_api_state_store:
  assumes "init_api_state ge readf ks st r = Some ((api, st'), r')"
  shows "slots st' = slots st" "n_seq_cap st' = n_seq_cap st" "max_slots st' = max_slots st" "good klane (c, st) \<Longrightarrow> good klane (c, st')"
    "ks \<subseteq> keys (as_keys api)" "as_limiter api = new_rate_limiter (rpm_per_user (as_settings api))"
  using assms
  by (auto simp: init_api_state_def merge_api_keys_def good_per_user Let_def split: option.splits prod.splits)
     (simp_all add: set_max_slots_per_user_def)

lemma engine_stage_sessions:
  assumes "engine_stage K ge rt cp r = Some (eng, r')" "resolved_ok ge r" "no_empty_knob ge"
  shows "e_ctx eng = ba_ctx K cp" "active_conv_id eng = []"
    "sessions eng = set_seq_capacity (boot_store (knob_value ge ''SESSION_MAX'')) (unat (ba_n_seq_max K (ba_ctx K cp)))"
proof -
  obtain ct nt ns sm r1 r2 r3 r4 where
    e: "env_get ge ''CHAT_TEMPLATE'' r = Some (ct, r1)" "env_or ge ''THINK'' (\<lambda>v. v = ''0'') False r1 = Some (nt, r2)"
      "env_or ge ''SESSION'' (\<lambda>v. v = ''0'') False r2 = Some (ns, r3)"
    and sm: "env_get ge ''SESSION_MAX'' r3 = Some (sm, r4)"
    and eng: "e_ctx eng = ba_ctx K cp" "active_conv_id eng = []"
      "sessions eng = set_seq_capacity (boot_store sm) (unat (ba_n_seq_max K (ba_ctx K cp)))"
    using assms(1) by (auto simp: engine_stage_def Let_def knob_elim)
  have "resolved_ok ge r3" using assms(2) e keeps_cacheD [OF keeps_cache_or] keeps_cacheD [OF keeps_cache_get] by metis
  then have "sm = knob_value ge ''SESSION_MAX''" using env_get_value [OF sm _ assms(3)] by simp
  with eng show "e_ctx eng = ba_ctx K cp" "active_conv_id eng = []"
    "sessions eng = set_seq_capacity (boot_store (knob_value ge ''SESSION_MAX'')) (unat (ba_n_seq_max K (ba_ctx K cp)))" by simp_all
qed

text \<open>The stages of a boot that serves.\<close>

lemma load_llama_context:
  assumes "runtime_load_llama B s rt st r = Some ((ok, rt', st'), r')" "(if ok then rt_ctx rt' else None) = Some cp" "resolved_ok (b_getenv B) r"
  obtains k ra rb where "context_stage B s k ra = Some (cp, rb)" "resolved_ok (b_getenv B) ra"
proof -
  obtain k r1 where k: "mtp_stage B r = Some (k, r1)"
    and rest: "runtime_load_llama B s rt st r = Some ((ok, rt', st'), r')"
    using assms(1) by (auto simp: runtime_load_llama_def Let_def knob_elim)
  from assms(1,2) k have "\<exists>rb. context_stage B s k r1 = Some (cp, rb)"
    by (auto simp: runtime_load_llama_def Let_def knob_elim split: if_splits)
  moreover have "resolved_ok (b_getenv B) r1" using keeps_cacheD [OF keeps_cache_mtp k assms(3)] .
  ultimately show ?thesis using that by blast
qed

lemma server_bootE:
  assumes "server_boot B K ks model st r = Some (Inr ((sv, si), st'), r')" "resolved_ok (b_getenv B) r"
  obtains k s rt cp ra rb rc where
    "context_stage B s k ra = Some (cp, rb)" "resolved_ok (b_getenv B) ra"
    "serving_stage B K ks s rt cp rc = Some ((sv, si), r')" "resolved_ok (b_getenv B) rc"
proof -
  obtain s rt0 st0 ok rt st1 cp r1 r2 rc where s: "boot_settings (b_getenv B) model r = Some (s, r1)"
    and p: "runtime_prepare B s st r1 = Some (Inr (rt0, st0), r2)"
    and l: "runtime_load_llama B s rt0 st0 r2 = Some ((ok, rt, st1), rc)" "(if ok then rt_ctx rt else None) = Some cp"
    and v: "serving_stage B K ks s rt cp rc = Some ((sv, si), r')"
    using assms(1) unfolding server_boot_def knob_elim by (fastforce simp: knob_elim split: sum.splits prod.splits option.splits)
  have r: "resolved_ok (b_getenv B) r2"
    using keeps_cacheD [OF keeps_cache_prepare p] keeps_cacheD [OF keeps_cache_settings s assms(2)] by simp
  have rc: "resolved_ok (b_getenv B) rc" using keeps_cacheD [OF keeps_cache_load l(1) r] .
  show ?thesis by (rule load_llama_context [OF l r]) (rule that [OF _ _ v rc])
qed

lemma serving_stageE:
  assumes "serving_stage B K ks s rt cp rc = Some ((sv, si), r')" "resolved_ok (b_getenv B) rc"
  obtains eng api rd1 re1 rf1 where
    "engine_stage K (b_getenv B) rt cp rd1 = Some (eng, re1)" "resolved_ok (b_getenv B) rd1"
    "init_api_state (b_getenv B) (ba_read K) ks (sessions eng) re1 = Some ((api, sessions (sv_eng sv)), rf1)"
    "e_ctx (sv_eng sv) = e_ctx eng" "active_conv_id (sv_eng sv) = active_conv_id eng" "jobs (sv_jobs sv) = []"
    "sv_settings sv = as_settings api" "sv_keys sv = as_keys api" "sv_limiter sv = as_limiter api"
proof -
  obtain pm rd1 eng re1 api sess rf1 where
    e: "env_or (b_getenv B) ''MTP_P_MIN'' (\<lambda>v. to_float (atof v)) (Fin 0) rc = Some (pm, rd1)"
      "engine_stage K (b_getenv B) rt cp rd1 = Some (eng, re1)"
      "init_api_state (b_getenv B) (ba_read K) ks (sessions eng) re1 = Some ((api, sess), rf1)"
    and sv: "sv_eng sv = eng\<lparr>sessions := sess\<rparr>" "jobs (sv_jobs sv) = []" "sv_settings sv = as_settings api"
      "sv_keys sv = as_keys api" "sv_limiter sv = as_limiter api"
    using assms(1) by (auto simp: serving_stage_def knob_elim)
  have "resolved_ok (b_getenv B) rd1" using keeps_cacheD [OF keeps_cache_or e(1) assms(2)] .
  with e sv show ?thesis by (intro that [of rd1 eng re1 api rf1]) simp_all
qed

section \<open>Properties\<close>


text \<open>
  A confirmed dense policy is lost: whatever policy the user confirmed in \<^verbatim>\<open>cne-setup\<close>, a server that starts from the file it wrote
  and without \<^verbatim>\<open>CNE_DENSE\<close> in its environment maps the dense weights, because the text is injected with its JSON quotes and the runtime
  does not recognise it.
\<close>

theorem confirmed_dense_ignored:
  assumes "json_ok J" "distinct (map fst its)" "map_of its ''dense'' = Some v" "v \<noteq> []"
    "cfg = final_config J (build_config J model its)" "fs_read F path = Some (cj_pretty J cfg @ [CHR 0x0A])"
    "cj_parse J (cj_pretty J cfg @ [CHR 0x0A]) = Some cfg" "ge ''CNE_DENSE'' = None"
    "b_getenv B = cf_env (apply_config_file J F ge path)"
  shows "\<exists>rg r. dense_stage B mf Map.empty = Some ((rg, MMAP), r)"
proof -
  note fv = final_config_value [OF assms(1-5)]
  obtain t where t: "config_value J cfg ''dense'' = Some (CHR 0x22 # t)" using fv(5) by blast
  have k: "(''dense'', ''DENSE'') \<in> set g_config_knobs" by (simp add: g_config_knobs_def)
  have "fst (env (b_getenv B) Map.empty ''DENSE'') = Some (CHR 0x22 # t)"
    using config_knob_value [OF assms(6,7) fv(1) k, of ge] t assms(8,9) by (simp add: env_fresh)
  then obtain r where "env (b_getenv B) Map.empty ''DENSE'' = (Some (CHR 0x22 # t), r)" by (metis prod.collapse)
  then show ?thesis by (simp add: dense_stage_def then_knob_def env_get_def ret_knob_def choose_dense_def Let_def)
qed

section \<open>A concrete boot\<close>

text \<open>A context that remembers its lanes.\<close>

definition demo_api :: "(u32 \<times> ref_ctx) boot_api" where
  "demo_api = \<lparr>ba_ctx = (\<lambda>cp. (cp_n_seq_max cp, \<lambda>i. [])), ba_n_seq_max = fst, ba_n_ctx_seq = (\<lambda>c. 1024), ba_to_ll = (\<lambda>x. 0), ba_read = (\<lambda>p. None)\<rparr>"

definition demo_fs :: fsys where
  "demo_fs = \<lparr>fs_exists = (\<lambda>_. False), fs_read = (\<lambda>_. None)\<rparr>"

lemma demo_resolve:
  "resolve_server (table_json Map.empty) demo_fs (b_getenv demo_machine) [''m'']
     = Inr \<lparr>sa_model = ''m'', sa_host = ''127.0.0.1'', sa_port = 8080, sa_config = no_config (b_getenv demo_machine)\<rparr>"
  by (simp add: resolve_server_def nth_arg_def apply_config_file_def demo_fs_def no_config_def resolve_model_def Let_def)

lemma demo_main:
  "\<exists>sv si st r. server_main (table_json Map.empty) demo_fs demo_machine demo_api [''m''] (new_stream (\<lambda>_. 0) serve_graph)
     = Some (Inr ((sv :: (u32 \<times> ref_ctx, nat) server, si), st), r)"
proof -
  let ?B = demo_machine and ?r = "[''CNE_PREFETCH'' \<mapsto> ''1'']"
  have B: "?B\<lparr>b_getenv := b_getenv ?B\<rparr> = ?B" by simp
  have s: "boot_settings (b_getenv ?B) ''m'' Map.empty = Some (demo_settings, Map.empty)"
    by (simp add: boot_settings_def then_knob_def ret_knob_def env_or_def demo_env demo_settings_def)
  have b: "b_load ?B = (\<lambda>p mtp. True)" "b_init ?B = (\<lambda>cp. True)" by (simp_all add: demo_machine_def)
  have "\<exists>rt st cp. runtime_load_llama ?B demo_settings demo_runtime serve_start ?r = Some ((True, rt, st), ?r) \<and> rt_ctx rt = Some cp"
    by (simp add: runtime_load_llama_def mtp_stage_def context_stage_def kv_stage_def then_knob_def ret_knob_def env_or_def env_get_def demo_env
        b Let_def)
  then obtain rt st cp where l: "runtime_load_llama ?B demo_settings demo_runtime serve_start ?r = Some ((True, rt, st), ?r)" "rt_ctx rt = Some cp"
    by blast
  have "\<exists>sv r. (serving_stage ?B demo_api {} demo_settings rt cp ?r :: (((u32 \<times> ref_ctx, nat) server \<times> server_info) \<times> resolved) option) = Some (sv, r)"
    by (simp add: serving_stage_def engine_stage_def init_api_state_def merge_api_keys_def load_settings_def load_keys_def env_flag_def env_count_def
        then_knob_def ret_knob_def env_or_def env_get_def demo_env demo_api_def Let_def)
  then show ?thesis
    using demo_prepare s l demo_resolve B
    by (auto simp: server_main_def server_boot_def then_knob_def ret_knob_def no_config_def)
qed


theorem confirmed_dense_ignored_witness:
  "\<exists>J F cfg rg r. cfg = final_config J (build_config (J :: cjson cfg_build) ''m.gguf'' [(''dense'', ''anon'')])
     \<and> fs_read F ''models/server.json'' = Some (cj_pretty J cfg @ [CHR 0x0A])
     \<and> dense_stage (demo_machine\<lparr>b_getenv := cf_env (apply_config_file J F Map.empty ''models/server.json'')\<rparr>) serve_mf Map.empty
        = Some ((rg, MMAP), r)"
proof -
  obtain J :: "cjson cfg_build" and F :: fsys and cfg where J: "json_ok J" "cfg = final_config J (build_config J ''m.gguf'' [(''dense'', ''anon'')])"
    "fs_read F ''models/server.json'' = Some (cj_pretty J cfg @ [CHR 0x0A])" "cj_parse J (cj_pretty J cfg @ [CHR 0x0A]) = Some cfg"
    by (rule demo_set_up)
  have d: "distinct (map fst [(''dense'', ''anon'')])" "map_of [(''dense'', ''anon'')] ''dense'' = Some ''anon''" "''anon'' \<noteq> []" by simp_all
  let ?B = "demo_machine\<lparr>b_getenv := cf_env (apply_config_file J F Map.empty ''models/server.json'')\<rparr>"
  from confirmed_dense_ignored [OF J(1) d J(2-4), of Map.empty ?B serve_mf] J(2,3) show ?thesis by auto
qed

end
