(* ===== verification/Prepare_Tool.thy ===== *)
theory Prepare_Tool
  imports Registry Fs_Path
begin

text \<open>
  \<^verbatim>\<open>tools/cne-prepare.cpp\<close>: a model file is rewritten so that every tensor starts on a page. The source is a byte list, as in theory
  \<open>Gguf\<close>; the output is the byte list written so far, where a write beyond the end leaves zeros. The machine is the record
  \<open>prep_sys\<close>; \<open>None\<close> is an exception or a write outside a buffer. The two paths name different files.
\<close>

section \<open>Layout\<close>

definition prep_align :: u64 where
  "prep_align = 4096"

definition kCopyBytes :: nat where
  "kCopyBytes = 8388608"

definition default_out :: "string \<Rightarrow> string" where
  "default_out inp =
     (if length inp > 5 \<and> drop (length inp - 5) inp = ''.gguf'' then take (length inp - 5) inp @ ''-prepared.gguf''
      else inp @ ''.prepared.gguf'')"

fun prep_spans :: "u64 \<Rightarrow> u64 \<Rightarrow> raw_tensor list \<Rightarrow> u64 list" where
  "prep_spans data_off fsz [] = []"
| "prep_spans data_off fsz (t # ts) =
     (let begin1 = data_off + rel_offset t
      in (case ts of [] \<Rightarrow> fsz - begin1 | n # _ \<Rightarrow> data_off + rel_offset n - begin1) # prep_spans data_off fsz ts)"

text \<open>The new offsets, and the cursor after the last one.\<close>

fun pack :: "u64 \<Rightarrow> u64 list \<Rightarrow> u64 list \<times> u64" where
  "pack cursor [] = ([], cursor)"
| "pack cursor (n # ns) = (let (rels, c) = pack (cursor + align_up n prep_align) ns in (cursor # rels, c))"

section \<open>Metadata\<close>

text \<open>\<^verbatim>\<open>memcpy\<close> into the metadata buffer.\<close>

definition poke :: "u8 list \<Rightarrow> nat \<Rightarrow> u8 list \<Rightarrow> u8 list option" where
  "poke xs pos bs = (if pos + length bs \<le> length xs then Some (take pos xs @ bs @ drop (pos + length bs) xs) else None)"

definition align_kv :: "u8 list" where
  "align_kv = le_bytes 8 17 @ map of_char ''general.alignment'' @ le_bytes 4 4 @ le_bytes 4 (ucast (ucast prep_align :: u32))"

text \<open>The metadata, the number of bytes inserted, and whether a pair was inserted.\<close>

definition patch_alignment :: "gguf_reader \<Rightarrow> u8 list \<Rightarrow> (u8 list \<times> u64 \<times> bool) option" where
  "patch_alignment r meta =
     (case kv_scalar_value_pos r ''general.alignment'' of
        Some have_pos \<Rightarrow> map_option (\<lambda>m. (m, 0, False)) (poke meta (unat have_pos) (le_bytes 4 (ucast (ucast prep_align :: u32))))
      | None \<Rightarrow>
          (let n_kv = le_val (take 8 (drop 16 meta)) + 1; kve = unat (kv_end r)
           in case poke meta 16 (le_bytes 8 n_kv) of
                None \<Rightarrow> None
              | Some m \<Rightarrow>
                  if kve > length m then None else Some (take kve m @ align_kv @ drop kve m, of_nat (length align_kv), True)))"

fun patch_offsets :: "gguf_reader \<Rightarrow> u64 \<Rightarrow> bool \<Rightarrow> u8 list \<Rightarrow> raw_tensor list \<Rightarrow> u64 list \<Rightarrow> u8 list option" where
  "patch_offsets r kv_shift kv_appended meta (t # ts) (v # vs) =
     (let pos = offset_field_pos t;
          pos = (if \<not> kv_appended \<or> pos \<ge> kv_end r then pos + kv_shift else pos)
      in case poke meta (unat pos) (le_bytes 8 v) of
           None \<Rightarrow> None
         | Some meta \<Rightarrow> patch_offsets r kv_shift kv_appended meta ts vs)"
| "patch_offsets r kv_shift kv_appended meta _ _ = Some meta"

section \<open>Copying\<close>

record prep_sys =
  ps_sort :: "raw_tensor list \<Rightarrow> raw_tensor list"
  ps_max_size :: u64
  ps_space :: "string \<Rightarrow> u64 option"
  ps_create :: "string \<Rightarrow> bool"
  ps_write_ok :: "nat \<Rightarrow> nat \<Rightarrow> bool"
  ps_sync :: bool

definition write_at :: "u8 list \<Rightarrow> nat \<Rightarrow> u8 list \<Rightarrow> u8 list" where
  "write_at f pos bs =
     (if bs = [] then f else take pos (f @ replicate (pos - length f) 0) @ bs @ drop (pos + length bs) f)"

function copy_loop :: "prep_sys \<Rightarrow> u8 list \<Rightarrow> u8 list \<Rightarrow> nat \<Rightarrow> nat \<Rightarrow> nat \<Rightarrow> bool \<times> u8 list" where
  "copy_loop S src out from to left =
     (if left = 0 then (True, out)
      else let chunk = (if left < kCopyBytes then left else kCopyBytes)
           in if from + chunk > length src \<or> \<not> ps_write_ok S to chunk then (False, out)
              else copy_loop S src (write_at out to (take chunk (drop from src))) (from + chunk) (to + chunk) (left - chunk))"
  by pat_completeness auto
termination
  by (relation "measure (\<lambda>(S, src, out, from, to, left). left)") (auto simp: kCopyBytes_def)

declare copy_loop.simps [simp del]

text \<open>A seek fails when the offset is negative as \<^verbatim>\<open>off_t\<close>.\<close>

definition seek_ok :: "u64 \<Rightarrow> bool" where
  "seek_ok pos \<longleftrightarrow> 0 \<le> sint pos"

fun copy_tensors :: "prep_sys \<Rightarrow> u8 list \<Rightarrow> u64 \<Rightarrow> u64 \<Rightarrow> u8 list \<Rightarrow> (raw_tensor \<times> u64 \<times> u64) list \<Rightarrow> bool \<times> u8 list" where
  "copy_tensors S src data_off new_data_off out [] = (True, out)"
| "copy_tensors S src data_off new_data_off out ((t, n, rel) # rest) =
     (let src_abs = data_off + rel_offset t; dst_abs = new_data_off + rel
      in if \<not> seek_ok dst_abs \<or> \<not> seek_ok src_abs then (False, out)
         else case copy_loop S src out (unat src_abs) (unat dst_abs) (unat n) of
                (False, out) \<Rightarrow> (False, out)
              | (True, out) \<Rightarrow> copy_tensors S src data_off new_data_off out rest)"

section \<open>The program\<close>

definition validated :: "model_manifest \<Rightarrow> model_manifest \<Rightarrow> bool" where
  "validated m vm \<longleftrightarrow>
     routed_expert_tensors vm = routed_expert_tensors m \<and> misaligned_for_odirect vm = 0 \<and> uniform_misalignment vm = 0
     \<and> scattered_alignment vm = 0 \<and> all_slices_aligned vm = routed_expert_tensors vm \<and> mf_io_alignment vm = prep_align"

text \<open>Lines 165--234: the output file and its validation.\<close>

definition write_prepared ::
  "prep_sys \<Rightarrow> string \<Rightarrow> model_manifest \<Rightarrow> u8 list \<Rightarrow> u64 \<Rightarrow> u64 \<Rightarrow> u8 list \<Rightarrow> (raw_tensor \<times> u64 \<times> u64) list \<Rightarrow> int \<times> u8 list option" where
  "write_prepared S out_path m src data_off new_data_off meta plan =
     (if \<not> ps_create S out_path then (1, None)
      else if \<not> ps_write_ok S 0 (length meta) then (1, Some [])
      else if \<not> seek_ok new_data_off then (1, Some meta)
      else case copy_tensors S src data_off new_data_off meta plan of
             (False, out) \<Rightarrow> (1, Some out)
           | (True, out) \<Rightarrow>
               if \<not> ps_sync S then (1, Some out)
               else (case registry_build (ps_sort S) (ps_max_size S) out_path (Some out) of
                       Inl e \<Rightarrow> (1, Some out)
                     | Inr vm \<Rightarrow> (if validated m vm then 0 else 1, Some out)))"

text \<open>
  The exit status and the output file, if one was created. The sorted vector holds pointers; each tensor has a field position of its own, so
  that equal records at equal places are equal pointers.
\<close>

definition prepare_file ::
  "prep_sys \<Rightarrow> string \<Rightarrow> string \<Rightarrow> u8 list option \<Rightarrow> (int \<times> u8 list option) option" where
  "prepare_file S in_path out_path file =
     (case registry_build (ps_sort S) (ps_max_size S) in_path file of
        Inl e \<Rightarrow> Some (1, None)
      | Inr m \<Rightarrow>
          (case gguf_open (ps_max_size S) file of
             Inl e \<Rightarrow> Some (1, None)
           | Inr r \<Rightarrow>
               (let src = the file; data_off = data_offset r; sorted1 = ps_sort S (raw_tensors r);
                    span = prep_spans data_off (file_size m) sorted1
                in if length sorted1 \<noteq> length (raw_tensors r) then Some (1, None)
                   else if sorted1 \<noteq> raw_tensors r then Some (1, None)
                   else
                     let (new_rel, cursor) = pack 0 span
                     in if length src < unat (meta_end r) then Some (1, None)
                        else
                          case patch_alignment r (take (unat (meta_end r)) src) of
                            None \<Rightarrow> None
                          | Some (meta, kv_shift, kv_appended) \<Rightarrow>
                              (case patch_offsets r kv_shift kv_appended meta (raw_tensors r) new_rel of
                                 None \<Rightarrow> None
                               | Some meta \<Rightarrow>
                                   (let new_data_off = align_up (of_nat (length meta)) prep_align;
                                        new_file_size = new_data_off + cursor;
                                        dir = (if parent_path out_path = [] then ''.'' else parent_path out_path)
                                    in if new_file_size < file_size m then Some (1, None)
                                       else case ps_space S dir of
                                              None \<Rightarrow> None
                                            | Some available \<Rightarrow>
                                                if available < new_file_size then Some (1, None)
                                                else Some (write_prepared S out_path m src data_off new_data_off meta
                                                             (zip sorted1 (zip span new_rel))))))))"

definition prepare_main :: "prep_sys \<Rightarrow> (string \<Rightarrow> u8 list option) \<Rightarrow> string list \<Rightarrow> (int \<times> u8 list option) option" where
  "prepare_main S files args =
     (case args of
        [] \<Rightarrow> Some (2, None)
      | in_path # rest \<Rightarrow>
          prepare_file S in_path (case rest of [] \<Rightarrow> default_out in_path | o1 # _ \<Rightarrow> o1) (files in_path))"

section \<open>Writing\<close>

lemma length_write_at: "length (write_at f pos bs) = (if bs = [] then length f else max (length f) (pos + length bs))"
  by (auto simp: write_at_def)

lemma write_at_prefix: "k \<le> pos \<Longrightarrow> k \<le> length f \<Longrightarrow> take k (write_at f pos bs) = take k f"
  by (auto simp: write_at_def min_def)

lemma write_at_slice: "take (length bs) (drop pos (write_at f pos bs)) = bs"
proof (cases "bs = []")
  case False
  have "length (take pos (f @ replicate (pos - length f) 0)) = pos" by simp
  with False show ?thesis by (simp add: write_at_def)
qed simp

lemma write_at_append:
  assumes "xs \<noteq> []"
  shows "write_at (write_at f pos xs) (pos + length xs) ys = write_at f pos (xs @ ys)"
proof (cases "ys = []")
  case False
  let ?a = "take pos (f @ replicate (pos - length f) 0)"
  have a: "length ?a = pos" by simp
  have w: "write_at f pos xs = ?a @ xs @ drop (pos + length xs) f" using assms by (simp add: write_at_def)
  have "take (pos + length xs) (write_at f pos xs @ replicate (pos + length xs - length (write_at f pos xs)) 0) = ?a @ xs"
    unfolding w using a by simp
  moreover have "drop (pos + length xs + length ys) (write_at f pos xs) = drop (pos + length xs + length ys) f"
    unfolding w using a by (simp add: add.assoc add.commute add.left_commute)
  ultimately show ?thesis using False assms by (simp add: write_at_def [of "write_at f pos xs"] write_at_def [of f pos "xs @ ys"] add.assoc)
qed (simp add: write_at_def [of "write_at f pos xs"])

text \<open>A copy in chunks is one copy.\<close>

lemma copy_loop_whole:
  "copy_loop S src out from to left = (True, out') \<Longrightarrow>
    out' = write_at out to (take left (drop from src)) \<and> (left = 0 \<or> from + left \<le> length src)"
proof (induction S src out "from" to left arbitrary: out' rule: copy_loop.induct)
  case (1 S src out "from" to left)
  show ?case
  proof (cases "left = 0")
    case True
    then show ?thesis using "1.prems" by (simp add: copy_loop.simps [of S src out "from" to 0] write_at_def)
  next
    case False
    define chunk where "chunk = (if left < kCopyBytes then left else kCopyBytes)"
    define piece where "piece = take chunk (drop from src)"
    have c: "0 < chunk" "chunk \<le> left" using False by (auto simp: chunk_def kCopyBytes_def)
    have ok: "from + chunk \<le> length src" "ps_write_ok S to chunk"
      and rest: "copy_loop S src (write_at out to piece) (from + chunk) (to + chunk) (left - chunk) = (True, out')"
      using "1.prems" False by (simp_all add: copy_loop.simps [of S src out "from" to left] chunk_def piece_def Let_def split: if_splits)
    have IH: "out' = write_at (write_at out to piece) (to + chunk) (take (left - chunk) (drop (from + chunk) src))
      \<and> (left - chunk = 0 \<or> from + chunk + (left - chunk) \<le> length src)"
      using "1.IH" [OF False chunk_def] ok rest unfolding piece_def by simp
    have l: "length piece = chunk" using ok(1) by (simp add: piece_def)
    then have "piece \<noteq> []" using c(1) by auto
    moreover have "take left (drop from src) = piece @ take (left - chunk) (drop (from + chunk) src)"
      unfolding piece_def using c(2) take_add [of chunk "left - chunk" "drop from src"] by (simp add: add.commute)
    ultimately have "out' = write_at out to (take left (drop from src))" using IH l write_at_append [of piece out to] by simp
    moreover have "from + left \<le> length src" using IH c ok(1) by auto
    ultimately show ?thesis by simp
  qed
qed

text \<open>\<open>ascending lo base plan\<close>: the destinations follow each other, none before \<open>lo\<close>.\<close>

fun ascending :: "nat \<Rightarrow> u64 \<Rightarrow> (raw_tensor \<times> u64 \<times> u64) list \<Rightarrow> bool" where
  "ascending lo base [] \<longleftrightarrow> True"
| "ascending lo base ((t, n, rel) # rest) \<longleftrightarrow> lo \<le> unat (base + rel) \<and> ascending (unat (base + rel) + unat n) base rest"

definition copied :: "u8 list \<Rightarrow> u64 \<Rightarrow> u64 \<Rightarrow> u8 list \<Rightarrow> raw_tensor \<times> u64 \<times> u64 \<Rightarrow> bool" where
  "copied src data_off new_data_off out p =
     (let (t, n, rel) = p
      in take (unat n) (drop (unat (new_data_off + rel)) out) = take (unat n) (drop (unat (data_off + rel_offset t)) src))"

lemma copy_tensors_bound:
  "copy_tensors S src d nd out plan = (True, out') \<Longrightarrow> list_all (\<lambda>(t, n, rel). unat n \<le> length src) plan"
proof (induction plan arbitrary: out)
  case (Cons p plan)
  obtain t n rel where p: "p = (t, n, rel)" by (cases p)
  from Cons.prems p obtain out1 where
    c: "copy_loop S src out (unat (d + rel_offset t)) (unat (nd + rel)) (unat n) = (True, out1)" "copy_tensors S src d nd out1 plan = (True, out')"
    by (auto simp: Let_def split: if_splits prod.splits bool.splits)
  show ?case using copy_loop_whole [OF c(1)] Cons.IH [OF c(2)] p by auto
qed simp

lemma copy_tensors_spec:
  "copy_tensors S src d nd out plan = (True, out') \<Longrightarrow> ascending lo nd plan \<Longrightarrow>
    (\<forall>k. k \<le> lo \<longrightarrow> k \<le> length out \<longrightarrow> take k out' = take k out) \<and> list_all (copied src d nd out') plan"
proof (induction plan arbitrary: out lo)
  case (Cons p plan)
  obtain t n rel where p: "p = (t, n, rel)" by (cases p)
  let ?to = "unat (nd + rel)" and ?from = "unat (d + rel_offset t)"
  from Cons.prems(1) p obtain out1 where
    c: "copy_loop S src out ?from ?to (unat n) = (True, out1)" "copy_tensors S src d nd out1 plan = (True, out')"
    by (auto simp: Let_def split: if_splits prod.splits bool.splits)
  note w = copy_loop_whole [OF c(1)]
  have lo: "lo \<le> ?to" "ascending (?to + unat n) nd plan" using Cons.prems(2) p by simp_all
  have IH: "\<forall>k. k \<le> ?to + unat n \<longrightarrow> k \<le> length out1 \<longrightarrow> take k out' = take k out1" "list_all (copied src d nd out') plan"
    using Cons.IH [OF c(2) lo(2)] by blast+
  have frame: "take k out' = take k out" if "k \<le> lo" "k \<le> length out" for k
  proof -
    have "k \<le> length out1" using that w by (auto simp: length_write_at)
    then have "take k out' = take k out1" using IH(1) that(1) lo(1) by simp
    also have "\<dots> = take k out" using w that lo(1) by (simp add: write_at_prefix)
    finally show ?thesis .
  qed
  have "copied src d nd out' p"
  proof (cases "unat n = 0")
    case False
    let ?bs = "take (unat n) (drop ?from src)"
    have l: "length ?bs = unat n" using w False by auto
    then have o: "out1 = write_at out ?to ?bs" "?to + unat n \<le> length out1" using w False by (auto simp: length_write_at)
    have "take (unat n) (drop ?to out') = take (unat n) (drop ?to out1)"
      using IH(1) o(2) by (metis le_refl take_drop add.commute)
    also have "\<dots> = ?bs" using write_at_slice [of ?bs ?to out] o(1) l by simp
    finally show ?thesis by (simp add: copied_def p)
  qed (simp add: copied_def p)
  with frame IH(2) show ?case by auto
qed simp

section \<open>Packing\<close>

lemma unat_add64: "unat (a :: u64) + unat b < 18446744073709551616 \<Longrightarrow> unat (a + b) = unat a + unat b"
  using unat_add_nowrap [of a b] by simp

lemma align_up_page:
  assumes "unat n + 4095 < 18446744073709551616"
  shows "unat (align_up n prep_align) = (unat n + 4095) div 4096 * 4096"
proof -
  have "unat (4095 :: u64) = 4095" by simp
  then have "unat (n + 4095) = unat n + 4095" using assms unat_add64 [of n 4095] by (simp only:)
  moreover have "n + 4096 - 1 = n + (4095 :: u64)" by simp
  ultimately have "unat (n + 4096 - 1) = unat n + 4095" by (simp only:)
  then have "unat ((n + 4096 - 1) div 4096) = (unat n + 4095) div 4096" by (simp add: unat_div)
  moreover have "(unat n + 4095) div 4096 * 4096 \<le> unat n + 4095" by simp
  ultimately show ?thesis using assms by (simp add: align_up_def prep_align_def unat_word_ariths(2))
qed

lemma page_up:
  fixes x :: nat
  shows "x \<le> (x + 4095) div 4096 * 4096" "(x + 4095) div 4096 * 4096 \<le> x + 4095"
  using div_mult_mod_eq [of "x + 4095" 4096] mod_less_divisor [of 4096 "x + 4095"] by linarith+

lemma length_pack: "length (fst (pack c ns)) = length ns"
  by (induction ns arbitrary: c) (simp_all add: Let_def split_beta)

text \<open>A packing that does not overflow: page-aligned and ascending.\<close>

lemma pack_ascending:
  assumes "list_all (\<lambda>n. unat n \<le> M) ns" "unat base + unat c + length ns * (M + 4096) < 18446744073709551616" "length ts = length ns"
    "4096 dvd unat c"
  shows "ascending (unat base + unat c) base (zip ts (zip ns (fst (pack c ns)))) \<and> list_all (\<lambda>rel. 4096 dvd unat rel) (fst (pack c ns))
    \<and> list_all (\<lambda>rel. unat (base + rel) = unat base + unat rel) (fst (pack c ns))"
  using assms
proof (induction ns arbitrary: c ts)
  case (Cons n ns)
  obtain t ts' where ts: "ts = t # ts'" using Cons.prems(3) by (cases ts) auto
  let ?a = "align_up n prep_align"
  have n: "unat n \<le> M" using Cons.prems(1) by simp
  have tot: "unat base + unat c + (M + 4096) + length ns * (M + 4096) < 18446744073709551616" using Cons.prems(2) by (simp add: add.assoc)
  then have "unat n + 4095 < 18446744073709551616" using n by linarith
  note a = align_up_page [OF this]
  have ua: "unat n \<le> unat ?a" "unat ?a \<le> M + 4095" "4096 dvd unat ?a"
    using page_up [of "unat n"] n a by (linarith, linarith, simp)
  have c': "unat (c + ?a) = unat c + unat ?a" using tot ua(2) by (intro unat_add64) linarith
  have b: "unat (base + c) = unat base + unat c" using tot by (intro unat_add64) linarith
  have IH: "ascending (unat base + unat (c + ?a)) base (zip ts' (zip ns (fst (pack (c + ?a) ns))))
      \<and> list_all (\<lambda>rel. 4096 dvd unat rel) (fst (pack (c + ?a) ns))
      \<and> list_all (\<lambda>rel. unat (base + rel) = unat base + unat rel) (fst (pack (c + ?a) ns))"
  proof (rule Cons.IH)
    show "unat base + unat (c + ?a) + length ns * (M + 4096) < 18446744073709551616" using tot ua(2) c' by linarith
    show "4096 dvd unat (c + ?a)" using Cons.prems(4) ua(3) unfolding c' by (rule dvd_add)
  qed (use Cons.prems ts in simp_all)
  have mono: "ascending lo' base pl" if "ascending lo base pl" "lo' \<le> lo" for lo lo' pl using that by (cases pl) auto
  have "ascending (unat (base + c) + unat n) base (zip ts' (zip ns (fst (pack (c + ?a) ns))))"
  proof (rule mono [OF conjunct1 [OF IH]])
    show "unat (base + c) + unat n \<le> unat base + unat (c + ?a)" using ua(1) b c' by linarith
  qed
  moreover have "fst (pack c (n # ns)) = c # fst (pack (c + ?a) ns)" by (simp add: Let_def split_beta)
  ultimately show ?case
    using conjunct1 [OF conjunct2 [OF IH]] conjunct2 [OF conjunct2 [OF IH]] b Cons.prems(4)
    unfolding ts zip_Cons_Cons ascending.simps list.pred_inject(2) by (intro conjI) (simp_all only: zip_Cons_Cons ascending.simps list.pred_inject(2) order_refl simp_thms)
qed (use assms in simp)

section \<open>Patching encoded metadata\<close>

lemma poke_middle: "length ys = length bs \<Longrightarrow> pos = length xs \<Longrightarrow> poke (xs @ ys @ zs) pos bs = Some (xs @ bs @ zs)"
  by (simp add: poke_def)

definition with_off :: "gtensor \<Rightarrow> u64 \<Rightarrow> gtensor" where
  "with_off t v = t\<lparr>gt_off := v\<rparr>"

lemma enc_with_off: "enc_tensor (with_off t v) = enc_tensor_head t @ le_bytes 8 v" "length (enc_tensor (with_off t v)) = length (enc_tensor t)"
  by (simp_all add: enc_tensor_def enc_tensor_head_def with_off_def)

lemma length_with_offs: "length ts = length vs \<Longrightarrow> length (concat (map enc_tensor (map2 with_off ts vs))) = length (concat (map enc_tensor ts))"
  by (induction ts vs rule: list_induct2) (simp_all add: enc_with_off(2))

text \<open>Every offset field of the directory is found again, shifted or not, and overwritten.\<close>

lemma patch_offsets_enc:
  assumes "length ts = length vs" "length pre = p + unat sh" "app \<longrightarrow> unat (kv_end r) \<le> p"
    "length pre + length (concat (map enc_tensor ts)) < 18446744073709551616" "app \<or> sh = 0"
  shows "patch_offsets r sh app (pre @ concat (map enc_tensor ts) @ post) (raws_of p ts) vs
    = Some (pre @ concat (map enc_tensor (map2 with_off ts vs)) @ post)"
  using assms
proof (induction ts vs arbitrary: pre p rule: list_induct2)
  case (Cons t ts v vs)
  let ?h = "p + length (enc_tensor_head t)" and ?fp = "of_nat (p + length (enc_tensor_head t)) :: u64"
  have le: "?h + unat sh + 8 \<le> length pre + length (concat (map enc_tensor (t # ts)))"
    using Cons.prems(1) by (simp add: enc_tensor_def)
  then have fp: "unat ?fp = ?h" using Cons.prems(3) by (simp add: unat_of_nat del: of_nat_add)
  have pos: "unat (if \<not> app \<or> ?fp \<ge> kv_end r then ?fp + sh else ?fp) = length (pre @ enc_tensor_head t)"
  proof -
    have "\<not> app \<or> ?fp \<ge> kv_end r" using fp Cons.prems(2) by (auto simp: word_le_nat_alt simp del: of_nat_add)
    moreover have "unat (?fp + sh) = ?h + unat sh" using fp le Cons.prems(3) by (subst unat_add64) (simp_all del: of_nat_add)
    ultimately show ?thesis using Cons.prems(1) by (simp del: of_nat_add)
  qed
  have pk: "poke ((pre @ enc_tensor_head t) @ le_bytes 8 (gt_off t) @ concat (map enc_tensor ts) @ post) (length (pre @ enc_tensor_head t)) (le_bytes 8 v)
      = Some ((pre @ enc_tensor_head t) @ le_bytes 8 v @ concat (map enc_tensor ts) @ post)"
    by (rule poke_middle) simp_all
  have "patch_offsets r sh app ((pre @ enc_tensor_head t @ le_bytes 8 v) @ concat (map enc_tensor ts) @ post) (raws_of (p + length (enc_tensor t)) ts) vs
      = Some ((pre @ enc_tensor_head t @ le_bytes 8 v) @ concat (map enc_tensor (map2 with_off ts vs)) @ post)"
    by (rule Cons.IH) (use Cons.prems in \<open>auto simp: enc_tensor_def\<close>)
  then show ?case
    using pos pk by (simp add: raw_of_def enc_tensor_def [of t] enc_with_off(1) Let_def del: of_nat_add)
qed simp

abbreviation align_key :: string where
  "align_key \<equiv> ''general.alignment''"

definition set_alignment :: "kv list \<Rightarrow> kv list" where
  "set_alignment ps =
     (if align_key \<in> fst ` set ps then map (\<lambda>(k, v). (k, if k = align_key then GScalar V_UINT32 4096 else v)) ps
      else ps @ [(align_key, GScalar V_UINT32 4096)])"

text \<open>The alignment, if the file declares one, is an unsigned 32-bit value.\<close>

definition align_form :: "kv list \<Rightarrow> bool" where
  "align_form ps \<longleftrightarrow> distinct (map fst ps) \<and> (\<forall>v. (align_key, v) \<in> set ps \<longrightarrow> (\<exists>x. v = GScalar V_UINT32 x))"

lemma kvs_apply_append: "kvs_apply r p (ps @ qs) = kvs_apply (kvs_apply r p ps) (p + length (concat (map enc_kv ps))) qs"
  by (induction ps arbitrary: r p) (simp_all add: add.assoc)

lemma kv_pos_apply_other: "k \<noteq> k' \<Longrightarrow> kv_pos (kv_apply r p k' v) k = kv_pos r k"
  by (cases v) auto

lemma kv_pos_other: "k \<notin> fst ` set ps \<Longrightarrow> kv_pos (kvs_apply r p ps) k = kv_pos r k"
  by (induction ps arbitrary: r p) (auto simp: kv_pos_apply_other)

lemma kv_pos_at:
  assumes "k \<notin> fst ` set qs"
  shows "kv_pos (kvs_apply r p (ps @ (k, GScalar V_UINT32 x) # qs)) k
    = Some (of_nat (p + length (concat (map enc_kv ps)) + length (enc_str k) + 4))"
  by (simp add: kvs_apply_append kv_pos_other [OF assms] is_uint_type_def)

lemma align_bytes: "le_bytes 4 (ucast (ucast prep_align :: u32)) = le_bytes 4 4096"
  by (simp add: prep_align_def)

lemma scalar_size_u32 [simp]: "scalar_size V_UINT32 = 4"
  by (simp add: scalar_size_def v_defs)

lemma ucast_u32 [simp]: "(ucast V_UINT32 :: u64) = 4"
  by (simp add: v_defs)

lemma align_kv_enc: "align_kv = enc_kv (align_key, GScalar V_UINT32 4096)"
  unfolding align_kv_def align_bytes by (simp add: enc_kv_def enc_str_def)

lemma set_alignment_split:
  assumes "align_form ps" "align_key \<in> fst ` set ps"
  obtains qs x rs where "ps = qs @ (align_key, GScalar V_UINT32 x) # rs" "align_key \<notin> fst ` set rs"
    "set_alignment ps = qs @ (align_key, GScalar V_UINT32 4096) # rs"
proof -
  obtain v where "(align_key, v) \<in> set ps" using assms(2) by auto
  moreover from this obtain x where "v = GScalar V_UINT32 x" using assms(1) by (auto simp: align_form_def)
  ultimately obtain qs rs where ps: "ps = qs @ (align_key, GScalar V_UINT32 x) # rs" by (auto dest: split_list)
  have n: "align_key \<notin> fst ` set qs" "align_key \<notin> fst ` set rs" using assms(1) ps by (auto simp: align_form_def)
  then have "map (\<lambda>(k, v). (k, if k = align_key then GScalar V_UINT32 4096 else v)) qs = qs"
    "map (\<lambda>(k, v). (k, if k = align_key then GScalar V_UINT32 4096 else v)) rs = rs"
    by (force intro: map_idI)+
  then have "set_alignment ps = qs @ (align_key, GScalar V_UINT32 4096) # rs" using assms(2) ps by (simp add: set_alignment_def)
  then show ?thesis using that ps n(2) by blast
qed

lemma kve_read_back: "kv_end (read_back g) = of_nat (24 + length (concat (map enc_kv (gm_kvs g))))"
  "kv_pos (read_back g) = kv_pos (kvs_apply (new_gguf_reader\<lparr>version := gm_version g\<rparr>) 24 (gm_kvs g))"
  by (simp_all add: read_back_def Let_def)

definition with_kvs :: "gmeta \<Rightarrow> kv list \<Rightarrow> gmeta" where
  "with_kvs g ps = g\<lparr>gm_kvs := ps\<rparr>"

lemma patch_present:
  assumes "align_form (gm_kvs g)" "align_key \<in> fst ` set (gm_kvs g)" "length (enc_meta g) < 18446744073709551616"
  shows "patch_alignment (read_back g) (enc_meta g) = Some (enc_meta (with_kvs g (set_alignment (gm_kvs g))), 0, False)
    \<and> length (concat (map enc_kv (set_alignment (gm_kvs g)))) = length (concat (map enc_kv (gm_kvs g)))"
proof -
  obtain qs x rs where ps: "gm_kvs g = qs @ (align_key, GScalar V_UINT32 x) # rs" "align_key \<notin> fst ` set rs"
    and sa: "set_alignment (gm_kvs g) = qs @ (align_key, GScalar V_UINT32 4096) # rs"
    using set_alignment_split [OF assms(1,2)] .
  let ?pre = "enc_head g @ concat (map enc_kv qs) @ enc_str align_key @ le_bytes 4 4"
    and ?post = "concat (map enc_kv rs) @ concat (map enc_tensor (gm_tensors g))"
  have m: "enc_meta g = ?pre @ le_bytes 4 x @ ?post" by (simp add: enc_meta_def ps(1) enc_kv_def)
  have "enc_head (with_kvs g (set_alignment (gm_kvs g))) = enc_head g" unfolding sa by (simp add: enc_head_def with_kvs_def ps(1))
  then have m': "enc_meta (with_kvs g (set_alignment (gm_kvs g))) = ?pre @ le_bytes 4 4096 @ ?post"
    by (simp add: enc_meta_def with_kvs_def sa enc_kv_def)
  have pos: "kv_scalar_value_pos (read_back g) align_key = Some (of_nat (length ?pre))"
    using kv_pos_at [OF ps(2), of "new_gguf_reader\<lparr>version := gm_version g\<rparr>" 24 qs x]
    by (simp add: kv_scalar_value_pos_def kve_read_back(2) ps(1) enc_head_def add.assoc)
  have "length ?pre < 18446744073709551616" using assms(3) unfolding m length_append by linarith
  then have "unat (of_nat (length ?pre) :: u64) = length ?pre" by (simp add: unat_of_nat del: of_nat_add length_append)
  then have "poke (enc_meta g) (unat (of_nat (length ?pre) :: u64)) (le_bytes 4 4096) = Some (enc_meta (with_kvs g (set_alignment (gm_kvs g))))"
    unfolding m m' by (intro poke_middle) simp_all
  then show ?thesis using pos sa ps(1) unfolding patch_alignment_def align_bytes by (simp add: enc_kv_def)
qed

lemma patch_absent:
  assumes "align_key \<notin> fst ` set (gm_kvs g)" "length (enc_meta g) < 18446744073709551616"
  shows "patch_alignment (read_back g) (enc_meta g)
    = Some (enc_meta (with_kvs g (set_alignment (gm_kvs g))), of_nat (length align_kv), True)"
proof -
  let ?n = "of_nat (length (gm_kvs g)) :: u64" and ?kv = "concat (map enc_kv (gm_kvs g))" and ?t = "concat (map enc_tensor (gm_tensors g))"
  let ?h = "le_bytes 4 (ucast kGgufMagic) @ le_bytes 4 (ucast (gm_version g)) @ le_bytes 8 (of_nat (length (gm_tensors g)))"
  have m: "enc_meta g = ?h @ le_bytes 8 ?n @ ?kv @ ?t" by (simp add: enc_meta_def enc_head_def)
  have h: "length ?h = 16" by simp
  have "take 8 (drop 16 (enc_meta g)) = le_bytes 8 ?n" unfolding m using h by simp
  then have n: "le_val (take 8 (drop 16 (enc_meta g))) + 1 = ?n + 1" by (simp add: le_val_bytes)
  have pk: "poke (enc_meta g) 16 (le_bytes 8 (?n + 1)) = Some (?h @ le_bytes 8 (?n + 1) @ ?kv @ ?t)"
    unfolding m by (rule poke_middle) simp_all
  have kve: "unat (kv_end (read_back g)) = length (?h @ le_bytes 8 (?n + 1) @ ?kv)"
    using assms(2) unfolding m kve_read_back(1) by (simp add: unat_of_nat del: of_nat_add)
  have pos: "kv_scalar_value_pos (read_back g) align_key = None"
    using kv_pos_other [OF assms(1)] by (simp add: kv_scalar_value_pos_def kve_read_back(2) new_gguf_reader_def)
  have "enc_meta (with_kvs g (set_alignment (gm_kvs g))) = (?h @ le_bytes 8 (?n + 1) @ ?kv) @ align_kv @ ?t"
    using assms(1) by (simp add: set_alignment_def enc_meta_def enc_head_def with_kvs_def align_kv_enc add.commute)
  moreover have "take (length (?h @ le_bytes 8 (?n + 1) @ ?kv)) ((?h @ le_bytes 8 (?n + 1) @ ?kv) @ ?t) = ?h @ le_bytes 8 (?n + 1) @ ?kv"
    "drop (length (?h @ le_bytes 8 (?n + 1) @ ?kv)) ((?h @ le_bytes 8 (?n + 1) @ ?kv) @ ?t) = ?t"
    by simp_all
  ultimately show ?thesis using pos n pk kve unfolding patch_alignment_def by (simp add: Let_def)
qed

text \<open>Both ways at once: the patched metadata encode the same file with the new alignment.\<close>

lemma patch_alignment_enc:
  assumes "align_form (gm_kvs g)" "length (enc_meta g) < 18446744073709551616"
  obtains sh app where "patch_alignment (read_back g) (enc_meta g) = Some (enc_meta (with_kvs g (set_alignment (gm_kvs g))), sh, app)"
    "length (concat (map enc_kv (set_alignment (gm_kvs g)))) = length (concat (map enc_kv (gm_kvs g))) + unat sh" "app \<or> sh = 0"
    "unat sh \<le> 33"
proof (cases "align_key \<in> fst ` set (gm_kvs g)")
  case True
  show ?thesis by (rule that [of 0 False]) (use patch_present [OF assms(1) True assms(2)] in simp_all)
next
  case False
  have "length align_kv = 33" by code_simp
  moreover have "concat (map enc_kv (set_alignment (gm_kvs g))) = concat (map enc_kv (gm_kvs g)) @ align_kv"
    using False by (simp add: set_alignment_def align_kv_enc)
  ultimately show ?thesis by (intro that [of "of_nat (length align_kv)" True]) (use patch_absent [OF False assms(2)] in simp_all)
qed

text \<open>The metadata of the prepared file.\<close>

definition prepared_meta :: "gmeta \<Rightarrow> u64 list \<Rightarrow> gmeta" where
  "prepared_meta g rels = (with_kvs g (set_alignment (gm_kvs g)))\<lparr>gm_tensors := map2 with_off (gm_tensors g) rels\<rparr>"

lemma patch_meta_enc:
  assumes "align_form (gm_kvs g)" "length (enc_meta g) + 33 < 18446744073709551616" "length rels = length (gm_tensors g)"
  obtains meta sh app where "patch_alignment (read_back g) (enc_meta g) = Some (meta, sh, app)"
    "patch_offsets (read_back g) sh app meta (raw_tensors (read_back g)) rels = Some (enc_meta (prepared_meta g rels))"
    "length (enc_meta (prepared_meta g rels)) \<le> length (enc_meta g) + 33"
proof -
  let ?g1 = "with_kvs g (set_alignment (gm_kvs g))" and ?p = "24 + length (concat (map enc_kv (gm_kvs g)))"
  have "length (enc_meta g) < 18446744073709551616" using assms(2) by simp
  then obtain sh app where pa: "patch_alignment (read_back g) (enc_meta g) = Some (enc_meta ?g1, sh, app)"
    and len: "length (concat (map enc_kv (set_alignment (gm_kvs g)))) = length (concat (map enc_kv (gm_kvs g))) + unat sh"
    and sh: "app \<or> sh = 0" "unat sh \<le> 33"
    by (rule patch_alignment_enc [OF assms(1)])
  let ?pre = "enc_head ?g1 @ concat (map enc_kv (set_alignment (gm_kvs g)))" and ?ts = "gm_tensors g"
  have g1: "enc_meta ?g1 = ?pre @ concat (map enc_tensor ?ts) @ []" by (simp add: enc_meta_def with_kvs_def)
  have pre: "length ?pre = ?p + unat sh" using len by (simp add: enc_head_def)
  have g: "length (enc_meta g) = ?p + length (concat (map enc_tensor ?ts))" by (simp add: enc_meta_def enc_head_def)
  have tot: "length ?pre + length (concat (map enc_tensor ?ts)) \<le> length (enc_meta g) + 33" using pre g sh(2) by linarith
  have "?p < 18446744073709551616" using g assms(2) by linarith
  then have ke: "unat (kv_end (read_back g)) = ?p" unfolding kve_read_back(1) by (simp add: unat_of_nat del: of_nat_add)
  have rt: "raw_tensors (read_back g) = raws_of ?p ?ts" by (simp add: read_back_def Let_def)
  have hd: "enc_meta (prepared_meta g rels) = ?pre @ concat (map enc_tensor (map2 with_off ?ts rels)) @ []"
    using assms(3) by (simp add: enc_meta_def enc_head_def prepared_meta_def with_kvs_def)
  have "patch_offsets (read_back g) sh app (enc_meta ?g1) (raw_tensors (read_back g)) rels = Some (enc_meta (prepared_meta g rels))"
    unfolding g1 hd rt by (rule patch_offsets_enc [OF _ pre]) (use assms tot ke sh(1) in simp_all)
  moreover have "length (enc_meta (prepared_meta g rels)) \<le> length (enc_meta g) + 33"
    using tot length_with_offs [of ?ts rels] assms(3) unfolding hd by simp
  ultimately show ?thesis using that [OF pa] by blast
qed

lemma length_kvs_le: "length ps \<le> length (concat (map enc_kv ps))"
  by (induction ps) (simp_all add: enc_kv_def enc_str_def)

lemma alignment_of_set:
  assumes "align_form ps"
  shows "alignment_of (set_alignment ps) = 4096" "distinct (map fst (set_alignment ps))"
    "(k, v) \<in> set ps \<Longrightarrow> k \<noteq> align_key \<Longrightarrow> (k, v) \<in> set (set_alignment ps)"
proof -
  have m: "map fst (map (\<lambda>(k, v). (k, if k = align_key then GScalar V_UINT32 4096 else v)) ps) = map fst ps"
    by (simp add: case_prod_unfold)
  show d: "distinct (map fst (set_alignment ps))" using assms m by (auto simp: set_alignment_def align_form_def simp del: map_map)
  have "(align_key, GScalar V_UINT32 4096) \<in> set (set_alignment ps)" by (force simp: set_alignment_def)
  then have "stored (kvs_apply new_gguf_reader 24 (set_alignment ps)) (align_key, GScalar V_UINT32 4096)"
    using stored_kvs_apply [OF d, of new_gguf_reader 24] by (auto simp: list_all_iff)
  then show "alignment_of (set_alignment ps) = 4096" by (simp add: alignment_of_def kv_u64_def is_uint_type_def)
  show "(k, v) \<in> set (set_alignment ps)" if "(k, v) \<in> set ps" "k \<noteq> align_key" using that by (force simp: set_alignment_def)
qed

lemma wf_prepared_meta:
  assumes "wf_meta max_size g" "align_form (gm_kvs g)" "length (enc_meta g) + 33 < 18446744073709551616" "length rels = length (gm_tensors g)"
  shows "wf_meta max_size (prepared_meta g rels)"
proof -
  have "length (gm_kvs g) \<le> length (enc_meta g)" using length_kvs_le [of "gm_kvs g"] by (simp add: enc_meta_def)
  then have "length (set_alignment (gm_kvs g)) < 18446744073709551616" using assms(3) by (auto simp: set_alignment_def)
  moreover have "list_all wf_kv (set_alignment (gm_kvs g))"
    using assms(1) by (auto simp: wf_meta_def set_alignment_def list_all_iff wf_kv_def wf_str_def)
  moreover have "list_all wf_tensor (map2 with_off (gm_tensors g) rels)"
    using assms(1) by (auto simp: wf_meta_def list_all_iff wf_tensor_def with_off_def dest: set_zip_leftD)
  ultimately show ?thesis
    using assms(1,4) alignment_of_set(1) [OF assms(2)] by (simp add: wf_meta_def prepared_meta_def with_kvs_def)
qed

section \<open>The prepared file\<close>

text \<open>The stages of a run that succeeded.\<close>

lemma write_preparedE:
  assumes "write_prepared S op m src d nd meta plan = (0, Some out)"
  obtains vm where "copy_tensors S src d nd meta plan = (True, out)" "registry_build (ps_sort S) (ps_max_size S) op (Some out) = Inr vm" "validated m vm"
  using assms that by (auto simp: write_prepared_def split: if_splits prod.splits bool.splits sum.splits)

lemma prepare_fileE:
  assumes "prepare_file S ip op (Some src) = Some (0, Some out)"
  obtains m r meta sh app meta' vm where
    "registry_build (ps_sort S) (ps_max_size S) ip (Some src) = Inr m" "gguf_open (ps_max_size S) (Some src) = Inr r"
    "patch_alignment r (take (unat (meta_end r)) src) = Some (meta, sh, app)"
    "patch_offsets r sh app meta (raw_tensors r) (fst (pack 0 (prep_spans (data_offset r) (file_size m) (raw_tensors r)))) = Some meta'"
    "copy_tensors S src (data_offset r) (align_up (of_nat (length meta')) prep_align) meta'
       (zip (raw_tensors r) (zip (prep_spans (data_offset r) (file_size m) (raw_tensors r))
          (fst (pack 0 (prep_spans (data_offset r) (file_size m) (raw_tensors r)))))) = (True, out)"
    "registry_build (ps_sort S) (ps_max_size S) op (Some out) = Inr vm" "validated m vm"
proof -
  obtain m r where mr: "registry_build (ps_sort S) (ps_max_size S) ip (Some src) = Inr m" "gguf_open (ps_max_size S) (Some src) = Inr r"
    using assms by (auto simp: prepare_file_def split: sum.splits)
  let ?sp = "prep_spans (data_offset r) (file_size m) (raw_tensors r)"
  obtain rels cursor where pk: "pack 0 ?sp = (rels, cursor)" by fastforce
  have so: "ps_sort S (raw_tensors r) = raw_tensors r" and le: "\<not> length src < unat (meta_end r)"
    using assms mr pk by (auto simp: prepare_file_def Let_def split: if_splits)
  obtain meta sh app where pa: "patch_alignment r (take (unat (meta_end r)) src) = Some (meta, sh, app)"
    using assms mr pk so le by (cases "patch_alignment r (take (unat (meta_end r)) src)") (auto simp: prepare_file_def Let_def)
  obtain meta' where po: "patch_offsets r sh app meta (raw_tensors r) rels = Some meta'"
    using assms mr pk so le pa by (cases "patch_offsets r sh app meta (raw_tensors r) rels") (auto simp: prepare_file_def Let_def)
  let ?nd = "align_up (of_nat (length meta')) prep_align"
  have "write_prepared S op m src (data_offset r) ?nd meta' (zip (raw_tensors r) (zip ?sp rels)) = (0, Some out)"
    using assms mr pk so le pa po by (simp add: prepare_file_def Let_def split: if_splits option.splits)
  then obtain vm where "copy_tensors S src (data_offset r) ?nd meta' (zip (raw_tensors r) (zip ?sp rels)) = (True, out)"
    "registry_build (ps_sort S) (ps_max_size S) op (Some out) = Inr vm" "validated m vm"
    by (rule write_preparedE)
  with mr pa po pk show ?thesis by (intro that [of m r meta sh app meta' vm]) simp_all
qed

lemma validated_aligned:
  assumes "registry_build srt max_size p f = Inr vm" "validated m vm" "ti \<in> set (mf_tensors vm)" "is_routed ti"
  shows "abs_offset ti mod 4096 = 0 \<and> bytes_per_expert ti mod 4096 = 0"
proof -
  have "counters_ok vm" using registry_build_spec [OF assms(1)] by blast
  then have "count_of (\<lambda>t. is_routed t \<and> abs_offset t mod 4096 \<noteq> 0) vm = 0" "count_of (\<lambda>t. is_routed t \<and> bytes_per_expert t mod 4096 \<noteq> 0) vm = 0"
    using assms(2) by (simp_all add: counters_ok_def validated_def)
  then show ?thesis using assms(3,4) by (auto simp: count_of_def filter_empty_conv)
qed

lemma length_prep_spans: "length (prep_spans d f ts) = length ts"
  by (induction ts) (simp_all add: Let_def)

text \<open>What a successful run on an encoded file wrote.\<close>

lemma prepared_enc:
  assumes wf: "wf_meta (ps_max_size S) g" and af: "align_form (gm_kvs g)"
    and b: "Suc (length (gm_tensors g)) * (length (enc_meta g @ data) + 8192) < 18446744073709551616"
    and run: "prepare_file S ip op (Some (enc_meta g @ data)) = Some (0, Some out)"
    and sp: "sp = prep_spans (data_offset (read_back g)) (of_nat (length (enc_meta g @ data))) (raw_tensors (read_back g))"
    and rels: "rels = fst (pack 0 sp)" and base: "base = data_offset (read_back (prepared_meta g rels))"
  shows "length rels = length (gm_tensors g) \<and> (\<exists>rest. out = enc_meta (prepared_meta g rels) @ rest)
    \<and> list_all (copied (enc_meta g @ data) (data_offset (read_back g)) base out) (zip (raw_tensors (read_back g)) (zip sp rels))
    \<and> list_all (\<lambda>rel. 4096 dvd unat (base + rel)) rels"
proof -
  let ?src = "enc_meta g @ data" and ?r = "read_back g"
  obtain m r meta sh app meta' and vm :: model_manifest where
    m: "registry_build (ps_sort S) (ps_max_size S) ip (Some ?src) = Inr m" and r: "gguf_open (ps_max_size S) (Some ?src) = Inr r"
    and p: "patch_alignment r (take (unat (meta_end r)) ?src) = Some (meta, sh, app)"
      "patch_offsets r sh app meta (raw_tensors r) (fst (pack 0 (prep_spans (data_offset r) (file_size m) (raw_tensors r)))) = Some meta'"
    and c: "copy_tensors S ?src (data_offset r) (align_up (of_nat (length meta')) prep_align) meta'
       (zip (raw_tensors r) (zip (prep_spans (data_offset r) (file_size m) (raw_tensors r))
          (fst (pack 0 (prep_spans (data_offset r) (file_size m) (raw_tensors r)))))) = (True, out)"
    using run by (rule prepare_fileE)
  have r': "r = ?r" using r gguf_open_enc [OF wf, of data] by simp
  have fs: "file_size m = of_nat (length ?src)" using registry_build_spec [OF m] by auto
  have n: "length (raw_tensors ?r) = length (gm_tensors g)"
    using arg_cong [OF raws_of_contents [of "24 + length (concat (map enc_kv (gm_kvs g)))" "gm_tensors g"], of length] by (simp add: read_back_def Let_def)
  have ls: "length sp = length (gm_tensors g)" and lr: "length rels = length (gm_tensors g)"
    by (simp_all add: sp rels length_prep_spans length_pack n)
  have small: "length ?src + 8192 < 18446744073709551616" using b by simp
  have me: "take (unat (meta_end ?r)) ?src = enc_meta g"
    using small by (simp add: read_back_def Let_def unat_of_nat)
  have "length (enc_meta g) + 33 < 18446744073709551616" using small by simp
  note enc = patch_meta_enc [OF af this lr] and wfp = wf_prepared_meta [OF wf af this lr]
  obtain meta1 sh1 app1 where e: "patch_alignment ?r (enc_meta g) = Some (meta1, sh1, app1)"
    "patch_offsets ?r sh1 app1 meta1 (raw_tensors ?r) rels = Some (enc_meta (prepared_meta g rels))"
    and len: "length (enc_meta (prepared_meta g rels)) \<le> length (enc_meta g) + 33"
    by (rule enc)
  have meta': "meta' = enc_meta (prepared_meta g rels)" using p e me unfolding r' fs sp [symmetric] rels [symmetric] by simp
  have b1: "base = align_up (of_nat (length meta')) prep_align"
    using alignment_of_set(1) [OF af] by (simp add: base meta' read_back_def Let_def prepared_meta_def with_kvs_def prep_align_def)
  have cp: "copy_tensors S ?src (data_offset ?r) base meta' (zip (raw_tensors ?r) (zip sp rels)) = (True, out)"
    using c unfolding r' fs sp [symmetric] rels [symmetric] b1 .
  have "length meta' + 4095 < 18446744073709551616" using len small unfolding meta' by simp
  then have ub: "unat base = (length meta' + 4095) div 4096 * 4096"
    unfolding b1 using align_up_page [of "of_nat (length meta')"] by (simp add: unat_of_nat)
  have ub': "length meta' \<le> unat base" "unat base \<le> length ?src + 4128" "4096 dvd unat base"
    using page_up [of "length meta'"] len ub unfolding meta' by (linarith, simp, simp)
  have spn: "list_all (\<lambda>n. unat n \<le> length ?src) sp"
    using copy_tensors_bound [OF cp] ls lr n by (fastforce simp: list_all_length)
  have tot: "unat base + unat (0 :: u64) + length sp * (length ?src + 4096) < 18446744073709551616"
  proof -
    have "length sp * (length ?src + 4096) \<le> length (gm_tensors g) * (length ?src + 8192)" unfolding ls by (rule mult_le_mono2) simp
    then show ?thesis using b ub'(2) by simp
  qed
  note pa = pack_ascending [OF spn tot, of "raw_tensors ?r", folded rels]
  have asc: "ascending (unat base) base (zip (raw_tensors ?r) (zip sp rels))" "list_all (\<lambda>rel. 4096 dvd unat rel) rels"
    "list_all (\<lambda>rel. unat (base + rel) = unat base + unat rel) rels"
    using pa ls n by simp_all
  note cs = copy_tensors_spec [OF cp asc(1)]
  have "take (length meta') out = take (length meta') meta'" using cs ub'(1) by blast
  then have "out = meta' @ drop (length meta') out" by (metis append_take_drop_id take_all order_refl)
  moreover have "list_all (\<lambda>rel. 4096 dvd unat (base + rel)) rels"
    using asc(2,3) ub'(3) by (auto simp: list_all_iff intro: dvd_add)
  ultimately show ?thesis using lr cs meta' by blast
qed

lemma raws_headers: "map (\<lambda>t. (rt_name t, rt_dims t, ggml_type t)) (raws_of q ts) = map (\<lambda>t. (gt_name t, gt_dims t, gt_type t)) ts"
  using arg_cong [OF raws_of_contents [of q ts], of "map (\<lambda>(a, b, c, d). (a, b, c))"] by (simp add: comp_def)

lemma raws_offsets: "map rel_offset (raws_of q ts) = map gt_off ts"
  using arg_cong [OF raws_of_contents [of q ts], of "map (\<lambda>(a, b, c, d). d)"] by (simp add: comp_def)

lemma with_offs:
  assumes "length rels = length ts"
  shows "map gt_off (map2 with_off ts rels) = rels"
    "map (\<lambda>t. (gt_name t, gt_dims t, gt_type t)) (map2 with_off ts rels) = map (\<lambda>t. (gt_name t, gt_dims t, gt_type t)) ts"
  using assms by (auto intro!: nth_equalityI simp: with_off_def)

text \<open>
  Claim C34. A prepared file is the same model: when \<^verbatim>\<open>cne-prepare\<close> exits with status zero on a well-formed GGUF file whose alignment, if
  declared, is an unsigned 32-bit value, the reader accepts its output, every other key-value pair reads back as it was, the tensors are the same in
  name, shape, type and order, each starts at a multiple of 4096 bytes, and at its new place stand the bytes that the
  source has at the old one, over its whole span. The expert slices of the output's manifest are page aligned. The hypothesis on sizes keeps the
  64-bit packing from wrapping.
\<close>

theorem prepared_file_same_model:
  assumes "wf_meta (ps_max_size S) g" "align_form (gm_kvs g)"
    "Suc (length (gm_tensors g)) * (length (enc_meta g @ data) + 8192) < 2 ^ 64"
    "prepare_file S in_path out_path (Some (enc_meta g @ data)) = Some (0, Some out)"
  shows "\<exists>r r' vm. gguf_open (ps_max_size S) (Some (enc_meta g @ data)) = Inr r \<and> gguf_open (ps_max_size S) (Some out) = Inr r'
    \<and> io_alignment r' = 4096 \<and> (\<forall>k v. (k, v) \<in> set (gm_kvs g) \<longrightarrow> k \<noteq> ''general.alignment'' \<longrightarrow> stored r' (k, v))
    \<and> map (\<lambda>t. (rt_name t, rt_dims t, ggml_type t)) (raw_tensors r') = map (\<lambda>t. (rt_name t, rt_dims t, ggml_type t)) (raw_tensors r)
    \<and> (\<forall>i < length (raw_tensors r).
        let n = unat (prep_spans (data_offset r) (of_nat (length (enc_meta g @ data))) (raw_tensors r) ! i);
            old = unat (data_offset r + rel_offset (raw_tensors r ! i)); new = unat (data_offset r' + rel_offset (raw_tensors r' ! i))
        in 4096 dvd new \<and> take n (drop new out) = take n (drop old (enc_meta g @ data)))
    \<and> registry_build (ps_sort S) (ps_max_size S) out_path (Some out) = Inr vm
    \<and> (\<forall>ti \<in> set (mf_tensors vm). is_routed ti \<longrightarrow> abs_offset ti mod 4096 = 0 \<and> bytes_per_expert ti mod 4096 = 0)"
proof -
  let ?src = "enc_meta g @ data" and ?r = "read_back g"
  define sp where "sp = prep_spans (data_offset ?r) (of_nat (length ?src)) (raw_tensors ?r)"
  define rels where "rels = fst (pack 0 sp)"
  let ?g = "prepared_meta g rels" and ?r' = "read_back (prepared_meta g rels)"
  have b: "Suc (length (gm_tensors g)) * (length ?src + 8192) < 18446744073709551616" using assms(3) by simp
  note pe = prepared_enc [OF assms(1,2) b assms(4) sp_def rels_def refl]
  obtain rest where out: "out = enc_meta ?g @ rest" using pe by blast
  have lr: "length rels = length (gm_tensors g)" using pe by blast
  have "length (enc_meta g) + 33 < 18446744073709551616" using b by simp
  from wf_prepared_meta [OF assms(1,2) this lr] have o: "gguf_open (ps_max_size S) (Some out) = Inr ?r'" unfolding out by (rule gguf_open_enc)
  have kv: "stored ?r' (k, v)" if "(k, v) \<in> set (gm_kvs g)" "k \<noteq> align_key" for k v
    using alignment_of_set(3) [OF assms(2) that] stored_kvs_apply [OF alignment_of_set(2) [OF assms(2)], of "new_gguf_reader\<lparr>version := gm_version g\<rparr>" 24]
    by (auto simp: read_back_def Let_def prepared_meta_def with_kvs_def list_all_iff)
  let ?p = "24 + length (concat (map enc_kv (gm_kvs g)))" and ?p' = "24 + length (concat (map enc_kv (set_alignment (gm_kvs g))))"
  have rt: "raw_tensors ?r = raws_of ?p (gm_tensors g)" "raw_tensors ?r' = raws_of ?p' (map2 with_off (gm_tensors g) rels)"
    by (simp_all add: read_back_def Let_def prepared_meta_def with_kvs_def)
  note contents = raws_headers and same = with_offs(2) [OF lr]
  have ro: "map rel_offset (raw_tensors ?r') = rels" unfolding rt(2) raws_offsets by (rule with_offs(1) [OF lr])
  have n: "length (raw_tensors ?r) = length rels" using arg_cong [OF contents [of ?p "gm_tensors g"], of length] lr rt(1) by simp
  have n': "length (raw_tensors ?r') = length rels" using arg_cong [OF ro, of length] by simp
  have copied: "4096 dvd unat (data_offset ?r' + rel_offset (raw_tensors ?r' ! i)) \<and>
      take (unat (sp ! i)) (drop (unat (data_offset ?r' + rel_offset (raw_tensors ?r' ! i))) out)
        = take (unat (sp ! i)) (drop (unat (data_offset ?r + rel_offset (raw_tensors ?r ! i))) ?src)"
    if i: "i < length (raw_tensors ?r)" for i
  proof -
    have "rel_offset (raw_tensors ?r' ! i) = rels ! i" using arg_cong [OF ro, of "\<lambda>xs. xs ! i"] i n n' by simp
    moreover have "length sp = length (raw_tensors ?r)" by (simp add: sp_def length_prep_spans)
    ultimately show ?thesis using pe i n by (auto simp: list_all_length copied_def)
  qed
  obtain m vm where v: "registry_build (ps_sort S) (ps_max_size S) out_path (Some out) = Inr vm" "validated m vm"
    using assms(4) by (rule prepare_fileE) blast
  show ?thesis
    using gguf_open_enc [OF assms(1), of data] o kv copied v(1) validated_aligned [OF v] contents same rt alignment_of_set(1) [OF assms(2)]
    unfolding sp_def by (intro exI [of _ ?r] exI [of _ ?r'] exI [of _ vm])
      (simp add: Let_def, simp add: read_back_def Let_def prepared_meta_def with_kvs_def)
qed

text \<open>
  The patch is four bytes wide whatever the width of the field: an alignment stored as a 16-bit value is patched over the beginning of the next
  pair, which is then lost.
\<close>

lemma narrow_alignment_corrupts:
  "(let g = \<lparr>gm_version = 3, gm_kvs = [(''general.alignment'', GScalar V_UINT16 32), (''x'', GStr ''a'')], gm_tensors = []\<rparr>;
        answers = (\<lambda>f. case gguf_open 1000 (Some f) of Inl _ \<Rightarrow> None | Inr r \<Rightarrow> kv_str r ''x'')
    in (answers (enc_meta g), map_option (\<lambda>(m, _). answers m) (patch_alignment (read_back g) (enc_meta g)))) = (Some ''a'', Some None)"
  by code_simp

section \<open>A concrete run\<close>

definition small_meta :: gmeta where
  "small_meta = \<lparr>gm_version = 3, gm_kvs = [(''general.architecture'', GStr ''d''), (''d.block_count'', GScalar 4 1)],
     gm_tensors = [\<lparr>gt_name = ''output.weight'', gt_dims = [2], gt_type = 0, gt_off = 0\<rparr>]\<rparr>"

definition small_data :: "u8 list" where
  "small_data = replicate 21 0 @ [1, 2, 3, 4, 5, 6, 7, 8]"

definition small_sys :: prep_sys where
  "small_sys = \<lparr>ps_sort = demo_sort, ps_max_size = 1000, ps_space = (\<lambda>d. Some 1000000), ps_create = (\<lambda>p. True),
     ps_write_ok = (\<lambda>pos n. True), ps_sync = True\<rparr>"

definition small_out :: "u8 list" where
  "small_out = write_at (enc_meta (prepared_meta small_meta [0])) 4096 [1, 2, 3, 4, 5, 6, 7, 8]"

lemma small_wf: "wf_meta 1000 small_meta" "align_form (gm_kvs small_meta)"
  by (simp_all add: wf_meta_def small_meta_def wf_kv_def wf_str_def wf_tensor_def scalar_size_def v_defs alignment_of_def is_uint_type_def
      is_int_type_def align_form_def new_gguf_reader_def)

lemma small_lengths: "length (enc_meta small_meta) = 139" "length (enc_meta (prepared_meta small_meta [0])) = 172"
  by code_simp+

lemma small_reader:
  "data_offset (read_back small_meta) = 160" "meta_end (read_back small_meta) = 139"
  "map rel_offset (raw_tensors (read_back small_meta)) = [0]"
  by code_simp+

lemma small_builds:
  "\<exists>m. registry_finish demo_sort ''m'' 168 (read_back small_meta) = Inr m \<and> file_size m = 168 \<and> routed_expert_tensors m = 0"
  "\<exists>vm. registry_finish demo_sort ''o'' 4104 (read_back (prepared_meta small_meta [0])) = Inr vm \<and> routed_expert_tensors vm = 0
     \<and> misaligned_for_odirect vm = 0 \<and> uniform_misalignment vm = 0 \<and> scattered_alignment vm = 0 \<and> all_slices_aligned vm = 0
     \<and> mf_io_alignment vm = 4096"
proof -
  have "(case registry_finish demo_sort ''m'' 168 (read_back small_meta) of Inl e \<Rightarrow> False
    | Inr m \<Rightarrow> file_size m = 168 \<and> routed_expert_tensors m = 0)" by code_simp
  then show "\<exists>m. registry_finish demo_sort ''m'' 168 (read_back small_meta) = Inr m \<and> file_size m = 168 \<and> routed_expert_tensors m = 0"
    by (auto split: sum.splits)
  have "(case registry_finish demo_sort ''o'' 4104 (read_back (prepared_meta small_meta [0])) of Inl e \<Rightarrow> False
    | Inr vm \<Rightarrow> routed_expert_tensors vm = 0
     \<and> misaligned_for_odirect vm = 0 \<and> uniform_misalignment vm = 0 \<and> scattered_alignment vm = 0 \<and> all_slices_aligned vm = 0
     \<and> mf_io_alignment vm = 4096)" by code_simp
  then show "\<exists>vm. registry_finish demo_sort ''o'' 4104 (read_back (prepared_meta small_meta [0])) = Inr vm \<and> routed_expert_tensors vm = 0
     \<and> misaligned_for_odirect vm = 0 \<and> uniform_misalignment vm = 0 \<and> scattered_alignment vm = 0 \<and> all_slices_aligned vm = 0
     \<and> mf_io_alignment vm = 4096"
    by (auto split: sum.splits)
qed

lemma small_run: "prepare_file small_sys ''m'' ''o'' (Some (enc_meta small_meta @ small_data)) = Some (0, Some small_out)"
proof -
  let ?src = "enc_meta small_meta @ small_data" and ?r = "read_back small_meta" and ?g = "prepared_meta small_meta [0]"
  have len: "length ?src = 168" by (simp add: small_lengths small_data_def)
  have o: "gguf_open 1000 (Some ?src) = Inr ?r" by (rule gguf_open_enc [OF small_wf(1)])
  obtain m where m: "registry_build demo_sort 1000 ''m'' (Some ?src) = Inr m" "file_size m = 168" "routed_expert_tensors m = 0"
    using small_builds(1) o len by (auto simp: registry_build_def simp del: length_append)
  obtain t where t: "raw_tensors ?r = [t]" "rel_offset t = 0" using small_reader(3) by auto
  have sp: "prep_spans 160 168 [t] = [8]" "pack 0 [8] = ([0], 4096)" using t(2) by (simp_all add: align_up_def prep_align_def)
  have g: "length (enc_meta small_meta) + 33 < 18446744073709551616" "length [0 :: u64] = length (gm_tensors small_meta)"
    by (simp_all add: small_lengths) (simp add: small_meta_def)
  obtain meta sh app where p: "patch_alignment ?r (enc_meta small_meta) = Some (meta, sh, app)"
    "patch_offsets ?r sh app meta (raw_tensors ?r) [0] = Some (enc_meta ?g)"
    by (rule patch_meta_enc [OF small_wf(2) g])
  have nd: "align_up (of_nat (length (enc_meta ?g))) prep_align = 4096" by (simp add: small_lengths align_up_def prep_align_def)
  have piece: "take 8 (drop 160 ?src) = [1, 2, 3, 4, 5, 6, 7, 8]" by (simp add: small_lengths small_data_def)
  have ok: "ps_write_ok small_sys = (\<lambda>pos n. True)" by (simp add: small_sys_def)
  have "copy_loop small_sys ?src out a b 0 = (True, out)" for out a b by (simp add: copy_loop.simps [of small_sys ?src out a b 0])
  then have "copy_loop small_sys ?src (enc_meta ?g) 160 4096 8 = (True, small_out)"
    using piece len ok by (simp add: copy_loop.simps [of small_sys ?src "enc_meta ?g" 160 4096 8] kCopyBytes_def small_out_def)
  then have cp: "copy_tensors small_sys ?src 160 4096 (enc_meta ?g) [(t, 8, 0)] = (True, small_out)"
    using t(2) by (simp add: seek_ok_def Let_def)
  have so: "small_out = enc_meta ?g @ drop 172 small_out"
    using write_at_prefix [of 172 4096 "enc_meta ?g"] append_take_drop_id [of 172 small_out] by (simp add: small_out_def small_lengths)
  have "length small_out = 4104" by (simp add: small_out_def length_write_at small_lengths)
  moreover have "gguf_open 1000 (Some small_out) = Inr (read_back ?g)"
    by (subst so) (rule gguf_open_enc [OF wf_prepared_meta [OF small_wf(1,2) g]])
  ultimately obtain vm where v: "registry_build demo_sort 1000 ''o'' (Some small_out) = Inr vm" "validated m vm"
    using small_builds(2) m(3) by (auto simp: registry_build_def validated_def prep_align_def)
  have wp: "write_prepared small_sys ''o'' m ?src 160 4096 (enc_meta ?g) [(t, 8, 0)] = (0, Some small_out)"
    using cp v by (simp add: write_prepared_def seek_ok_def) (simp add: small_sys_def)
  have sys: "ps_sort small_sys = demo_sort" "ps_max_size small_sys = 1000" "ps_space small_sys = (\<lambda>d. Some 1000000)"
    by (simp_all add: small_sys_def)
  have srt: "demo_sort [t] = [t]" by (simp add: demo_sort_def)
  have me: "take 139 ?src = enc_meta small_meta" by (simp add: small_lengths)
  show ?thesis
    unfolding prepare_file_def sys m(1) o using t sp p nd wp srt me len m(2) by (simp add: small_reader Let_def)
qed

theorem prepared_file_same_model_witness:
  "\<exists>r r'. gguf_open 1000 (Some (enc_meta small_meta @ small_data)) = Inr r \<and> gguf_open 1000 (Some small_out) = Inr r'
     \<and> 4096 dvd unat (data_offset r' + rel_offset (raw_tensors r' ! 0))"
proof -
  have b: "Suc (length (gm_tensors small_meta)) * (length (enc_meta small_meta @ small_data) + 8192) < 2 ^ 64"
    by (simp add: small_lengths small_data_def) (simp add: small_meta_def)
  have s: "ps_max_size small_sys = 1000" by (simp add: small_sys_def)
  obtain r r' where r: "gguf_open 1000 (Some (enc_meta small_meta @ small_data)) = Inr r" "gguf_open 1000 (Some small_out) = Inr r'"
    "\<forall>i < length (raw_tensors r). 4096 dvd unat (data_offset r' + rel_offset (raw_tensors r' ! i))"
    using prepared_file_same_model [OF small_wf(1) [folded s] small_wf(2) b small_run] unfolding Let_def s by auto
  have "r = read_back small_meta" using r(1) gguf_open_enc [OF small_wf(1), of small_data] by simp
  then have "0 < length (raw_tensors r)" using arg_cong [OF small_reader(3), of length] by simp
  then show ?thesis using r by blast
qed

end
