(* ===== verification/Spec_Mtp.thy ===== *)
theory Spec_Mtp
  imports Session Stream_Gate
begin

text \<open>
  \<^verbatim>\<open>runtime/cne_stream_spec.cpp\<close>: speculative generation with a draft head. The target context is the record \<open>llama\<close> of
  theory \<open>Session\<close>; the upstream speculative library (draft context, speculator, sampler, checkpoints) is the record
  \<open>spec_api\<close>. A checkpoint is represented by what loading it does to a context, the identity as long as nothing was saved. The
  callbacks of the caller act on a state \<open>'e\<close>. Timing is left out, and \<open>ss_step\<close> is the last value given to \<^verbatim>\<open>stream_set_step\<close>.
\<close>

section \<open>The speculative library\<close>

record ('c, 'd, 'p, 's) spec_api =
  sp_init_ctx :: "int \<Rightarrow> fpv \<Rightarrow> 'c \<Rightarrow> 'd option"
  sp_full_rm :: "'c \<Rightarrow> bool \<times> 'c"
  sp_full_rm_dft :: "'d \<Rightarrow> bool \<times> 'd"
  sp_new :: "'c \<Rightarrow> 'd \<Rightarrow> 'p option"
  sp_process :: "'p \<Rightarrow> 'c \<Rightarrow> 'd \<Rightarrow> batch_token list \<Rightarrow> bool \<times> 'p \<times> 'd"
  sp_begin :: "'p \<Rightarrow> int list \<Rightarrow> 'p"
  sp_draft :: "'p \<Rightarrow> 'c \<Rightarrow> 'd \<Rightarrow> int \<Rightarrow> int \<Rightarrow> int \<Rightarrow> int list \<Rightarrow> int list \<times> 'p \<times> 'd"
  sp_accept :: "'p \<Rightarrow> nat \<Rightarrow> 'p"
  sp_sampler :: 's
  sp_sample_accept :: "'s \<Rightarrow> 'c \<Rightarrow> int list \<Rightarrow> int list \<times> 's"
  sp_save :: "'c \<Rightarrow> 'c \<Rightarrow> 'c"
  sp_save_dft :: "'d \<Rightarrow> 'd \<Rightarrow> 'd"
  sp_rm_dft :: "'d \<Rightarrow> int \<Rightarrow> 'd"
  sp_n_ctx :: "'c \<Rightarrow> int"
  sp_is_eog :: "int \<Rightarrow> bool"

record 'e callbacks =
  on_token :: "int \<Rightarrow> 'e \<Rightarrow> 'e"
  poll_stop :: "'e \<Rightarrow> bool \<times> 'e"

text \<open>\<^verbatim>\<open>static bool ckpt_probed, ckpt_use_tgt, ckpt_use_dft\<close>: the answers of the probe, once there are any.\<close>

type_synonym probe = "(bool \<times> bool) option"

record ('c, 'd, 'p, 's, 'e) spec_state =
  ss_ctx :: 'c
  ss_dft :: 'd
  ss_spec :: 'p
  ss_smpl :: 's
  ss_cb :: 'e
  ss_prompt :: "int list"
  ss_id_last :: int
  ss_n_past :: int
  ss_draft :: "int list"
  ss_ck_tokens :: nat
  ss_ck_pos_max :: int
  ss_ck_tgt :: "'c \<Rightarrow> 'c"
  ss_ck_dft :: "'d \<Rightarrow> 'd"
  ss_produced :: int
  ss_drafted :: int
  ss_accepted :: int
  ss_iterations :: int
  ss_step :: int

datatype spec_exit = Polled | Decode_failed | Process_failed | Assert_failed | End_of_generation

section \<open>The generation loop\<close>

definition spec_batch :: "bool \<Rightarrow> int \<Rightarrow> int list \<Rightarrow> batch_token list" where
  "spec_batch lg pos toks =
     map (\<lambda>(j, t). \<lparr>bt_token = t, bt_pos = pos + int j, bt_seq = 0, bt_logits = lg\<rparr>) (enumerate 0 toks)"

text \<open>The prefill; with a batch size below one the loop does not advance (\<open>None\<close>).\<close>

function spec_prefill ::
  "'c llama \<Rightarrow> ('c, 'd, 'p, 's) spec_api \<Rightarrow> int \<Rightarrow> 'c \<Rightarrow> 'd \<Rightarrow> 'p \<Rightarrow> int list \<Rightarrow> int \<Rightarrow> (bool \<times> 'c \<times> 'd \<times> 'p) option" where
  "spec_prefill L A nb c d p toks off =
     (if toks = [] then Some (True, c, d, p)
      else if nb < 1 then None
      else let chunk = spec_batch False off (take (nat nb) toks); (ret, c) = decode L c chunk
           in if ret \<noteq> 0 then Some (False, c, d, p)
              else let (ok, p, d) = sp_process A p c d chunk
                   in if \<not> ok then Some (False, c, d, p)
                      else spec_prefill L A nb c d p (drop (nat nb) toks) (off + nb))"
  by pat_completeness auto
termination
  by (relation "measure (\<lambda>(L, A, nb, c, d, p, toks, off). length toks)") auto

declare spec_prefill.simps [simp del]

text \<open>Lines 131--168: a new draft, proposed from a checkpoint.\<close>

definition draft_max :: "('c, 'd, 'p, 's) spec_api \<Rightarrow> int \<Rightarrow> ('c, 'd, 'p, 's, 'e) spec_state \<Rightarrow> int" where
  "draft_max A n_gen s =
     max (min (sp_n_ctx A (ss_ctx s) - ss_n_past s - 2) (n_gen - ss_produced s - 1)) 0"

definition propose ::
  "'c llama \<Rightarrow> ('c, 'd, 'p, 's) spec_api \<Rightarrow> bool \<Rightarrow> bool \<Rightarrow> int \<Rightarrow> ('c, 'd, 'p, 's, 'e) spec_state \<Rightarrow> ('c, 'd, 'p, 's, 'e) spec_state" where
  "propose L A use_tgt use_dft n_gen s =
     (let s = s\<lparr>ss_ck_tokens := length (ss_prompt s), ss_ck_pos_max := seq_pos_max L (ss_ctx s) 0\<rparr>;
          s = (if use_dft then s\<lparr>ss_ck_dft := sp_save_dft A (ss_dft s)\<rparr> else s);
          (draft, p, d) = sp_draft A (ss_spec s) (ss_ctx s) (ss_dft s) (draft_max A n_gen s) (ss_n_past s) (ss_id_last s) (ss_prompt s);
          s = s\<lparr>ss_draft := draft, ss_spec := p, ss_dft := d\<rparr>;
          s = (if draft \<noteq> [] \<and> use_tgt then s\<lparr>ss_ck_tgt := sp_save A (ss_ctx s)\<rparr> else s);
          d = (if use_dft then ss_ck_dft s (ss_dft s) else ss_dft s)
      in s\<lparr>ss_dft := sp_rm_dft A d (ss_ck_pos_max s + 1)\<rparr>)"

text \<open>Lines 224--236: the verified tokens go out one by one.\<close>

fun emit_ids :: "('c, 'd, 'p, 's) spec_api \<Rightarrow> 'e callbacks \<Rightarrow> ('c, 'd, 'p, 's, 'e) spec_state \<Rightarrow> int list \<Rightarrow> bool \<times> ('c, 'd, 'p, 's, 'e) spec_state" where
  "emit_ids A C s [] = (False, s)"
| "emit_ids A C s (t # ids) =
     (let s = s\<lparr>ss_prompt := ss_prompt s @ [ss_id_last s], ss_id_last := t, ss_step := ss_step s + 1\<rparr>
      in if sp_is_eog A t then (True, s)
         else emit_ids A C (s\<lparr>ss_cb := on_token C t (ss_cb s), ss_produced := ss_produced s + 1\<rparr>) ids)"

text \<open>Lines 202--217: back to the checkpoint; what was verified is replayed as the next draft.\<close>

definition roll_back ::
  "'c llama \<Rightarrow> ('c, 'd, 'p, 's) spec_api \<Rightarrow> 's \<Rightarrow> int list \<Rightarrow> ('c, 'd, 'p, 's, 'e) spec_state \<Rightarrow> ('c, 'd, 'p, 's, 'e) spec_state" where
  "roll_back L A smpl_save ids s =
     (let n = ss_ck_tokens s; prompt = take n (ss_prompt s) @ replicate (n - length (ss_prompt s)) 0
      in s\<lparr>ss_draft := ids,
           ss_ctx := snd (seq_rm L (ss_ck_tgt s (ss_ctx s)) 0 (ss_ck_pos_max s + 1) (-1)),
           ss_dft := sp_rm_dft A (ss_ck_dft s (ss_dft s)) (ss_ck_pos_max s + 1),
           ss_prompt := prompt, ss_smpl := smpl_save, ss_n_past := int (length prompt)\<rparr>)"

text \<open>Lines 219--243.\<close>

definition accept_ids ::
  "'c llama \<Rightarrow> ('c, 'd, 'p, 's) spec_api \<Rightarrow> 'e callbacks \<Rightarrow> int list \<Rightarrow> ('c, 'd, 'p, 's, 'e) spec_state \<Rightarrow> spec_exit option \<times> ('c, 'd, 'p, 's, 'e) spec_state" where
  "accept_ids L A C ids s =
     (let n = length ids - 1;
          s = s\<lparr>ss_spec := sp_accept A (ss_spec s) n, ss_n_past := ss_n_past s + int n,
                ss_drafted := ss_drafted s + int (length (ss_draft s)), ss_accepted := ss_accepted s + int n\<rparr>;
          (stop, s) = emit_ids A C s ids
      in if stop then (Some End_of_generation, s)
         else (None, s\<lparr>ss_draft := [], ss_ctx := snd (seq_rm L (ss_ctx s) 0 (ss_n_past s) (-1)),
                       ss_dft := sp_rm_dft A (ss_dft s) (ss_n_past s)\<rparr>))"

text \<open>
  Lines 170--243: the pending token and the draft are verified in one batch. The result is the exit the round takes, if any, and
  the state.
\<close>

definition verify_round ::
  "'c llama \<Rightarrow> ('c, 'd, 'p, 's) spec_api \<Rightarrow> 'e callbacks \<Rightarrow> bool \<Rightarrow> ('c, 'd, 'p, 's, 'e) spec_state \<Rightarrow>
   spec_exit option \<times> ('c, 'd, 'p, 's, 'e) spec_state" where
  "verify_round L A C use_tgt s =
     (let batch = spec_batch True (ss_n_past s) (ss_id_last s # ss_draft s);
          (ret, c) = decode L (ss_ctx s) batch;
          s = s\<lparr>ss_n_past := ss_n_past s + 1, ss_ctx := c\<rparr>
      in if ret \<noteq> 0 then (Some Decode_failed, s)
         else
           let s = s\<lparr>ss_iterations := ss_iterations s + 1\<rparr>;
               (ok, p, d) = sp_process A (ss_spec s) c (ss_dft s) batch;
               s = s\<lparr>ss_spec := p, ss_dft := d\<rparr>
           in if \<not> ok then (Some Process_failed, s)
              else
                let smpl_save = ss_smpl s; (ids, smpl) = sp_sample_accept A (ss_smpl s) c (ss_draft s); s = s\<lparr>ss_smpl := smpl\<rparr>
                in if ids = [] then (Some Assert_failed, s)
                   else if use_tgt \<and> length ids - 1 < length (ss_draft s) then (None, roll_back L A smpl_save ids s)
                   else accept_ids L A C ids s)"

definition spec_round ::
  "'c llama \<Rightarrow> ('c, 'd, 'p, 's) spec_api \<Rightarrow> 'e callbacks \<Rightarrow> bool \<Rightarrow> bool \<Rightarrow> int \<Rightarrow>
   ('c, 'd, 'p, 's, 'e) spec_state \<Rightarrow> spec_exit option \<times> ('c, 'd, 'p, 's, 'e) spec_state" where
  "spec_round L A C use_tgt use_dft n_gen s =
     (let (stop, e) = poll_stop C (ss_cb s); s = s\<lparr>ss_cb := e\<rparr>
      in if stop then (Some Polled, s)
         else verify_round L A C use_tgt (if ss_draft s = [] then propose L A use_tgt use_dft n_gen s else s))"

partial_function (option) spec_loop ::
  "'c llama \<Rightarrow> ('c, 'd, 'p, 's) spec_api \<Rightarrow> 'e callbacks \<Rightarrow> bool \<Rightarrow> bool \<Rightarrow> int \<Rightarrow>
   ('c, 'd, 'p, 's, 'e) spec_state \<Rightarrow> (spec_exit option \<times> ('c, 'd, 'p, 's, 'e) spec_state) option" where
  "spec_loop L A C use_tgt use_dft n_gen s =
     (if \<not> ss_produced s < n_gen then Some (None, s)
      else case spec_round L A C use_tgt use_dft n_gen s of
             (Some x, s) \<Rightarrow> Some (Some x, s)
           | (None, s) \<Rightarrow> spec_loop L A C use_tgt use_dft n_gen s)"

section \<open>The generator\<close>

datatype ('c, 'd, 'p, 's, 'e) spec_outcome =
    Nothing_to_do
  | Draft_context_failed
  | Speculator_failed 'c
  | Prefill_failed 'c
  | Generated "spec_exit option" "('c, 'd, 'p, 's, 'e) spec_state"

definition spec_start ::
  "('c, 'd, 'p, 's) spec_api \<Rightarrow> 'c \<Rightarrow> 'd \<Rightarrow> 'p \<Rightarrow> int list \<Rightarrow> 'e \<Rightarrow> ('c, 'd, 'p, 's, 'e) spec_state" where
  "spec_start A c d p prompt e =
     \<lparr>ss_ctx = c, ss_dft = d, ss_spec = sp_begin A p (butlast prompt), ss_smpl = sp_sampler A, ss_cb = e,
      ss_prompt = butlast prompt, ss_id_last = last prompt, ss_n_past = int (length prompt) - 1, ss_draft = [],
      ss_ck_tokens = 0, ss_ck_pos_max = 0, ss_ck_tgt = (\<lambda>c. c), ss_ck_dft = (\<lambda>d. d), ss_produced = 0,
      ss_drafted = 0, ss_accepted = 0, ss_iterations = 0, ss_step = 0\<rparr>"

definition probe_contexts :: "('c, 'd, 'p, 's) spec_api \<Rightarrow> probe \<Rightarrow> 'c \<Rightarrow> 'd \<Rightarrow> (bool \<times> bool) \<times> 'c \<times> 'd" where
  "probe_contexts A probe c d =
     (case probe of
        Some u \<Rightarrow> (u, c, d)
      | None \<Rightarrow> (let (ut, c) = sp_full_rm A c; (ud, d) = sp_full_rm_dft A d in ((ut, ud), c, d)))"

definition spec_mtp_generate ::
  "'c llama \<Rightarrow> ('c, 'd, 'p, 's) spec_api \<Rightarrow> 'e callbacks \<Rightarrow> probe \<Rightarrow> 'c \<Rightarrow> int list \<Rightarrow> int \<Rightarrow> fpv \<Rightarrow> int \<Rightarrow> 'e \<Rightarrow>
   (('c, 'd, 'p, 's, 'e) spec_outcome \<times> probe) option" where
  "spec_mtp_generate L A C probe c prompt n_max p_min n_gen e =
     (if prompt = [] \<or> n_gen \<le> 0 then Some (Nothing_to_do, probe)
      else
        case sp_init_ctx A n_max p_min c of
          None \<Rightarrow> Some (Draft_context_failed, probe)
        | Some d \<Rightarrow>
            let ((use_tgt, use_dft), c, d) = probe_contexts A probe c d; probe = Some (use_tgt, use_dft) in
            (case sp_new A c d of
               None \<Rightarrow> Some (Speculator_failed c, probe)
             | Some p \<Rightarrow>
                 (case spec_prefill L A (n_batch L c) c d p (butlast prompt) 0 of
                    None \<Rightarrow> None
                  | Some (False, c, d, p) \<Rightarrow> Some (Prefill_failed c, probe)
                  | Some (True, c, d, p) \<Rightarrow>
                      map_option (\<lambda>(x, s). (Generated x s, probe))
                        (spec_loop L A C use_tgt use_dft n_gen (spec_start A c d p prompt e)))))"

section \<open>The reference: greedy decoding\<close>

text \<open>\<open>g\<close> is the target's choice after a context; generation ends before the first end-of-generation token.\<close>

fun greedy_gen :: "(int list \<Rightarrow> int) \<Rightarrow> (int \<Rightarrow> bool) \<Rightarrow> nat \<Rightarrow> int list \<Rightarrow> int list" where
  "greedy_gen g eog 0 p = []"
| "greedy_gen g eog (Suc n) p = (if eog (g p) then [] else g p # greedy_gen g eog n (p @ [g p]))"

text \<open>The tokens a verification of a draft returns: the target's own choices up to the first one that differs.\<close>

fun verify :: "(int list \<Rightarrow> int) \<Rightarrow> int list \<Rightarrow> int list \<Rightarrow> int list" where
  "verify g base [] = [g base]"
| "verify g base (d # ds) = (if g base = d then d # verify g (base @ [d]) ds else [g base])"

fun chain :: "(int list \<Rightarrow> int) \<Rightarrow> int list \<Rightarrow> int list \<Rightarrow> bool" where
  "chain g base [] \<longleftrightarrow> True"
| "chain g base (t # ts) \<longleftrightarrow> t = g base \<and> chain g (base @ [t]) ts"

section \<open>What the library promises\<close>

text \<open>
  A draft respects its limit. Sampling over the logits of a decoded batch gives the greedy choices of the target. The probe
  leaves the lane empty. Where the probe found that only whole sequences can be removed, loading a checkpoint and removing what came after
  it restores the lane; elsewhere every tail can be removed. The callbacks: \<open>toks\<close> reads the tokens delivered so far.
\<close>

definition rollback_ok :: "'c llama \<Rightarrow> ('c, 'd, 'p, 's) spec_api \<Rightarrow> ('c \<Rightarrow> int \<Rightarrow> int list) \<Rightarrow> bool \<Rightarrow> bool" where
  "rollback_ok L A kv use_tgt \<longleftrightarrow>
     (if use_tgt
      then \<forall>c c' rest. kv c' 0 = kv c 0 @ rest \<longrightarrow> kv (snd (seq_rm L (sp_save A c c') 0 (int (length (kv c 0))) (-1))) 0 = kv c 0
      else \<forall>c p. 0 \<le> p \<longrightarrow> fst (seq_rm L c 0 p (-1)))"

definition spec_ok ::
  "'c llama \<Rightarrow> ('c, 'd, 'p, 's) spec_api \<Rightarrow> ('c \<Rightarrow> int \<Rightarrow> int list) \<Rightarrow> (int list \<Rightarrow> int) \<Rightarrow> probe \<Rightarrow> bool" where
  "spec_ok L A kv g probe \<longleftrightarrow>
     (\<forall>p c d n np x pr. 0 \<le> n \<longrightarrow> int (length (fst (sp_draft A p c d n np x pr))) \<le> n)
     \<and> (\<forall>s c b c' x draft. contiguous 0 (int (length (kv c 0))) b \<longrightarrow> list_all bt_logits b \<longrightarrow> map bt_token b = x # draft \<longrightarrow>
          decode L c b = (0, c') \<longrightarrow> fst (sp_sample_accept A s c' draft) = verify g (kv c 0 @ [x]) draft)
     \<and> (\<forall>c. kv (snd (sp_full_rm A c)) 0 = [] \<and> rollback_ok L A kv (fst (sp_full_rm A c)))
     \<and> (\<forall>u. probe = Some u \<longrightarrow> rollback_ok L A kv (fst u))"

definition delivers :: "'e callbacks \<Rightarrow> ('e \<Rightarrow> int list) \<Rightarrow> bool" where
  "delivers C toks \<longleftrightarrow> (\<forall>t e. toks (on_token C t e) = toks e @ [t]) \<and> (\<forall>e. toks (snd (poll_stop C e)) = toks e)"

section \<open>Lemmas\<close>

lemma greedy_gen_length: "length (greedy_gen g eog n p) \<le> n"
  by (induction n arbitrary: p) auto

lemma greedy_gen_snoc:
  "greedy_gen g eog (length out) p = out \<Longrightarrow> \<not> eog (g (p @ out)) \<Longrightarrow>
    greedy_gen g eog (Suc (length out)) p = out @ [g (p @ out)]"
proof (induction out arbitrary: p)
  case (Cons t out)
  then have t: "t = g p" "\<not> eog t" "greedy_gen g eog (length out) (p @ [t]) = out" by (auto split: if_splits)
  with Cons.IH [of "p @ [t]"] Cons.prems(2)
  have "greedy_gen g eog (Suc (length out)) (p @ [t]) = out @ [g (p @ t # out)]" by simp
  with t show ?case by (simp only: greedy_gen.simps(2) [of g eog "length (t # out)"]) simp
qed simp

lemma greedy_gen_stop:
  "greedy_gen g eog (length out) p = out \<Longrightarrow> eog (g (p @ out)) \<Longrightarrow> length out \<le> n \<Longrightarrow> greedy_gen g eog n p = out"
proof (induction out arbitrary: p n)
  case Nil
  then show ?case by (cases n) auto
next
  case (Cons t out)
  then show ?case by (cases n) (auto split: if_splits)
qed

lemma greedy_gen_take: "m \<le> n \<Longrightarrow> greedy_gen g eog m p = take m (greedy_gen g eog n p)"
proof (induction m arbitrary: n p)
  case (Suc m)
  then show ?case by (cases n) auto
qed simp

lemma verify_nonempty [simp]: "verify g base ds \<noteq> []"
  by (cases ds) auto

lemma verify_length: "length (verify g base ds) \<le> Suc (length ds)"
  by (induction g base ds rule: verify.induct) auto

lemma verify_chain: "chain g base (verify g base ds)"
  by (induction g base ds rule: verify.induct) auto

lemma verify_butlast: "butlast (verify g base ds) = take (length (verify g base ds) - 1) ds"
proof (induction g base ds rule: verify.induct)
  case (2 g base d ds)
  then show ?case by (cases "length (verify g (base @ [d]) ds)") auto
qed simp

lemma verify_accepts: "chain g base ds \<Longrightarrow> length (verify g base ds) = Suc (length ds)"
  by (induction g base ds rule: verify.induct) auto

lemma spec_batch_ok:
  "toks \<noteq> [] \<Longrightarrow> contiguous 0 pos (spec_batch lg pos toks) \<and> map bt_token (spec_batch lg pos toks) = toks"
  by (auto simp: contiguous_def spec_batch_def nth_enumerate_eq comp_def case_prod_unfold intro: nth_equalityI)
     (simp add: enumerate_eq_zip)

lemma spec_batch_logits: "list_all bt_logits (spec_batch True pos toks)"
  by (auto simp: spec_batch_def list_all_iff)

lemma spec_prefill_ok:
  assumes L: "llama_ok L kv"
  shows "1 \<le> nb \<Longrightarrow> off = int (length (kv c 0)) \<Longrightarrow>
    \<exists>ok c' d' p'. spec_prefill L A nb c d p toks off = Some (ok, c', d', p') \<and> (ok \<longrightarrow> kv c' 0 = kv c 0 @ toks)"
proof (induction "length toks" arbitrary: c d p toks off rule: less_induct)
  case less
  show ?case
  proof (cases "toks = []")
    case True
    then show ?thesis by (auto simp: spec_prefill.simps)
  next
    case False
    let ?chunk = "take (nat nb) toks" and ?rest = "drop (nat nb) toks"
    have ne: "?chunk \<noteq> []" and lt: "length ?rest < length toks" using False less.prems(1) by auto
    obtain ret c1 where dec: "decode L c (spec_batch False off ?chunk) = (ret, c1)" by fastforce
    obtain ok p1 d1 where pr: "sp_process A p c1 d (spec_batch False off ?chunk) = (ok, p1, d1)" by (metis prod_cases3)
    have k: "ret = 0 \<longrightarrow> kv c1 0 = kv c 0 @ ?chunk"
      using decode_ok [OF L _ dec, of 0] spec_batch_ok [OF ne, of off False] less.prems(2) by simp
    show ?thesis
    proof (cases "ret = 0 \<and> ok")
      case False
      with dec pr \<open>toks \<noteq> []\<close> less.prems(1) show ?thesis by (subst spec_prefill.simps) auto
    next
      case True
      then have st: "spec_prefill L A nb c d p toks off = spec_prefill L A nb c1 d1 p1 ?rest (off + nb)"
        using dec pr \<open>toks \<noteq> []\<close> less.prems(1) by (subst spec_prefill.simps) simp
      show ?thesis
      proof (cases "?rest = []")
        case True
        with st k \<open>ret = 0 \<and> ok\<close> show ?thesis by (auto simp: spec_prefill.simps)
      next
        case False
        then have "off + nb = int (length (kv c1 0))" using k \<open>ret = 0 \<and> ok\<close> less.prems by simp
        from less.hyps [OF lt less.prems(1) this, of d1 p1] st k \<open>ret = 0 \<and> ok\<close> show ?thesis by auto
      qed
    qed
  qed
qed

section \<open>The loop\<close>

text \<open>
  \<open>delivered\<close>: the tokens \<open>out\<close> went to the caller and are the greedy continuation of the prompt \<open>P\<close>. \<open>aligned\<close>: the lane holds the
  committed tokens, and one sampled token is pending. A draft left from the round before is a replay: it is what the target
  chose itself, and its checkpoint is in place.
\<close>

definition delivered ::
  "(int list \<Rightarrow> int) \<Rightarrow> (int \<Rightarrow> bool) \<Rightarrow> ('e \<Rightarrow> int list) \<Rightarrow> int list \<Rightarrow> int list \<Rightarrow> int \<Rightarrow> int list \<Rightarrow> ('c, 'd, 'p, 's, 'e) spec_state \<Rightarrow> bool" where
  "delivered g eog toks P ts n_gen out s \<longleftrightarrow>
     toks (ss_cb s) = ts @ out \<and> ss_produced s = int (length out) \<and> greedy_gen g eog (length out) P = out \<and> int (length out) \<le> n_gen"

definition spec_aligned :: "('c \<Rightarrow> int \<Rightarrow> int list) \<Rightarrow> int list \<Rightarrow> ('c, 'd, 'p, 's, 'e) spec_state \<Rightarrow> bool" where
  "spec_aligned kv hist s \<longleftrightarrow>
     kv (ss_ctx s) 0 = ss_prompt s \<and> ss_n_past s = int (length (ss_prompt s)) \<and> ss_prompt s @ [ss_id_last s] = hist"

definition checkpointed :: "('c, 'd, 'p, 's) spec_api \<Rightarrow> ('c \<Rightarrow> int \<Rightarrow> int list) \<Rightarrow> ('c, 'd, 'p, 's, 'e) spec_state \<Rightarrow> bool" where
  "checkpointed A kv s \<longleftrightarrow>
     (\<exists>c. ss_ck_tgt s = sp_save A c \<and> kv c 0 = ss_prompt s)
     \<and> ss_ck_pos_max s = int (length (ss_prompt s)) - 1 \<and> ss_ck_tokens s = length (ss_prompt s)"

definition draft_ok ::
  "('c, 'd, 'p, 's) spec_api \<Rightarrow> ('c \<Rightarrow> int \<Rightarrow> int list) \<Rightarrow> bool \<Rightarrow> int \<Rightarrow> ('c, 'd, 'p, 's, 'e) spec_state \<Rightarrow> bool" where
  "draft_ok A kv use_tgt n_gen s \<longleftrightarrow>
     int (length (ss_draft s)) < n_gen - ss_produced s \<and> (use_tgt \<longrightarrow> ss_draft s \<noteq> [] \<longrightarrow> checkpointed A kv s)"

definition spec_inv ::
  "('c, 'd, 'p, 's) spec_api \<Rightarrow> ('c \<Rightarrow> int \<Rightarrow> int list) \<Rightarrow> (int list \<Rightarrow> int) \<Rightarrow> ('e \<Rightarrow> int list) \<Rightarrow> bool \<Rightarrow> int list \<Rightarrow> int list \<Rightarrow> int \<Rightarrow>
   int list \<Rightarrow> ('c, 'd, 'p, 's, 'e) spec_state \<Rightarrow> bool" where
  "spec_inv A kv g toks use_tgt P ts n_gen out s \<longleftrightarrow>
     delivered g (sp_is_eog A) toks P ts n_gen out s \<and> spec_aligned kv (P @ out) s
     \<and> (ss_draft s \<noteq> [] \<longrightarrow> draft_ok A kv use_tgt n_gen s \<and> chain g (P @ out) (ss_draft s))"

lemma propose_fields:
  assumes s': "s' = propose L A use_tgt use_dft n_gen s"
  shows "ss_ctx s' = ss_ctx s" "ss_prompt s' = ss_prompt s" "ss_id_last s' = ss_id_last s" "ss_n_past s' = ss_n_past s"
    "ss_produced s' = ss_produced s" "ss_cb s' = ss_cb s"
    "ss_ck_tokens s' = length (ss_prompt s)" "ss_ck_pos_max s' = seq_pos_max L (ss_ctx s) 0"
    "ss_draft s' \<noteq> [] \<Longrightarrow> use_tgt \<Longrightarrow> ss_ck_tgt s' = sp_save A (ss_ctx s)"
    "ss_draft s' = fst (sp_draft A (ss_spec s) (ss_ctx s) (ss_dft s) (draft_max A n_gen s) (ss_n_past s) (ss_id_last s) (ss_prompt s))"
proof -
  obtain draft p d where sd: "sp_draft A (ss_spec s) (ss_ctx s) (ss_dft s)
      (max (min (sp_n_ctx A (ss_ctx s) - ss_n_past s - 2) (n_gen - ss_produced s - 1)) 0) (ss_n_past s) (ss_id_last s) (ss_prompt s)
    = (draft, p, d)"
    by (metis prod_cases3)
  note defs = s' propose_def Let_def draft_max_def sd
  show "ss_ctx s' = ss_ctx s" "ss_prompt s' = ss_prompt s" "ss_id_last s' = ss_id_last s" "ss_n_past s' = ss_n_past s"
    "ss_produced s' = ss_produced s" "ss_cb s' = ss_cb s"
    "ss_ck_tokens s' = length (ss_prompt s)" "ss_ck_pos_max s' = seq_pos_max L (ss_ctx s) 0"
    "ss_draft s' \<noteq> [] \<Longrightarrow> use_tgt \<Longrightarrow> ss_ck_tgt s' = sp_save A (ss_ctx s)"
    "ss_draft s' = fst (sp_draft A (ss_spec s) (ss_ctx s) (ss_dft s) (draft_max A n_gen s) (ss_n_past s) (ss_id_last s) (ss_prompt s))"
    by (cases use_dft; auto simp: defs)+
qed

lemma propose_ok:
  assumes "llama_ok L kv" "spec_ok L A kv g probe" "spec_aligned kv hist s" "ss_produced s < n_gen"
  shows "draft_ok A kv use_tgt n_gen (propose L A use_tgt use_dft n_gen s)"
proof -
  let ?s = "propose L A use_tgt use_dft n_gen s"
  have "0 \<le> draft_max A n_gen s" "draft_max A n_gen s \<le> n_gen - ss_produced s - 1" using assms(4) by (simp_all add: draft_max_def)
  moreover have "0 \<le> n \<Longrightarrow> int (length (fst (sp_draft A p c d n np x pr))) \<le> n" for p c d n np x pr
    using assms(2) unfolding spec_ok_def by blast
  ultimately have "int (length (ss_draft ?s)) < n_gen - ss_produced s"
    unfolding propose_fields(10) [OF refl] by (smt (verit))
  moreover have "seq_pos_max L (ss_ctx s) 0 = int (length (ss_prompt s)) - 1"
    using assms(1,3) by (simp add: llama_ok_def spec_aligned_def)
  ultimately show ?thesis
    using assms(3) propose_fields [OF refl, of L A use_tgt use_dft n_gen s] by (auto simp: draft_ok_def checkpointed_def spec_aligned_def)
qed

lemma emit_ids_ok:
  assumes C: "delivers C toks"
  shows "emit_ids A C s ids = (stop, s') \<Longrightarrow> chain g (P @ out) ids \<Longrightarrow> ss_prompt s @ [ss_id_last s] = P @ out \<Longrightarrow>
    delivered g (sp_is_eog A) toks P ts n_gen out s \<Longrightarrow> int (length out + length ids) \<le> n_gen \<Longrightarrow>
    \<exists>out'. delivered g (sp_is_eog A) toks P ts n_gen out' s' \<and> ss_ctx s' = ss_ctx s \<and> ss_n_past s' = ss_n_past s \<and>
      (if stop then sp_is_eog A (g (P @ out')) else out' = out @ ids \<and> ss_prompt s' @ [ss_id_last s'] = P @ out')"
proof (induction ids arbitrary: s out)
  case Nil
  then show ?case by auto
next
  case (Cons t ids)
  define s1 where "s1 = s\<lparr>ss_prompt := ss_prompt s @ [ss_id_last s], ss_id_last := t, ss_step := ss_step s + 1\<rparr>"
  have t: "t = g (P @ out)" using Cons.prems(2) by simp
  show ?case
  proof (cases "sp_is_eog A t")
    case True
    then have "stop" "s' = s1" using Cons.prems(1) by (simp_all add: s1_def)
    then show ?thesis using Cons.prems(4) True t by (intro exI [of _ out]) (simp add: s1_def delivered_def)
  next
    case False
    let ?s2 = "s1\<lparr>ss_cb := on_token C t (ss_cb s1), ss_produced := ss_produced s1 + 1\<rparr>"
    have e: "emit_ids A C ?s2 ids = (stop, s')" using Cons.prems(1) False by (simp add: s1_def)
    have gg: "greedy_gen g (sp_is_eog A) (Suc (length out)) P = out @ [t]"
      using greedy_gen_snoc [of g "sp_is_eog A" out P] Cons.prems(4) False t by (simp add: delivered_def)
    have d: "delivered g (sp_is_eog A) toks P ts n_gen (out @ [t]) ?s2"
      using Cons.prems(4,5) C gg by (simp add: delivered_def s1_def delivers_def del: greedy_gen.simps)
    have "chain g (P @ (out @ [t])) ids" "ss_prompt ?s2 @ [ss_id_last ?s2] = P @ (out @ [t])" "int (length (out @ [t]) + length ids) \<le> n_gen"
      using Cons.prems(2,3,5) by (auto simp: s1_def)
    from Cons.IH [OF e this(1,2) d this(3)] obtain out' where "delivered g (sp_is_eog A) toks P ts n_gen out' s'" "ss_ctx s' = ss_ctx s"
      "ss_n_past s' = ss_n_past s"
      "if stop then sp_is_eog A (g (P @ out')) else out' = (out @ [t]) @ ids \<and> ss_prompt s' @ [ss_id_last s'] = P @ out'"
      by (auto simp: s1_def)
    then show ?thesis by (intro exI [of _ out']) simp
  qed
qed

lemma roll_back_inv:
  assumes L: "llama_ok L kv" and R: "rollback_ok L A kv True"
    and s: "delivered g (sp_is_eog A) toks P ts n_gen out s" "ss_prompt s @ [ss_id_last s] = P @ out" "checkpointed A kv s"
    and c: "kv (ss_ctx s) 0 = ss_prompt s @ rest"
    and ids: "chain g (P @ out) ids" "int (length ids) < n_gen - ss_produced s"
  shows "spec_inv A kv g toks True P ts n_gen out (roll_back L A smpl ids s)"
proof -
  obtain c0 where c0: "ss_ck_tgt s = sp_save A c0" "kv c0 0 = ss_prompt s" using s(3) by (auto simp: checkpointed_def)
  have n: "ss_ck_pos_max s + 1 = int (length (kv c0 0))" "ss_ck_tokens s = length (ss_prompt s)"
    using s(3) c0 by (simp_all add: checkpointed_def)
  have "kv (snd (seq_rm L (sp_save A c0 (ss_ctx s)) 0 (int (length (kv c0 0))) (-1))) 0 = kv c0 0"
    using R c unfolding c0(2) [symmetric] rollback_ok_def by auto
  then have "kv (ss_ctx (roll_back L A smpl ids s)) 0 = ss_prompt s" using c0 n(1) by (simp add: roll_back_def Let_def)
  then show ?thesis
    using s ids n by (auto simp: spec_inv_def spec_aligned_def delivered_def draft_ok_def checkpointed_def roll_back_def Let_def)
qed

lemma accept_ids_inv:
  assumes L: "llama_ok L kv" and R: "rollback_ok L A kv use_tgt" and C: "delivers C toks"
    and s: "delivered g (sp_is_eog A) toks P ts n_gen out s" "ss_prompt s @ [ss_id_last s] = P @ out"
      "ss_n_past s = int (length (ss_prompt s)) + 1" "kv (ss_ctx s) 0 = ss_prompt s @ ss_id_last s # ss_draft s"
    and ids: "ids = verify g (P @ out) (ss_draft s)" "use_tgt \<longrightarrow> length ids = Suc (length (ss_draft s))"
      "int (length (ss_draft s)) < n_gen - ss_produced s"
    and a: "accept_ids L A C ids s = (x, s')"
  shows "(x = None \<longrightarrow> (\<exists>out'. spec_inv A kv g toks use_tgt P ts n_gen out' s' \<and> length out < length out' \<and> ss_draft s' = []))
    \<and> (x \<noteq> None \<longrightarrow> x = Some End_of_generation \<and>
         (\<exists>out'. delivered g (sp_is_eog A) toks P ts n_gen out' s' \<and> sp_is_eog A (g (P @ out'))))"
proof -
  define n where "n = length ids - 1"
  define s1 where "s1 = s\<lparr>ss_spec := sp_accept A (ss_spec s) n, ss_n_past := ss_n_past s + int n,
      ss_drafted := ss_drafted s + int (length (ss_draft s)), ss_accepted := ss_accepted s + int n\<rparr>"
  obtain stop s2 where e: "emit_ids A C s1 ids = (stop, s2)" by fastforce
  have len: "length ids = Suc n" using ids(1) by (simp add: n_def)
  have le: "length ids \<le> Suc (length (ss_draft s))" using verify_length ids(1) by blast
  have "int (length out) = ss_produced s" using s(1) by (simp add: delivered_def)
  then have fit: "int (length out + length ids) \<le> n_gen" using le ids(3) by linarith
  have ch: "chain g (P @ out) ids" using verify_chain ids(1) by blast
  have s1: "ss_prompt s1 @ [ss_id_last s1] = P @ out" "delivered g (sp_is_eog A) toks P ts n_gen out s1"
    using s by (simp_all add: s1_def delivered_def)
  obtain out' where o: "delivered g (sp_is_eog A) toks P ts n_gen out' s2" "ss_ctx s2 = ss_ctx s" "ss_n_past s2 = ss_n_past s + int n"
    "if stop then sp_is_eog A (g (P @ out')) else out' = out @ ids \<and> ss_prompt s2 @ [ss_id_last s2] = P @ out'"
    using emit_ids_ok [OF C e ch s1 fit] unfolding s1_def by auto
  show ?thesis
  proof (cases stop)
    case True
    then have "x = Some End_of_generation" "s' = s2"
      using a e unfolding accept_ids_def Let_def n_def [symmetric] s1_def [symmetric] by simp_all
    then show ?thesis using o True by auto
  next
    case False
    obtain ok c where rm: "seq_rm L (ss_ctx s2) 0 (ss_n_past s2) (-1) = (ok, c)" by fastforce
    have x: "x = None" "s' = s2\<lparr>ss_draft := [], ss_ctx := c, ss_dft := sp_rm_dft A (ss_dft s2) (ss_n_past s2)\<rparr>"
      using a e False rm unfolding accept_ids_def Let_def n_def [symmetric] s1_def [symmetric] by simp_all
    have np: "ss_n_past s2 = int (length (ss_prompt s) + 1 + n)" using o(3) s(3) by simp
    have "fst (seq_rm L (ss_ctx s2) 0 (ss_n_past s2) (-1))" if "\<not> use_tgt" using R np that by (simp add: rollback_ok_def)
    then have "use_tgt \<or> ok" using rm by auto
    moreover have "kv c 0 = (if ok then take (nat (ss_n_past s2)) (kv (ss_ctx s2) 0) else kv (ss_ctx s2) 0)"
      using seq_rm_ok [OF L rm] np by simp
    moreover have "nat (ss_n_past s2) = length (ss_prompt s) + 1 + n" using np by simp
    ultimately have "kv c 0 = take (length (ss_prompt s) + 1 + n) (ss_prompt s @ ss_id_last s # ss_draft s)"
      using o(2) s(4) ids(2) len by auto
    moreover have "butlast ids = take n (ss_draft s)"
      using verify_butlast [of g "P @ out" "ss_draft s"] ids(1) by (simp add: n_def)
    ultimately have "kv c 0 = ss_prompt s @ ss_id_last s # butlast ids" by simp
    also have "\<dots> = butlast (P @ out @ ids)"
      using s(2) len by (metis append.assoc append_Cons append_Nil butlast_append length_0_conv nat.simps(3))
    also have "\<dots> = ss_prompt s2" using o(4) False by (metis append.assoc butlast_snoc)
    finally have k: "kv c 0 = ss_prompt s2" .
    have "length (ss_prompt s2) + 1 = length (ss_prompt s @ [ss_id_last s]) + length ids"
      using o(4) False s(2) by (metis length_append length_Cons append.assoc list.size(3) One_nat_def)
    then have "ss_n_past s2 = int (length (ss_prompt s2))" using np len by simp
    with k o(1,4) x False len show ?thesis
      by (auto simp: spec_inv_def spec_aligned_def delivered_def intro!: exI [of _ "out @ ids"])
  qed
qed

text \<open>One round: it keeps the invariant and makes progress, or leaves with a legitimate exit.\<close>

definition spec_rank :: "int \<Rightarrow> int list \<Rightarrow> ('c, 'd, 'p, 's, 'e) spec_state \<Rightarrow> nat" where
  "spec_rank n_gen out s = 2 * (nat n_gen - length out) + (if ss_draft s = [] then 1 else 0)"

text \<open>The faults behind an early exit; a decode counts only while the prompt and the budget together leave room for it.\<close>

fun fault :: "'c llama \<Rightarrow> ('c, 'd, 'p, 's) spec_api \<Rightarrow> 'e callbacks \<Rightarrow> ('c \<Rightarrow> int \<Rightarrow> int list) \<Rightarrow> int \<Rightarrow> spec_exit \<Rightarrow> bool" where
  "fault L A C kv room Polled \<longleftrightarrow> (\<exists>e. fst (poll_stop C e))"
| "fault L A C kv room Decode_failed \<longleftrightarrow>
     (\<exists>c b. contiguous 0 (int (length (kv c 0))) b \<and> int (length (kv c 0) + length b) < room \<and> fst (decode L c b) \<noteq> 0)"
| "fault L A C kv room Process_failed \<longleftrightarrow> (\<exists>p c d b. \<not> fst (sp_process A p c d b))"
| "fault L A C kv room x \<longleftrightarrow> False"

definition exit_ok ::
  "'c llama \<Rightarrow> ('c, 'd, 'p, 's) spec_api \<Rightarrow> 'e callbacks \<Rightarrow> ('c \<Rightarrow> int \<Rightarrow> int list) \<Rightarrow> (int list \<Rightarrow> int) \<Rightarrow> ('e \<Rightarrow> int list) \<Rightarrow>
   int list \<Rightarrow> int list \<Rightarrow> int \<Rightarrow> spec_exit \<Rightarrow> ('c, 'd, 'p, 's, 'e) spec_state \<Rightarrow> bool" where
  "exit_ok L A C kv g toks P ts n_gen x s \<longleftrightarrow>
     (\<exists>out. delivered g (sp_is_eog A) toks P ts n_gen out s \<and>
       (if x = End_of_generation then sp_is_eog A (g (P @ out)) else fault L A C kv (int (length P) + n_gen) x))"

lemma exit_okI:
  "fault L A C kv (int (length P) + n_gen) y \<Longrightarrow> delivered g (sp_is_eog A) toks P ts n_gen out s \<Longrightarrow> ss_cb t = ss_cb s \<Longrightarrow>
    ss_produced t = ss_produced s \<Longrightarrow> exit_ok L A C kv g toks P ts n_gen y t"
  by (cases y) (auto simp: exit_ok_def delivered_def intro!: exI [of _ out])

lemma verify_round_cases:
  assumes L: "llama_ok L kv" and S: "spec_ok L A kv g probe"
    and s: "delivered g (sp_is_eog A) toks P ts n_gen out s" "spec_aligned kv (P @ out) s" "draft_ok A kv use_tgt n_gen s"
    and r: "verify_round L A C use_tgt s = (x, s')"
  obtains (failed) y where "x = Some y" "exit_ok L A C kv g toks P ts n_gen y s'"
  | (verified) c i p d smpl s2 ids where
      "s2 = s\<lparr>ss_n_past := ss_n_past s + 1, ss_ctx := c, ss_iterations := i, ss_spec := p, ss_dft := d, ss_smpl := smpl\<rparr>"
      "kv c 0 = ss_prompt s @ ss_id_last s # ss_draft s" "ids = verify g (P @ out) (ss_draft s)"
      "(x, s') = (if use_tgt \<and> length ids - 1 < length (ss_draft s) then (None, roll_back L A (ss_smpl s) ids s2) else accept_ids L A C ids s2)"
proof -
  define b where "b = spec_batch True (ss_n_past s) (ss_id_last s # ss_draft s)"
  obtain ret c where d: "decode L (ss_ctx s) b = (ret, c)" by fastforce
  have b: "contiguous 0 (int (length (kv (ss_ctx s) 0))) b" "map bt_token b = ss_id_last s # ss_draft s" "list_all bt_logits b"
    using spec_batch_ok [of "ss_id_last s # ss_draft s" "ss_n_past s" True] s(2)
    by (simp_all add: b_def spec_aligned_def spec_batch_logits)
  obtain ok p2 d2 where pr: "sp_process A (ss_spec s) c (ss_dft s) b = (ok, p2, d2)" by (metis prod_cases3)
  obtain ids smpl where sm: "sp_sample_accept A (ss_smpl s) c (ss_draft s) = (ids, smpl)" by fastforce
  note eqs = d [unfolded b_def] pr [unfolded b_def] sm
  show thesis
  proof (cases "ret = 0 \<and> ok")
    case False
    have "length b = Suc (length (ss_draft s))" using b(2) by (metis length_Cons length_map)
    moreover have "length (kv (ss_ctx s) 0) + 1 = length P + length out" "ss_produced s = int (length out)"
      using s(1,2) unfolding spec_aligned_def delivered_def by (metis length_append length_append_singleton Suc_eq_plus1, simp)
    ultimately have "int (length (kv (ss_ctx s) 0) + length b) < int (length P) + n_gen"
      using s(3) unfolding draft_ok_def by linarith
    then have "ret \<noteq> 0 \<Longrightarrow> fault L A C kv (int (length P) + n_gen) Decode_failed" using b(1) d by fastforce
    moreover have "\<not> ok \<Longrightarrow> fault L A C kv (int (length P) + n_gen) Process_failed" using pr by (metis fault.simps(3) fst_conv)
    moreover have "x = Some (if ret \<noteq> 0 then Decode_failed else Process_failed)" "ss_cb s' = ss_cb s" "ss_produced s' = ss_produced s"
      using r eqs False by (auto simp: verify_round_def Let_def split: if_splits)
    ultimately show thesis using failed exit_okI [OF _ s(1)] False by (cases "ret = 0") auto
  next
    case True
    have ids: "ids = verify g (P @ out) (ss_draft s)"
      using S b d True sm s(2) unfolding spec_ok_def spec_aligned_def by (metis fst_conv)
    have k: "kv c 0 = ss_prompt s @ ss_id_last s # ss_draft s"
      using decode_ok [OF L b(1) d] True b(2) s(2) by (simp add: spec_aligned_def)
    have "ids \<noteq> []" using ids by simp
    then have "(x, s') = (if use_tgt \<and> length ids - 1 < length (ss_draft s) then (None, roll_back L A (ss_smpl s) ids
          (s\<lparr>ss_n_past := ss_n_past s + 1, ss_ctx := c, ss_iterations := ss_iterations s + 1, ss_spec := p2, ss_dft := d2, ss_smpl := smpl\<rparr>))
        else accept_ids L A C ids
          (s\<lparr>ss_n_past := ss_n_past s + 1, ss_ctx := c, ss_iterations := ss_iterations s + 1, ss_spec := p2, ss_dft := d2, ss_smpl := smpl\<rparr>))"
      using r eqs True by (simp add: verify_round_def Let_def)
    then show thesis by (rule verified [OF refl k ids])
  qed
qed

lemma verify_round_ok:
  assumes L: "llama_ok L kv" and S: "spec_ok L A kv g probe" and R: "rollback_ok L A kv use_tgt" and C: "delivers C toks"
    and s: "delivered g (sp_is_eog A) toks P ts n_gen out s" "spec_aligned kv (P @ out) s" "draft_ok A kv use_tgt n_gen s"
    and r: "verify_round L A C use_tgt s = (x, s')"
  shows "case x of
      None \<Rightarrow> \<exists>out'. spec_inv A kv g toks use_tgt P ts n_gen out' s' \<and>
        (length out < length out' \<or> out' = out \<and> ss_draft s' \<noteq> [] \<and> \<not> chain g (P @ out) (ss_draft s))
    | Some x \<Rightarrow> exit_ok L A C kv g toks P ts n_gen x s'"
  using L S s r
proof (cases rule: verify_round_cases)
  case failed
  then show ?thesis by simp
next
  case (verified c i p d smpl s2 ids)
  have s2: "delivered g (sp_is_eog A) toks P ts n_gen out s2" "ss_prompt s2 @ [ss_id_last s2] = P @ out"
    "ss_n_past s2 = int (length (ss_prompt s2)) + 1" "kv (ss_ctx s2) 0 = ss_prompt s2 @ ss_id_last s2 # ss_draft s2"
    "int (length (ss_draft s2)) < n_gen - ss_produced s2" "ss_draft s2 = ss_draft s"
    using s verified(1,2) by (simp_all add: delivered_def spec_aligned_def draft_ok_def)
  have ids: "ids = verify g (P @ out) (ss_draft s2)" using verified(3) s2(6) by simp
  show ?thesis
  proof (cases "use_tgt \<and> length ids - 1 < length (ss_draft s)")
    case True
    then have ck: "checkpointed A kv s2" using s(3) verified(1) by (auto simp: draft_ok_def checkpointed_def)
    have "length ids \<le> length (ss_draft s2)" using True s2(6) by auto
    then have "int (length ids) < n_gen - ss_produced s2" using s2(5) by linarith
    then have "spec_inv A kv g toks True P ts n_gen out (roll_back L A (ss_smpl s) ids s2)"
      using roll_back_inv [OF L _ s2(1,2) ck s2(4)] R True ids verify_chain by metis
    moreover have "\<not> chain g (P @ out) (ss_draft s)" using True verify_accepts verified(3) by fastforce
    moreover have "ss_draft (roll_back L A (ss_smpl s) ids s2) \<noteq> []" using ids by (simp add: roll_back_def Let_def)
    ultimately show ?thesis using verified(4) True by auto
  next
    case False
    then have a: "accept_ids L A C ids s2 = (x, s')" using verified(4) unfolding if_not_P [OF False] by simp
    have "0 < length ids" "length ids \<le> Suc (length (ss_draft s2))" using ids verify_length by auto
    then have "use_tgt \<longrightarrow> length ids = Suc (length (ss_draft s2))" using False s2(6) by (cases ids) auto
    from accept_ids_inv [OF L R C s2(1-4) ids this s2(5) a] show ?thesis
      by (cases x) (auto simp: exit_ok_def)
  qed
qed

text \<open>One round: it keeps the invariant and makes progress, or leaves with a legitimate exit.\<close>

lemma spec_round_ok:
  assumes L: "llama_ok L kv" and S: "spec_ok L A kv g probe" and R: "rollback_ok L A kv use_tgt" and C: "delivers C toks"
    and s: "spec_inv A kv g toks use_tgt P ts n_gen out s" "ss_produced s < n_gen"
    and r: "spec_round L A C use_tgt use_dft n_gen s = (x, s')"
  shows "case x of
      None \<Rightarrow> \<exists>out'. spec_inv A kv g toks use_tgt P ts n_gen out' s' \<and> spec_rank n_gen out' s' < spec_rank n_gen out s
    | Some x \<Rightarrow> exit_ok L A C kv g toks P ts n_gen x s'"
proof -
  obtain stop e where p: "poll_stop C (ss_cb s) = (stop, e)" by fastforce
  define s0 where "s0 = s\<lparr>ss_cb := e\<rparr>"
  have "toks e = toks (ss_cb s)" using C p unfolding delivers_def by (metis snd_conv)
  then have i0: "spec_inv A kv g toks use_tgt P ts n_gen out s0"
    using s(1) by (auto simp: s0_def spec_inv_def delivered_def spec_aligned_def draft_ok_def checkpointed_def)
  define s1 where "s1 = (if ss_draft s0 = [] then propose L A use_tgt use_dft n_gen s0 else s0)"
  have s1: "delivered g (sp_is_eog A) toks P ts n_gen out s1" "spec_aligned kv (P @ out) s1" "draft_ok A kv use_tgt n_gen s1"
    using i0 s(2) propose_ok [OF L S, of "P @ out" s0 n_gen use_tgt use_dft] propose_fields [OF refl, of L A use_tgt use_dft n_gen s0]
    by (auto simp: s1_def spec_inv_def delivered_def spec_aligned_def) (auto simp: s0_def)
  have replay: "chain g (P @ out) (ss_draft s1)" if "ss_draft s \<noteq> []"
    using i0 that by (simp add: s1_def spec_inv_def s0_def)
  have rd: "spec_round L A C use_tgt use_dft n_gen s = (if stop then (Some Polled, s0) else verify_round L A C use_tgt s1)"
    by (simp add: spec_round_def p s0_def s1_def)
  show ?thesis
  proof (cases stop)
    case True
    then have "fst (poll_stop C (ss_cb s))" using p by simp
    then have "fault L A C kv (int (length P) + n_gen) Polled" by auto
    then show ?thesis using True r rd i0 exit_okI [of L A C kv P n_gen Polled g toks ts out s0 s0] by (auto simp: spec_inv_def)
  next
    case False
    then have v: "verify_round L A C use_tgt s1 = (x, s')" using r rd by simp
    have "spec_rank n_gen out' s' < spec_rank n_gen out s"
      if "spec_inv A kv g toks use_tgt P ts n_gen out' s'"
        "length out < length out' \<or> out' = out \<and> ss_draft s' \<noteq> [] \<and> \<not> chain g (P @ out) (ss_draft s1)" for out'
      using that replay by (auto simp: spec_rank_def spec_inv_def delivered_def)
    with verify_round_ok [OF L S R C s1 v] show ?thesis by (cases x) auto
  qed
qed

lemma spec_loop_ok:
  assumes L: "llama_ok L kv" and S: "spec_ok L A kv g probe" and R: "rollback_ok L A kv use_tgt" and C: "delivers C toks"
  shows "spec_inv A kv g toks use_tgt P ts n_gen out s \<Longrightarrow>
    \<exists>x s'. spec_loop L A C use_tgt use_dft n_gen s = Some (x, s') \<and>
      (case x of None \<Rightarrow> \<exists>out'. delivered g (sp_is_eog A) toks P ts n_gen out' s' \<and> \<not> ss_produced s' < n_gen
       | Some x \<Rightarrow> exit_ok L A C kv g toks P ts n_gen x s')"
proof (induction "spec_rank n_gen out s" arbitrary: out s rule: less_induct)
  case less
  show ?case
  proof (cases "ss_produced s < n_gen")
    case False
    then show ?thesis using less.prems by (subst spec_loop.simps) (auto simp: spec_inv_def)
  next
    case True
    obtain x s1 where r: "spec_round L A C use_tgt use_dft n_gen s = (x, s1)" by fastforce
    from spec_round_ok [OF L S R C less.prems True r] show ?thesis
    proof (cases x)
      case (Some y)
      with spec_round_ok [OF L S R C less.prems True r] show ?thesis using True r by (subst spec_loop.simps) simp
    next
      case None
      with spec_round_ok [OF L S R C less.prems True r] obtain out' where
        "spec_inv A kv g toks use_tgt P ts n_gen out' s1" "spec_rank n_gen out' s1 < spec_rank n_gen out s" by auto
      from less.hyps [OF this(2,1)] show ?thesis using True r None by (subst spec_loop.simps) simp
    qed
  qed
qed

section \<open>Losslessness\<close>

text \<open>
  What the caller sees: a run that ends on its own has delivered the whole greedy continuation; a run that ends early has
  delivered a prefix of it, and one of the faults occurred.
\<close>

definition lossless ::
  "'c llama \<Rightarrow> ('c, 'd, 'p, 's) spec_api \<Rightarrow> 'e callbacks \<Rightarrow> ('c \<Rightarrow> int \<Rightarrow> int list) \<Rightarrow> (int list \<Rightarrow> int) \<Rightarrow> ('e \<Rightarrow> int list) \<Rightarrow>
   int list \<Rightarrow> int list \<Rightarrow> int \<Rightarrow> spec_exit option \<Rightarrow> ('c, 'd, 'p, 's, 'e) spec_state \<Rightarrow> bool" where
  "lossless L A C kv g toks P ts n_gen x s \<longleftrightarrow>
     (let ref = greedy_gen g (sp_is_eog A) (nat n_gen) P; out = drop (length ts) (toks (ss_cb s))
      in toks (ss_cb s) = ts @ out \<and> ss_produced s = int (length out)
         \<and> (if x = None \<or> x = Some End_of_generation then out = ref
            else out = take (length out) ref \<and> fault L A C kv (int (length P) + n_gen) (the x)))"

lemma delivered_lossless:
  assumes "delivered g (sp_is_eog A) toks P ts n_gen out s" "x = None \<Longrightarrow> \<not> ss_produced s < n_gen"
    "x = Some End_of_generation \<Longrightarrow> sp_is_eog A (g (P @ out))"
    "\<And>y. x = Some y \<Longrightarrow> y \<noteq> End_of_generation \<Longrightarrow> fault L A C kv (int (length P) + n_gen) y"
  shows "lossless L A C kv g toks P ts n_gen x s"
proof -
  let ?eog = "sp_is_eog A"
  have d: "toks (ss_cb s) = ts @ out" "ss_produced s = int (length out)" "greedy_gen g ?eog (length out) P = out" "int (length out) \<le> n_gen"
    using assms(1) by (simp_all add: delivered_def)
  have "x = None \<Longrightarrow> out = greedy_gen g ?eog (nat n_gen) P"
  proof -
    assume "x = None"
    with assms(2) d(2,4) have "nat n_gen = length out" by simp
    then show ?thesis using d(3) by simp
  qed
  moreover have "x = Some End_of_generation \<Longrightarrow> out = greedy_gen g ?eog (nat n_gen) P"
    using greedy_gen_stop [OF d(3)] assms(3) d(4) by (simp add: le_nat_iff)
  moreover have "out = take (length out) (greedy_gen g ?eog (nat n_gen) P)"
    using greedy_gen_take [of "length out" "nat n_gen" g ?eog P] d(3,4) by (simp add: le_nat_iff)
  ultimately show ?thesis using d(1,2) assms(4) by (cases x) (auto simp: lossless_def Let_def)
qed

lemma spec_start_inv:
  assumes "prompt \<noteq> []" "0 < n_gen" "kv c 0 = butlast prompt"
  shows "spec_inv A kv g toks use_tgt prompt (toks e) n_gen [] (spec_start A c d p prompt e)"
proof -
  let ?s = "spec_start A c d p prompt e"
  have "ss_n_past ?s = int (length (ss_prompt ?s))" using assms(1) by (cases prompt) (simp_all add: spec_start_def)
  moreover have "ss_ctx ?s = c" "ss_cb ?s = e" "ss_produced ?s = 0" "ss_draft ?s = []" "ss_prompt ?s = butlast prompt"
    "ss_prompt ?s @ [ss_id_last ?s] = prompt" using assms(1) by (simp_all add: spec_start_def)
  ultimately show ?thesis using assms(2,3) unfolding spec_inv_def delivered_def spec_aligned_def by (intro conjI) simp_all
qed

lemma spec_loop_lossless:
  assumes L: "llama_ok L kv" and S: "spec_ok L A kv g probe" and R: "rollback_ok L A kv use_tgt" and C: "delivers C toks"
    and s: "spec_inv A kv g toks use_tgt P ts n_gen [] s"
  shows "\<exists>x s'. spec_loop L A C use_tgt use_dft n_gen s = Some (x, s') \<and> lossless L A C kv g toks P ts n_gen x s'"
proof -
  obtain x s' where lp: "spec_loop L A C use_tgt use_dft n_gen s = Some (x, s')"
    "case x of None \<Rightarrow> \<exists>out'. delivered g (sp_is_eog A) toks P ts n_gen out' s' \<and> \<not> ss_produced s' < n_gen
     | Some x \<Rightarrow> exit_ok L A C kv g toks P ts n_gen x s'"
    using spec_loop_ok [OF L S R C s] by blast
  show ?thesis
  proof (cases x)
    case None
    with lp(2) obtain out where "delivered g (sp_is_eog A) toks P ts n_gen out s'" "\<not> ss_produced s' < n_gen" by auto
    then have "lossless L A C kv g toks P ts n_gen x s'" using None by (intro delivered_lossless) simp_all
    then show ?thesis using lp(1) by blast
  next
    case (Some y)
    with lp(2) obtain out where "delivered g (sp_is_eog A) toks P ts n_gen out s'"
      "if y = End_of_generation then sp_is_eog A (g (P @ out)) else fault L A C kv (int (length P) + n_gen) y" by (auto simp: exit_ok_def)
    then have "lossless L A C kv g toks P ts n_gen x s'" using Some by (intro delivered_lossless) simp_all
    then show ?thesis using lp(1) by blast
  qed
qed

lemma spec_prefill_fault:
  assumes L: "llama_ok L kv"
  shows "1 \<le> nb \<Longrightarrow> off = int (length (kv c 0)) \<Longrightarrow> int (length (kv c 0) + length toks) < room \<Longrightarrow>
    spec_prefill L A nb c d p toks off = Some (False, r) \<Longrightarrow> fault L A C kv room Decode_failed \<or> fault L A C kv room Process_failed"
proof (induction "length toks" arbitrary: c d p toks off rule: less_induct)
  case less
  let ?chunk = "take (nat nb) toks" and ?rest = "drop (nat nb) toks"
  have t: "toks \<noteq> []" using less.prems(4) by (auto simp: spec_prefill.simps)
  then have ne: "?chunk \<noteq> []" and lt: "length ?rest < length toks" using less.prems(1) by auto
  obtain ret c1 where dec: "decode L c (spec_batch False off ?chunk) = (ret, c1)" by fastforce
  obtain ok p1 d1 where pr: "sp_process A p c1 d (spec_batch False off ?chunk) = (ok, p1, d1)" by (metis prod_cases3)
  have b: "contiguous 0 (int (length (kv c 0))) (spec_batch False off ?chunk)" "map bt_token (spec_batch False off ?chunk) = ?chunk"
    using spec_batch_ok [OF ne] less.prems(2) by auto
  have len: "length (spec_batch False off ?chunk) = length ?chunk" using b(2) by (metis length_map)
  consider "ret \<noteq> 0" | "ret = 0" "\<not> ok" | "ret = 0" ok by blast
  then show ?case
  proof cases
    case 1
    have "int (length (kv c 0) + length (spec_batch False off ?chunk)) < room" using less.prems(3) len by auto
    then show ?thesis using b(1) dec 1 by fastforce
  next
    case 2
    then show ?thesis using pr by (metis fault.simps(3) fst_conv)
  next
    case 3
    have st: "spec_prefill L A nb c1 d1 p1 ?rest (off + nb) = Some (False, r)"
      using less.prems(1,4) dec pr 3 t by (subst (asm) spec_prefill.simps) simp
    have k: "kv c1 0 = kv c 0 @ ?chunk" using decode_ok [OF L b(1) dec] 3 b(2) by simp
    have "?rest \<noteq> []" using st by (auto simp: spec_prefill.simps)
    then have "off + nb = int (length (kv c1 0))" using k less.prems(1,2) by simp
    moreover have "int (length (kv c1 0) + length ?rest) < room" using k less.prems(3) by auto
    ultimately show ?thesis using less.hyps [OF lt less.prems(1) _ _ st] by blast
  qed
qed

lemma spec_mtp_generate_cases:
  assumes L: "llama_ok L kv" and S: "spec_ok L A kv g probe" and C: "delivers C toks" and e: "probe \<noteq> None \<longrightarrow> kv c 0 = []"
    and p: "prompt \<noteq> []" "0 < n_gen" and d: "sp_init_ctx A n_max p_min c = Some d" and w: "\<forall>c d. sp_new A c d \<noteq> None"
  shows "\<exists>probe'. (\<exists>x s. spec_mtp_generate L A C probe c prompt n_max p_min n_gen e = Some (Generated x s, probe')
        \<and> lossless L A C kv g toks prompt (toks e) n_gen x s)
    \<or> (\<exists>c'. spec_mtp_generate L A C probe c prompt n_max p_min n_gen e = Some (Prefill_failed c', probe')
        \<and> (fault L A C kv (int (length prompt) + n_gen) Decode_failed \<or> fault L A C kv (int (length prompt) + n_gen) Process_failed))"
proof -
  obtain ut ud c1 d1 where pc: "probe_contexts A probe c d = ((ut, ud), c1, d1)" by (metis prod.collapse)
  have c1: "kv c1 0 = []" "rollback_ok L A kv ut"
    using pc S e unfolding spec_ok_def probe_contexts_def by (auto split: option.splits prod.splits) (metis fst_conv snd_conv)+
  obtain p1 where n: "sp_new A c1 d1 = Some p1" using w by blast
  obtain ok c2 d2 p2 where pf: "spec_prefill L A (n_batch L c1) c1 d1 p1 (butlast prompt) 0 = Some (ok, c2, d2, p2)"
    "ok \<longrightarrow> kv c2 0 = butlast prompt"
    using spec_prefill_ok [OF L llama_mem(2) [OF L], of 0 c1 A c1 d1 p1 "butlast prompt"] c1(1) by auto
  have g: "spec_mtp_generate L A C probe c prompt n_max p_min n_gen e =
      (if ok then map_option (\<lambda>(x, s). (Generated x s, Some (ut, ud))) (spec_loop L A C ut ud n_gen (spec_start A c2 d2 p2 prompt e))
       else Some (Prefill_failed c2, Some (ut, ud)))"
    using p d pc n pf(1) by (simp add: spec_mtp_generate_def)
  show ?thesis
  proof (cases ok)
    case True
    then have "spec_inv A kv g toks ut prompt (toks e) n_gen [] (spec_start A c2 d2 p2 prompt e)"
      using pf(2) p by (intro spec_start_inv) simp_all
    from spec_loop_lossless [OF L S c1(2) C this, of ud] g True show ?thesis by auto
  next
    case False
    have "int (length (kv c1 0) + length (butlast prompt)) < int (length prompt) + n_gen" using c1(1) p(2) by simp
    from spec_prefill_fault [OF L llama_mem(2) [OF L] _ this] g False pf(1) c1(1) show ?thesis by fastforce
  qed
qed

section \<open>Properties\<close>


text \<open>
  Speculative generation delivers: when the prompt and the token budget fit in the context, so that no decode within them fails,
  the speculator processes every batch and the caller does not stop the run, the whole greedy continuation of \<^verbatim>\<open>n_gen\<close> tokens (up to
  the end of generation) is delivered.
\<close>

theorem spec_mtp_delivers:
  assumes "llama_ok L kv" "spec_ok L A kv g probe" "delivers C toks" "probe \<noteq> None \<longrightarrow> kv c 0 = []"
    "prompt \<noteq> []" "0 < n_gen" "sp_init_ctx A n_max p_min c = Some d" "\<forall>c d. sp_new A c d \<noteq> None"
    "\<forall>x. \<not> fault L A C kv (int (length prompt) + n_gen) x"
  shows "\<exists>x s probe'. spec_mtp_generate L A C probe c prompt n_max p_min n_gen e = Some (Generated x s, probe')
    \<and> toks (ss_cb s) = toks e @ greedy_gen g (sp_is_eog A) (nat n_gen) prompt"
proof -
  obtain x s probe' where g: "spec_mtp_generate L A C probe c prompt n_max p_min n_gen e = Some (Generated x s, probe')"
    and l: "lossless L A C kv g toks prompt (toks e) n_gen x s"
    using spec_mtp_generate_cases [OF assms(1-8)] assms(9) by blast
  have "x = None \<or> x = Some End_of_generation" using l assms(9) by (auto simp: lossless_def Let_def split: if_splits)
  with l have "toks (ss_cb s) = toks e @ greedy_gen g (sp_is_eog A) (nat n_gen) prompt" unfolding lossless_def Let_def by metis
  with g show ?thesis by blast
qed

section \<open>A concrete library\<close>

text \<open>
  The target counts upwards and ends before eight; the draft head guesses the next token right and the one after wrong, so that every
  round with room for two drafts rolls back and replays.
\<close>

definition count_up :: "int list \<Rightarrow> int" where
  "count_up p = last p + 1"

definition demo_spec :: "(ref_ctx, unit, unit, unit) spec_api" where
  "demo_spec = \<lparr>sp_init_ctx = (\<lambda>n p c. Some ()), sp_full_rm = (\<lambda>c. (True, c(0 := []))), sp_full_rm_dft = (\<lambda>d. (False, d)),
     sp_new = (\<lambda>c d. Some ()), sp_process = (\<lambda>p c d b. (True, p, d)), sp_begin = (\<lambda>p t. p),
     sp_draft = (\<lambda>p c d n np x pr. (take (nat n) [x + 1, 0], p, d)), sp_accept = (\<lambda>p n. p), sp_sampler = (),
     sp_sample_accept = (\<lambda>s c draft. (verify count_up (take (length (c 0) - length draft) (c 0)) draft, s)),
     sp_save = (\<lambda>c c'. c), sp_save_dft = (\<lambda>d d'. d), sp_rm_dft = (\<lambda>d p. d), sp_n_ctx = (\<lambda>c. 64), sp_is_eog = (\<lambda>t. t = 8)\<rparr>"

definition demo_callbacks :: "int list callbacks" where
  "demo_callbacks = \<lparr>on_token = (\<lambda>t e. e @ [t]), poll_stop = (\<lambda>e. (False, e))\<rparr>"

lemma demo_spec_ok: "spec_ok ref_llama demo_spec (\<lambda>c. c) count_up None"
proof -
  have "bt_seq (hd b) = 0" if "contiguous 0 p b" for p b
    using that by (auto simp: contiguous_def hd_conv_nth)
  then show ?thesis
    by (auto simp: spec_ok_def demo_spec_def rollback_ok_def ref_llama_def)
qed

lemma demo_callbacks_ok: "delivers demo_callbacks (\<lambda>e. e)"
  by (simp add: delivers_def demo_callbacks_def)

lemma demo_no_fault: "\<not> fault ref_llama demo_spec demo_callbacks kv room x"
  by (cases x) (simp_all add: ref_llama_def demo_spec_def demo_callbacks_def)


theorem spec_mtp_delivers_witness:
  "\<exists>x s probe'. spec_mtp_generate ref_llama demo_spec demo_callbacks None (\<lambda>s. []) [1, 2, 3] 8 (Fin 0) 10 [] = Some (Generated x s, probe')
    \<and> ss_cb s = [4, 5, 6, 7]"
proof -
  have "greedy_gen count_up (sp_is_eog demo_spec) (nat 10) [1, 2, 3] = [4, 5, 6, 7]" by code_simp
  then show ?thesis
    using spec_mtp_delivers [OF ref_llama_ok demo_spec_ok demo_callbacks_ok, of "\<lambda>s. []" "[1, 2, 3]" 10 8 "Fin 0" "()" "[]"] demo_no_fault
    by (simp add: demo_spec_def)
qed

end
