(* ===== verification/Cne_Bench.thy ===== *)
theory Cne_Bench
  imports Runtime_Boot Spec_Mtp Server_Stream
begin

text \<open>
  \<^verbatim>\<open>tools/cne-bench.cpp\<close>: one greedy generation, sequential or speculative, or the perplexity of a text, over the modelled runtime. llama.cpp
  is the record of theory \<open>Session\<close> with its tokenizer, sampler and memory; what the evaluation callbacks do to the streaming state during
  a decode is a field. The logarithm of each scored token and their sum, timing, the dump files and the report are left out.
\<close>

section \<open>Arguments\<close>

record bench_opts =
  bo_model :: string
  bo_cap_gib :: u64
  bo_n_gen :: int
  bo_verify_n :: u64
  bo_rebind :: bool

definition arg_or :: "string list \<Rightarrow> nat \<Rightarrow> (string \<Rightarrow> 'a) \<Rightarrow> 'a \<Rightarrow> 'a" where
  "arg_or args i f d = (if length args > i then f (args ! i) else d)"

definition bench_args :: "string list \<Rightarrow> bench_opts option" where
  "bench_args args =
     (if args = [] then None
      else Some \<lparr>bo_model = args ! 0, bo_cap_gib = arg_or args 1 (\<lambda>v. word_of_int (atoll v)) 8, bo_n_gen = arg_or args 2 atoi 64,
                 bo_verify_n = arg_or args 3 (\<lambda>v. word_of_int (atoll v)) 64, bo_rebind = arg_or args 4 (\<lambda>v. atoi v \<noteq> 0) True\<rparr>)"

definition bench_settings :: "bench_opts \<Rightarrow> runtime_settings" where
  "bench_settings o1 =
     \<lparr>rs_model_path = bo_model o1, rs_cap_gib = bo_cap_gib o1, rs_n_ctx = 256, rs_n_threads = 8, rs_stream_on = bo_rebind o1\<rparr>"

section \<open>The world of the driver\<close>

record ('c, 'd, 'p, 's) bench_api =
  bn_llama :: "'c llama"
  bn_spec :: "('c, 'd, 'p, 's) spec_api"
  bn_ctx :: "context_params \<Rightarrow> 'c"
  bn_tok :: tokenizer
  bn_read :: "string \<Rightarrow> string option"
  bn_sample :: "'c \<Rightarrow> int"
  bn_clear :: "'c \<Rightarrow> 'c"
  bn_eval :: "'c \<Rightarrow> batch_token list \<Rightarrow> stream \<Rightarrow> stream"
  bn_spec_eval :: "'c \<Rightarrow> stream \<Rightarrow> stream"
  bn_order :: "stream \<Rightarrow> string list"
  bn_trim :: "stream \<Rightarrow> (u64 \<times> u64) list"

text \<open>\<^verbatim>\<open>llama_batch_get_one\<close>: the next positions of the lane, logits for the last token only.\<close>

definition batch_get_one :: "'c llama \<Rightarrow> 'c \<Rightarrow> int list \<Rightarrow> batch_token list" where
  "batch_get_one L c toks =
     map (\<lambda>(j, t). \<lparr>bt_token = t, bt_pos = seq_pos_max L c 0 + 1 + int j, bt_seq = 0, bt_logits = (Suc j = length toks)\<rparr>) (enumerate 0 toks)"

definition bench_decode :: "('c, 'd, 'p, 's) bench_api \<Rightarrow> 'c \<Rightarrow> stream \<Rightarrow> batch_token list \<Rightarrow> bool \<times> 'c \<times> stream" where
  "bench_decode W c st b = (let (ret, c') = decode (bn_llama W) c b in (ret = 0, c', bn_eval W c b st))"

text \<open>The buffer is doubled when the required count is exactly its size, and grown to the count in the next round.\<close>

partial_function (option) bench_tok_loop :: "(int \<Rightarrow> int \<times> int list) \<Rightarrow> int \<Rightarrow> nat \<Rightarrow> int list option" where
  "bench_tok_loop tk n cap =
     (let cap = (if nat (- n) > cap then nat (- n) else cap); (n, out) = tk (to_i32 (int cap))
      in if n \<ge> 0 then Some (resize (nat n) 0 out)
         else bench_tok_loop tk n (if nat (- n) = cap then cap * 2 else cap))"

section \<open>Perplexity\<close>

text \<open>
  Windows of \<^verbatim>\<open>n_ctx\<close> tokens, each decoded into an empty lane. A scored token is the context whose logits are read, the index of
  the output and the token. \<open>None\<close>: a decode failed.
\<close>

function ppl_loop :: "('c, 'd, 'p, 's) bench_api \<Rightarrow> nat \<Rightarrow> 'c \<Rightarrow> stream \<Rightarrow> int list \<Rightarrow> nat \<Rightarrow> (('c \<times> nat \<times> int) list \<times> nat \<times> 'c \<times> stream) option" where
  "ppl_loop W nw c st rest wins =
     (if \<not> 1 < length rest then Some ([], wins, c, st)
      else let n = min nw (length rest)
           in if n < 2 then Some ([], wins, c, st)
              else let (ok, c, st) = bench_decode W c st (spec_batch True 0 (take n rest))
                   in if \<not> ok then None
                      else map_option (\<lambda>(ts, r). (map (\<lambda>i. (c, i, rest ! Suc i)) [0..<n - 1] @ ts, r))
                             (ppl_loop W nw (bn_clear W c) st (drop nw rest) (Suc wins)))"
  by pat_completeness auto
termination
  by (relation "measure (\<lambda>(W, nw, c, st, rest, wins). length rest)") auto

declare ppl_loop.simps [simp del]

section \<open>Generation\<close>

text \<open>
  \<open>None\<close>: with \<^verbatim>\<open>SPLIT_PREFILL\<close> and fewer than two tokens, the first batch holds a token that was never written.
\<close>

definition bench_prefill :: "('c, 'd, 'p, 's) bench_api \<Rightarrow> int \<Rightarrow> bool \<Rightarrow> int list \<Rightarrow> 'c \<Rightarrow> stream \<Rightarrow> (bool \<times> 'c \<times> stream) option" where
  "bench_prefill W mtp_k split1 toks c st =
     (if mtp_k > 0 then Some (True, c, st)
      else if split1 then
        (if length toks < 2 then None
         else let (ok, c, st) = bench_decode W c st (spec_batch False 0 (butlast toks))
              in Some (if ok then bench_decode W c st (batch_get_one (bn_llama W) c [last toks]) else (False, c, st)))
      else Some (bench_decode W c st (batch_get_one (bn_llama W) c toks)))"

text \<open>The result: whether no decode failed, the tokens printed, and the states.\<close>

fun bench_loop :: "('c, 'd, 'p, 's) bench_api \<Rightarrow> host \<Rightarrow> bool \<Rightarrow> nat \<Rightarrow> int \<Rightarrow> 'c \<Rightarrow> stream \<Rightarrow> bool \<times> int list \<times> 'c \<times> stream" where
  "bench_loop W h ignore_eos 0 i c st = (True, [], c, st)"
| "bench_loop W h ignore_eos (Suc k) i c st =
     (let t = bn_sample W c
      in if \<not> ignore_eos \<and> sp_is_eog (bn_spec W) t then (True, [], c, st)
         else let st = stream_set_step st i; (ok, c, st) = bench_decode W c st (batch_get_one (bn_llama W) c [t])
              in if \<not> ok then (False, [t], c, st)
                 else let st = stream_prefetch_kick_full st (bn_order W st); st = stream_step_boundary h st (bn_trim W st);
                          (ok, ts, c, st) = bench_loop W h ignore_eos k (i + 1) c st
                      in (ok, t # ts, c, st))"

definition bench_callbacks :: "int list callbacks" where
  "bench_callbacks = \<lparr>on_token = (\<lambda>t e. e @ [t]), poll_stop = (\<lambda>e. (False, e))\<rparr>"

definition bench_spec :: "('c, 'd, 'p, 's) bench_api \<Rightarrow> int \<Rightarrow> fpv \<Rightarrow> int \<Rightarrow> int list \<Rightarrow> 'c \<Rightarrow> int list option" where
  "bench_spec W mtp_k p_min n_gen toks c =
     map_option (\<lambda>(oc, _). case oc of Generated x s \<Rightarrow> ss_cb s | _ \<Rightarrow> [])
       (spec_mtp_generate (bn_llama W) (bn_spec W) bench_callbacks None c toks mtp_k p_min n_gen [])"

definition bench_generate ::
  "('c, 'd, 'p, 's) bench_api \<Rightarrow> host \<Rightarrow> int \<Rightarrow> fpv \<Rightarrow> bool \<Rightarrow> int \<Rightarrow> int list \<Rightarrow> 'c \<Rightarrow> stream \<Rightarrow> (bool \<times> int list \<times> stream) option" where
  "bench_generate W h mtp_k p_min ignore_eos n_gen toks c st =
     (let (ok, ts, c, st) = (if mtp_k > 0 then (True, [], c, st) else bench_loop W h ignore_eos (nat n_gen) 0 c st)
      in if \<not> ok then Some (False, ts, st)
         else if mtp_k > 0 \<and> 0 < n_gen
         then map_option (\<lambda>ts. (True, ts, stream_prefetch_stop (bn_spec_eval W c st))) (bench_spec W mtp_k p_min n_gen toks c)
         else Some (True, ts, stream_prefetch_stop st))"

section \<open>The program\<close>

datatype 'c bench_end = Bench_exit int | Perplexity "('c \<times> nat \<times> int) list" nat | Tokens "int list" stream

definition bench_ppl :: "('c, 'd, 'p, 's) bench_api \<Rightarrow> int \<Rightarrow> string \<Rightarrow> 'c \<Rightarrow> stream \<Rightarrow> 'c bench_end option" where
  "bench_ppl W nc path c st =
     (case bn_read W path of
        None \<Rightarrow> Some (Bench_exit 1)
      | Some corpus \<Rightarrow>
          map_option (\<lambda>toks. case ppl_loop W (nat nc) c st toks 0 of
                               None \<Rightarrow> Bench_exit 1
                             | Some (ts, wins, _) \<Rightarrow> Perplexity ts wins)
            (bench_tok_loop (bn_tok W corpus True False) (-1) 64))"

definition bench_run :: "machine \<Rightarrow> ('c, 'd, 'p, 's) bench_api \<Rightarrow> int \<Rightarrow> string \<Rightarrow> fpv \<Rightarrow> int \<Rightarrow> 'c \<Rightarrow> stream \<Rightarrow> 'c bench_end knob" where
  "bench_run B W mtp_k prompt p_min n_gen c st =
     (case bench_tok_loop (bn_tok W prompt True False) (-1) 32 of
        None \<Rightarrow> (\<lambda>r. None)
      | Some toks \<Rightarrow>
          then_knob (env_get (b_getenv B) ''DEBUG_TOKIDS'') (\<lambda>_.
          then_knob (if mtp_k > 0 then ret_knob None else env_get (b_getenv B) ''SPLIT_PREFILL'') (\<lambda>sp.
          case bench_prefill W mtp_k (sp \<noteq> None) toks c st of
            None \<Rightarrow> (\<lambda>r. None)
          | Some (ok, c, st) \<Rightarrow>
              if \<not> ok then ret_knob (Bench_exit 1)
              else
                then_knob (env_or (b_getenv B) ''DUMP_LOGITS_EVERY'' atoi 1) (\<lambda>_.
                then_knob (env_get (b_getenv B) ''IGNORE_EOS'') (\<lambda>ie.
                case bench_generate W (b_host B) mtp_k p_min (ie \<noteq> None) n_gen toks c st of
                  None \<Rightarrow> (\<lambda>r. None)
                | Some (ok, ts, st) \<Rightarrow> ret_knob (if ok then Tokens ts st else Bench_exit 1))))))"

definition bench_main :: "machine \<Rightarrow> ('c, 'd, 'p, 's) bench_api \<Rightarrow> string list \<Rightarrow> stream \<Rightarrow> 'c bench_end knob" where
  "bench_main B W args st =
     (case bench_args args of
        None \<Rightarrow> ret_knob (Bench_exit 2)
      | Some o1 \<Rightarrow>
          then_knob (runtime_prepare B (bench_settings o1) st) (\<lambda>p.
          case p of
            Inl e \<Rightarrow> ret_knob (Bench_exit 1)
          | Inr (rt, st) \<Rightarrow>
              then_knob (runtime_load_llama B (bench_settings o1) rt st) (\<lambda>(ok, rt, st).
              case (if ok then rt_ctx rt else None) of
                None \<Rightarrow> ret_knob (Bench_exit 1)
              | Some cp \<Rightarrow>
                  let st = st\<lparr>cache := set_verify_next (cache st) (bo_verify_n o1)\<rparr>; c = bn_ctx W cp in
                  then_knob (env_or (b_getenv B) ''PROMPT'' (\<lambda>v. v) ''The capital of France is'') (\<lambda>prompt.
                  then_knob (env_or (b_getenv B) ''MTP_P_MIN'' (\<lambda>v. to_float (atof v)) (Fin 0)) (\<lambda>p_min.
                  then_knob (env_or (b_getenv B) ''PPL_FILE'' Some None) (\<lambda>pf.
                  case pf of
                    Some path \<Rightarrow> (case bench_ppl W (rt_n_ctx rt) path c st of None \<Rightarrow> (\<lambda>r. None) | Some x \<Rightarrow> ret_knob x)
                  | None \<Rightarrow> bench_run B W (rt_mtp_k rt) prompt p_min (bo_n_gen o1) c st))))))"

section \<open>Lemmas\<close>

lemma bench_tok_loop_ok:
  assumes "\<And>cap. fills xs cap (tk cap)" "nat (- n) \<le> cap" "0 < cap" "cap < 2147483648"
  shows "bench_tok_loop tk n cap = Some xs"
proof (cases "length xs \<le> cap")
  case True
  then show ?thesis using assms(1) [of "int cap"] assms(2-4)
    by (subst bench_tok_loop.simps) (auto simp: fills_def resize_fills split: prod.splits)
next
  case False
  have l: "length xs < 2147483648" using assms(1) [of 0] by (simp add: fills_def)
  have "bench_tok_loop tk (- int (length xs)) cap = Some xs" using assms(1) [of "int (length xs)"] l False
    by (subst bench_tok_loop.simps) (auto simp: fills_def resize_fills Let_def split: prod.splits)
  moreover have "bench_tok_loop tk n cap = bench_tok_loop tk (- int (length xs)) cap"
    using False assms(1) [of "int cap"] assms(2-4) by (subst bench_tok_loop.simps) (auto simp: fills_def split: prod.splits)
  ultimately show ?thesis by simp
qed

lemma batch_get_one_ok:
  assumes "seq_pos_max L c 0 = int (length (klane c 0)) - 1" "toks \<noteq> []"
  shows "contiguous 0 (int (length (klane c 0))) (batch_get_one L c toks)" "map bt_token (batch_get_one L c toks) = toks"
    "bt_logits (last (batch_get_one L c toks))" "length (batch_get_one L c toks) = length toks"
proof -
  show "contiguous 0 (int (length (klane c 0))) (batch_get_one L c toks)"
    using assms by (cases "enumerate 0 toks = []") (auto simp: contiguous_def batch_get_one_def nth_enumerate_eq dest: arg_cong [of _ _ length])
  show "map bt_token (batch_get_one L c toks) = toks"
    by (rule nth_equalityI) (auto simp: batch_get_one_def nth_enumerate_eq)
  show len: "length (batch_get_one L c toks) = length toks" by (simp add: batch_get_one_def)
  then have "batch_get_one L c toks \<noteq> []" using assms(2) by auto
  from last_conv_nth [OF this] have "last (batch_get_one L c toks) = batch_get_one L c toks ! (length toks - 1)" by (simp add: len)
  then show "bt_logits (last (batch_get_one L c toks))" using assms(2) by (simp add: batch_get_one_def nth_enumerate_eq)
qed

text \<open>What the greedy sampler returns: the target's choice after the lane, when the last decode asked for its logits.\<close>

definition samples_greedy :: "('c, 'd, 'p, 's) bench_api \<Rightarrow> ('c \<Rightarrow> int \<Rightarrow> int list) \<Rightarrow> (int list \<Rightarrow> int) \<Rightarrow> bool" where
  "samples_greedy W klane g \<longleftrightarrow>
     (\<forall>c b c'. contiguous 0 (int (length (klane c 0))) b \<longrightarrow> bt_logits (last b) \<longrightarrow> decode (bn_llama W) c b = (0, c') \<longrightarrow> bn_sample W c' = g (klane c' 0))"

definition roomy :: "('c, 'd, 'p, 's) bench_api \<Rightarrow> ('c \<Rightarrow> int \<Rightarrow> int list) \<Rightarrow> nat \<Rightarrow> bool" where
  "roomy W klane room \<longleftrightarrow>
     (\<forall>c b. contiguous 0 (int (length (klane c 0))) b \<longrightarrow> length (klane c 0) + length b < room \<longrightarrow> fst (decode (bn_llama W) c b) = 0)"

lemma bench_decode_ok:
  assumes "llama_ok (bn_llama W) klane" "samples_greedy W klane g" "roomy W klane room"
    and b: "contiguous 0 (int (length (klane c 0))) b" "length (klane c 0) + length b < room"
  obtains c' where "bench_decode W c st b = (True, c', bn_eval W c b st)" "klane c' 0 = klane c 0 @ map bt_token b"
    "bt_logits (last b) \<Longrightarrow> bn_sample W c' = g (klane c 0 @ map bt_token b)"
proof -
  obtain c' where d: "decode (bn_llama W) c b = (0, c')" using assms(3) b unfolding roomy_def by (metis prod.collapse)
  have k: "klane c' 0 = klane c 0 @ map bt_token b" using decode_ok [OF assms(1) b(1) d] by simp
  have "bt_logits (last b) \<Longrightarrow> bn_sample W c' = g (klane c' 0)" using assms(2) b(1) d unfolding samples_greedy_def by blast
  with d k show ?thesis by (intro that [of c']) (simp_all add: bench_decode_def)
qed

lemma decode_one_ok:
  assumes "llama_ok (bn_llama W) klane" "samples_greedy W klane g" "roomy W klane room" "toks \<noteq> []" "length (klane c 0) + length toks < room"
  obtains c' where "bench_decode W c st (batch_get_one (bn_llama W) c toks) = (True, c', bn_eval W c (batch_get_one (bn_llama W) c toks) st)"
    "klane c' 0 = klane c 0 @ toks" "bn_sample W c' = g (klane c 0 @ toks)"
proof -
  have "seq_pos_max (bn_llama W) c 0 = int (length (klane c 0)) - 1" using assms(1) by (simp add: llama_ok_def)
  note o = batch_get_one_ok [of "bn_llama W" c klane, OF this assms(4)]
  show ?thesis
    by (rule bench_decode_ok [OF assms(1-3) o(1), of st]) (use assms(5) o that in auto)
qed

lemma bench_loop_greedy:
  assumes "llama_ok (bn_llama W) klane" "samples_greedy W klane g" "roomy W klane room"
  shows "bn_sample W c = g (klane c 0) \<Longrightarrow> length (klane c 0) + k < room \<Longrightarrow>
    \<exists>c' st'. bench_loop W h ie k i c st = (True, greedy_gen g (\<lambda>t. \<not> ie \<and> sp_is_eog (bn_spec W) t) k (klane c 0), c', st')"
proof (induction k arbitrary: i c st)
  case (Suc k)
  let ?t = "g (klane c 0)"
  show ?case
  proof (cases "\<not> ie \<and> sp_is_eog (bn_spec W) ?t")
    case True
    then show ?thesis using Suc.prems by simp
  next
    case False
    obtain c' where d: "bench_decode W c (stream_set_step st i) (batch_get_one (bn_llama W) c [?t]) =
        (True, c', bn_eval W c (batch_get_one (bn_llama W) c [?t]) (stream_set_step st i))"
      and c': "klane c' 0 = klane c 0 @ [?t]" "bn_sample W c' = g (klane c 0 @ [?t])"
      by (rule decode_one_ok [OF assms, of "[?t]" c "stream_set_step st i"]) (use Suc.prems(2) in auto)
    define st1 where "st1 = bn_eval W c (batch_get_one (bn_llama W) c [?t]) (stream_set_step st i)"
    define st2 where "st2 = stream_prefetch_kick_full st1 (bn_order W st1)"
    have "bn_sample W c' = g (klane c' 0)" "length (klane c' 0) + k < room" using c' Suc.prems(2) by simp_all
    then obtain c2 st3 where "bench_loop W h ie k (i + 1) c' (stream_step_boundary h st2 (bn_trim W st2)) =
        (True, greedy_gen g (\<lambda>t. \<not> ie \<and> sp_is_eog (bn_spec W) t) k (klane c 0 @ [?t]), c2, st3)"
      using Suc.IH [of c' "i + 1"] c'(1) by metis
    then show ?thesis using d False Suc.prems(1) by (simp add: Let_def st1_def [symmetric] st2_def [symmetric])
  qed
qed simp

lemma bench_prefill_ok:
  assumes "llama_ok (bn_llama W) klane" "samples_greedy W klane g" "roomy W klane room"
    and "\<not> mtp_k > 0" "klane c 0 = []" "toks \<noteq> []" "length toks < room" "split1 \<longrightarrow> 2 \<le> length toks"
  obtains c' st' where "bench_prefill W mtp_k split1 toks c st = Some (True, c', st')" "klane c' 0 = toks" "bn_sample W c' = g toks"
proof (cases split1)
  case False
  show ?thesis
    by (rule decode_one_ok [OF assms(1-3) assms(6), of c st]) (use assms(4,5,7) False that in \<open>auto simp: bench_prefill_def\<close>)
next
  case True
  have b: "butlast toks \<noteq> []" "butlast toks @ [last toks] = toks" using assms(6,8) True by (cases toks; cases "tl toks"; simp)+
  have s: "contiguous 0 (int (length (klane c 0))) (spec_batch False 0 (butlast toks))" "map bt_token (spec_batch False 0 (butlast toks)) = butlast toks"
    using spec_batch_ok [OF b(1), of 0 False] assms(5) by simp_all
  have n: "length (klane c 0) + length (spec_batch False 0 (butlast toks)) < room"
    using assms(5,7) arg_cong [OF s(2), of length] by simp
  obtain c1 st1 where d1: "bench_decode W c st (spec_batch False 0 (butlast toks)) = (True, c1, st1)" "klane c1 0 = butlast toks"
    by (rule bench_decode_ok [OF assms(1-3) s(1) n, of st]) (use assms(5) s(2) in auto)
  obtain c2 st2 where "bench_decode W c1 st1 (batch_get_one (bn_llama W) c1 [last toks]) = (True, c2, st2)" "klane c2 0 = toks" "bn_sample W c2 = g toks"
    by (rule decode_one_ok [OF assms(1-3), of "[last toks]" c1 st1]) (use d1(2) b(2) assms(6,7) in auto)
  then show ?thesis using that [of c2 st2] d1(1) True assms(4,8) by (simp add: bench_prefill_def)
qed

lemma bench_callbacks_ok: "delivers bench_callbacks (\<lambda>e. e)"
  by (simp add: delivers_def bench_callbacks_def)

text \<open>The windows of a corpus, as a reference.\<close>

function windows_of :: "nat \<Rightarrow> int list \<Rightarrow> int list list" where
  "windows_of n xs = (if xs = [] \<or> n = 0 then [] else take n xs # windows_of n (drop n xs))"
  by pat_completeness auto
termination
  by (relation "measure (\<lambda>(n, xs). length xs)") auto

declare windows_of.simps [simp del]

definition scored :: "int list \<Rightarrow> (int list \<times> int) list" where
  "scored w = map (\<lambda>i. (take (Suc i) w, w ! Suc i)) [0..<length w - 1]"

lemma ppl_loop_scores:
  assumes "llama_ok (bn_llama W) klane" "\<forall>c. klane (bn_clear W c) 0 = []" "2 \<le> nw"
  shows "klane c 0 = [] \<Longrightarrow> ppl_loop W nw c st rest wins = Some (ts, r) \<Longrightarrow>
    map (\<lambda>(c, i, t). (take (Suc i) (klane c 0), t)) ts = concat (map scored (windows_of nw rest))"
proof (induction "length rest" arbitrary: c st rest wins ts r rule: less_induct)
  case less
  show ?case
  proof (cases "1 < length rest")
    case False
    then have "concat (map scored (windows_of nw rest)) = []"
      using assms(3) by (cases rest) (simp_all add: windows_of.simps [of nw] scored_def)
    moreover have "ts = []" using less.prems(2) False by (simp add: ppl_loop.simps [of W nw c st rest])
    ultimately show ?thesis by simp
  next
    case True
    let ?w = "take nw rest"
    have w: "take (length ?w) rest = ?w" "min nw (length rest) = length ?w" "\<not> length ?w < 2" using True assms(3) by (auto simp: min_def)
    have ppl_step: "ppl_loop W nw c st rest wins =
        (let (ok, c, st) = bench_decode W c st (spec_batch True 0 ?w)
         in if \<not> ok then None
            else map_option (\<lambda>(ts, r). (map (\<lambda>i. (c, i, rest ! Suc i)) [0..<length ?w - 1] @ ts, r))
                   (ppl_loop W nw (bn_clear W c) st (drop nw rest) (Suc wins)))"
      using True w(3) by (subst ppl_loop.simps) (simp only: w Let_def if_False not_not if_True simp_thms)
    obtain c' st' ts' where d: "decode (bn_llama W) c (spec_batch True 0 ?w) = (0, c')"
      and rec: "ppl_loop W nw (bn_clear W c') st' (drop nw rest) (Suc wins) = Some (ts', r)"
      and ts: "ts = map (\<lambda>i. (c', i, rest ! Suc i)) [0..<length ?w - 1] @ ts'"
      using less.prems(2) unfolding ppl_step by (auto simp: bench_decode_def split: prod.splits if_splits)
    have nn: "?w \<noteq> []" using w(3) by auto
    have "klane c' 0 = ?w"
      using decode_ok [OF assms(1) _ d, of 0] spec_batch_ok [OF nn, of 0 True] less.prems(1) by simp
    then have "map (\<lambda>(c, i, t). (take (Suc i) (klane c 0), t)) (map (\<lambda>i. (c', i, rest ! Suc i)) [0..<length ?w - 1]) = scored ?w"
      by (auto simp: scored_def)
    moreover have "length (drop nw rest) < length rest" using True assms(3) by simp
    then have "map (\<lambda>(c, i, t). (take (Suc i) (klane c 0), t)) ts' = concat (map scored (windows_of nw (drop nw rest)))"
      using less.hyps [OF _ _ rec] assms(2) by simp
    moreover have "windows_of nw rest = ?w # windows_of nw (drop nw rest)" using True assms(3) by (subst windows_of.simps) auto
    ultimately show ?thesis unfolding ts by simp
  qed
qed

lemma bench_tokens:
  assumes "tok_ok (bn_tok W) f"
  shows "bench_tok_loop (bn_tok W prompt True False) (-1) 32 = Some (f prompt True False)"
    "bench_tok_loop (bn_tok W prompt True False) (-1) 64 = Some (f prompt True False)"
  using assms by (auto simp: tok_ok_def intro!: bench_tok_loop_ok)

section \<open>Properties\<close>

text \<open>
  The perplexity mode scores what it means to: every token of the corpus but the first of each window is scored once, in order, on logits computed
  from exactly the tokens before it in its window.
\<close>

theorem perplexity_scores_windows:
  assumes "llama_ok (bn_llama W) klane" "\<forall>c. klane (bn_clear W c) 0 = []" "2 \<le> nc" "klane c 0 = []" "tok_ok (bn_tok W) f"
    "bn_read W path = Some corpus" "bench_ppl W nc path c st = Some (Perplexity ts wins)"
  shows "map (\<lambda>(c, i, t). (take (Suc i) (klane c 0), t)) ts = concat (map scored (windows_of (nat nc) (f corpus True False)))"
proof -
  obtain r where "ppl_loop W (nat nc) c st (f corpus True False) 0 = Some (ts, r)"
    using assms(6,7) bench_tokens(2) [OF assms(5), of corpus] by (auto simp: bench_ppl_def split: option.splits)
  then show ?thesis using ppl_loop_scores [OF assms(1,2), of "nat nc" c st "f corpus True False" 0 ts r] assms(3,4) by simp
qed

lemma bench_generate_arms:
  assumes "llama_ok (bn_llama W) klane" "samples_greedy W klane g" "spec_ok (bn_llama W) (bn_spec W) klane g None"
    "klane c 0 = []" "toks \<noteq> []" "0 < n_gen" "roomy W klane (length toks + nat n_gen + 1)"
    "\<forall>p c d b. fst (sp_process (bn_spec W) p c d b)" "\<forall>c. sp_init_ctx (bn_spec W) mtp_k p_min c \<noteq> None" "\<forall>c d. sp_new (bn_spec W) c d \<noteq> None"
    "\<not> mtp_k > 0 \<longrightarrow> split1 \<longrightarrow> 2 \<le> length toks"
  shows "\<exists>c' st' st''. bench_prefill W mtp_k split1 toks c st = Some (True, c', st') \<and>
     bench_generate W h mtp_k p_min False n_gen toks c' st' = Some (True, greedy_gen g (sp_is_eog (bn_spec W)) (nat n_gen) toks, st'')"
proof (cases "mtp_k > 0")
  case True
  obtain d where d: "sp_init_ctx (bn_spec W) mtp_k p_min c = Some d" using assms(9) by blast
  have "\<not> fault (bn_llama W) (bn_spec W) bench_callbacks klane (int (length toks) + n_gen) x" for x
    using assms(6-8) by (cases x) (auto simp: bench_callbacks_def roomy_def)
  then obtain x s pr where "spec_mtp_generate (bn_llama W) (bn_spec W) bench_callbacks None c toks mtp_k p_min n_gen [] = Some (Generated x s, pr)"
      "ss_cb s = greedy_gen g (sp_is_eog (bn_spec W)) (nat n_gen) toks"
    using spec_mtp_delivers [OF assms(1,3) bench_callbacks_ok _ assms(5,6) d assms(10), of "[]"] by auto
  then show ?thesis using True assms(6) by (simp add: bench_prefill_def bench_generate_def bench_spec_def)
next
  case False
  obtain c1 st1 where p: "bench_prefill W mtp_k split1 toks c st = Some (True, c1, st1)" "klane c1 0 = toks" "bn_sample W c1 = g toks"
    by (rule bench_prefill_ok [OF assms(1,2,7) False assms(4,5), where ?st = st and ?split1.0 = split1]) (use assms(11) False in auto)
  obtain c2 st2 where "bench_loop W h False (nat n_gen) 0 c1 st1 = (True, greedy_gen g (sp_is_eog (bn_spec W)) (nat n_gen) toks, c2, st2)"
    using bench_loop_greedy [OF assms(1,2,7), of c1 "nat n_gen" h False 0 st1] p(2,3) by auto
  then show ?thesis using p(1) False by (simp add: bench_generate_def)
qed


section \<open>A concrete run\<close>

definition demo_tokens :: "string \<Rightarrow> bool \<Rightarrow> bool \<Rightarrow> int list" where
  "demo_tokens prompt a p = [1, 2, 3]"

definition demo_bench :: "(ref_ctx, unit, unit, unit) bench_api" where
  "demo_bench = \<lparr>bn_llama = ref_llama, bn_spec = demo_spec, bn_ctx = (\<lambda>cp s. []),
     bn_tok = (\<lambda>t a p cap. if 3 \<le> cap then (3, demo_tokens t a p) else (-3, [])), bn_read = (\<lambda>path. None),
     bn_sample = (\<lambda>c. count_up (c 0)), bn_clear = (\<lambda>c s. []), bn_eval = (\<lambda>c b st. st), bn_spec_eval = (\<lambda>c st. st),
     bn_order = (\<lambda>st. []), bn_trim = (\<lambda>st. [])\<rparr>"

lemma demo_bench_ok:
  "llama_ok (bn_llama demo_bench) (\<lambda>c. c)" "samples_greedy demo_bench (\<lambda>c. c) count_up"
  "spec_ok (bn_llama demo_bench) (bn_spec demo_bench) (\<lambda>c. c) count_up None" "tok_ok (bn_tok demo_bench) demo_tokens" "roomy demo_bench (\<lambda>c. c) room"
  using ref_llama_ok demo_spec_ok
  by (auto simp: demo_bench_def samples_greedy_def roomy_def tok_ok_def fills_def demo_tokens_def ref_llama_def)


end
