(* ===== verification/Identity_Gate.thy ===== *)
theory Identity_Gate
  imports Stream_Cb
begin

text \<open>
  \<^verbatim>\<open>tools/identity-gate.cpp\<close>: the harness that moves routed expert tensors into memory of its own and generates. Modelled: the
  capturing callback, the rebinding within a budget and the verdict. Loading and decoding are llama.cpp's; the allocator and the order of
  \<^verbatim>\<open>std::sort\<close> are arguments.
\<close>

section \<open>Capturing\<close>

type_synonym captured = "(string \<times> tptr) list"

fun capture_srcs :: "model_manifest \<Rightarrow> (tptr \<Rightarrow> ggml_tensor) \<Rightarrow> tptr list \<Rightarrow> captured \<Rightarrow> captured" where
  "capture_srcs mf hp [] c = c"
| "capture_srcs mf hp (s # ss) c =
     (let nm = t_name (hp s)
      in capture_srcs mf hp ss
           (if nm = [] \<or> nm \<in> fst ` set c then c
            else if list_ex (\<lambda>ti. ti_name ti = nm \<and> ti_kind ti = ROUTED_EXPERT) (mf_tensors mf) then c @ [(nm, s)]
            else c))"

definition gate_cb :: "model_manifest \<Rightarrow> (tptr \<Rightarrow> ggml_tensor) \<Rightarrow> tptr option \<Rightarrow> bool \<Rightarrow> captured \<Rightarrow> captured" where
  "gate_cb mf hp t ask c = (case t of None \<Rightarrow> c | Some t \<Rightarrow> if ask then c else capture_srcs mf hp (t_src (hp t)) c)"

section \<open>Rebinding\<close>

record gate =
  gt_mem :: memory
  gt_heap :: "tptr \<Rightarrow> ggml_tensor"
  owned_bytes :: u64
  owned :: "(u64 \<times> tptr) list"

definition rebind_tensor :: "(ggml_tensor \<Rightarrow> u64) \<Rightarrow> (gate \<Rightarrow> u64 \<Rightarrow> u64 option) \<Rightarrow> u64 \<Rightarrow> tptr \<Rightarrow> gate \<Rightarrow> gate" where
  "rebind_tensor nbytes_of alloc budget t g =
     (let nbytes = nbytes_of (gt_heap g t); asize = (nbytes + 4095) div 4096 * 4096
      in if owned_bytes g + asize > budget then g
         else case alloc g asize of
                None \<Rightarrow> g
              | Some buf \<Rightarrow>
                  g\<lparr>gt_mem := memcpy (gt_mem g) buf (t_data (gt_heap g t)) nbytes,
                    gt_heap := (gt_heap g)(t := (gt_heap g t)\<lparr>t_data := buf\<rparr>),
                    owned := owned g @ [(buf, t)], owned_bytes := owned_bytes g + asize\<rparr>)"

text \<open>In the order of the layers, as \<^verbatim>\<open>std::sort\<close> leaves it.\<close>

definition gate_rebind ::
  "((int \<times> tptr) list \<Rightarrow> (int \<times> tptr) list) \<Rightarrow> (ggml_tensor \<Rightarrow> u64) \<Rightarrow> (gate \<Rightarrow> u64 \<Rightarrow> u64 option) \<Rightarrow> u64 \<Rightarrow> captured \<Rightarrow> gate \<Rightarrow> gate" where
  "gate_rebind srt nbytes_of alloc budget c g =
     fold (\<lambda>(_, t). rebind_tensor nbytes_of alloc budget t) (srt (map (\<lambda>(nm, t). (parse_layer_index nm, t)) c)) g"

text \<open>The exit status: the number of owned tensors that no longer point at their buffer decides.\<close>

definition gate_verdict :: "bool \<Rightarrow> gate \<Rightarrow> int" where
  "gate_verdict rebind1 g = (if rebind1 \<and> filter (\<lambda>(buf, t). t_data (gt_heap g t) \<noteq> buf) (owned g) \<noteq> [] then 1 else 0)"

section \<open>Lemmas\<close>

lemma capture_distinct: "distinct (map fst c) \<Longrightarrow> distinct (map fst (capture_srcs mf hp ss c))"
  by (induction ss arbitrary: c) (auto simp: Let_def)

lemma capture_names:
  "list_all (\<lambda>(nm, t). t_name (hp t) = nm) c \<Longrightarrow> list_all (\<lambda>(nm, t). t_name (hp t) = nm) (capture_srcs mf hp ss c)"
  by (induction ss arbitrary: c) (simp_all add: Let_def)

text \<open>What \<^verbatim>\<open>aligned_alloc\<close> promises: no byte of the new buffer belongs to a tensor of the graph; sizes do not depend on where the data is.\<close>

definition gate_alloc :: "(ggml_tensor \<Rightarrow> u64) \<Rightarrow> (gate \<Rightarrow> u64 \<Rightarrow> u64 option) \<Rightarrow> bool" where
  "gate_alloc nbytes_of alloc \<longleftrightarrow>
     (\<forall>t b. nbytes_of (t\<lparr>t_data := b\<rparr>) = nbytes_of t)
     \<and> (\<forall>g n buf a q. alloc g n = Some buf \<longrightarrow> in_range buf n a \<longrightarrow> \<not> in_range (t_data (gt_heap g q)) (nbytes_of (gt_heap g q)) a)"

definition gate_byte :: "gate \<Rightarrow> tptr \<Rightarrow> u64 \<Rightarrow> u8" where
  "gate_byte g q i = gt_mem g (t_data (gt_heap g q) + i)"

definition same_graph :: "(ggml_tensor \<Rightarrow> u64) \<Rightarrow> gate \<Rightarrow> gate \<Rightarrow> bool" where
  "same_graph nbytes_of g g' \<longleftrightarrow> (\<forall>q. nbytes_of (gt_heap g' q) = nbytes_of (gt_heap g q)
     \<and> (\<forall>i < nbytes_of (gt_heap g q). gate_byte g' q i = gate_byte g q i))"

lemma round_page:
  fixes n :: u64
  assumes "unat n < 2 ^ 62"
  shows "n \<le> (n + 4095) div 4096 * 4096" "unat ((n + 4095) div 4096 * 4096) < 2 ^ 63"
proof -
  have s: "unat (n + 4095) = unat n + 4095" using assms by (subst unat_add_nowrap) simp_all
  define k where "k = (unat n + 4095) div 4096"
  have d: "unat ((n + 4095) div 4096) = k" by (simp add: unat_div s k_def)
  have k: "k * 4096 \<le> unat n + 4095" "unat n + 4095 < k * 4096 + 4096"
    unfolding k_def using div_mult_mod_eq [of "unat n + 4095" 4096] mod_less_divisor [of 4096 "unat n + 4095"] by linarith+
  then have b: "k * 4096 < 2 ^ 63" using assms by simp
  have m: "unat ((n + 4095) div 4096 * 4096) = k * 4096" using b by (simp add: unat_mult_lem [THEN iffD1] unat_word_ariths(2) d)
  show "unat ((n + 4095) div 4096 * 4096) < 2 ^ 63" unfolding m by (rule b)
  show "n \<le> (n + 4095) div 4096 * 4096" unfolding word_le_nat_alt m using k(2) by simp
qed

definition gate_inv :: "u64 \<Rightarrow> gate \<Rightarrow> bool" where
  "gate_inv budget g \<longleftrightarrow> owned_bytes g \<le> budget \<and> list_all (\<lambda>(buf, t). t_data (gt_heap g t) = buf) (owned g)"

lemma same_graph_refl [simp]: "same_graph nbytes_of g g"
  by (simp add: same_graph_def)

lemma same_graph_trans: "same_graph nb a b \<Longrightarrow> same_graph nb b c \<Longrightarrow> same_graph nb a c"
  by (simp add: same_graph_def)

text \<open>One tensor: either nothing happens, or it reads the same bytes from a buffer that still fits the budget.\<close>

lemma rebind_tensor_cases:
  assumes "gate_alloc nb alloc" "\<forall>q. unat (nb (gt_heap g q)) < 2 ^ 62" "unat budget < 2 ^ 63" "owned_bytes g \<le> budget"
  obtains "rebind_tensor nb alloc budget t g = g"
  | buf where "same_graph nb g (rebind_tensor nb alloc budget t g)" "owned_bytes (rebind_tensor nb alloc budget t g) \<le> budget"
    "gt_heap (rebind_tensor nb alloc budget t g) = (gt_heap g)(t := (gt_heap g t)\<lparr>t_data := buf\<rparr>)"
    "owned (rebind_tensor nb alloc budget t g) = owned g @ [(buf, t)]"
proof (cases "rebind_tensor nb alloc budget t g = g")
  case False
  let ?n = "nb (gt_heap g t)" and ?g = "rebind_tensor nb alloc budget t g"
  let ?a = "(?n + 4095) div 4096 * 4096"
  obtain buf where b: "\<not> owned_bytes g + ?a > budget" "alloc g ?a = Some buf"
    using False by (auto simp: rebind_tensor_def Let_def split: if_splits option.splits)
  have g: "?g = g\<lparr>gt_mem := memcpy (gt_mem g) buf (t_data (gt_heap g t)) ?n, gt_heap := (gt_heap g)(t := (gt_heap g t)\<lparr>t_data := buf\<rparr>),
      owned := owned g @ [(buf, t)], owned_bytes := owned_bytes g + ?a\<rparr>"
    using b by (simp add: rebind_tensor_def Let_def)
  have le: "?n \<le> ?a" using round_page [of ?n] assms(2) by blast
  have nb: "nb (x\<lparr>t_data := y\<rparr>) = nb x" for x y using assms(1) by (simp add: gate_alloc_def)
  have "gate_byte ?g q i = gate_byte g q i" if i: "i < nb (gt_heap g q)" for q i
  proof (cases "q = t")
    case True
    then show ?thesis using i by (simp add: g gate_byte_def memcpy_def)
  next
    case False
    let ?x = "t_data (gt_heap g q) + i"
    have "in_range (t_data (gt_heap g q)) (nb (gt_heap g q)) ?x" using i by (simp add: in_range_def)
    then have "\<not> in_range buf ?a ?x" using assms(1) b(2) unfolding gate_alloc_def by blast
    then have "\<not> ?x - buf < ?n" using le unfolding in_range_def by simp
    with False show ?thesis by (simp add: g gate_byte_def memcpy_def)
  qed
  then have "same_graph nb g ?g" by (auto simp: same_graph_def nb g)
  then show ?thesis using that(2) [of buf] b(1) by (simp add: g)
qed (rule that(1))

lemma same_graph_sizes: "same_graph nb g g' \<Longrightarrow> \<forall>q. unat (nb (gt_heap g q)) < 2 ^ 62 \<Longrightarrow> \<forall>q. unat (nb (gt_heap g' q)) < 2 ^ 62"
  by (simp add: same_graph_def)

lemma rebind_all:
  assumes "gate_alloc nb alloc" "unat budget < 2 ^ 63"
  shows "\<forall>q. unat (nb (gt_heap g q)) < 2 ^ 62 \<Longrightarrow> gate_inv budget g \<Longrightarrow> distinct (map snd os) \<Longrightarrow> snd ` set (owned g) \<inter> snd ` set os = {} \<Longrightarrow>
    same_graph nb g (fold (\<lambda>(_, t). rebind_tensor nb alloc budget t) os g) \<and> gate_inv budget (fold (\<lambda>(_, t). rebind_tensor nb alloc budget t) os g)"
proof (induction os arbitrary: g)
  case (Cons x os)
  obtain l t where x: "x = (l, t)" by (cases x)
  let ?g = "rebind_tensor nb alloc budget t g"
  have inv: "owned_bytes g \<le> budget" "list_all (\<lambda>(buf, t). t_data (gt_heap g t) = buf) (owned g)" using Cons.prems(2) by (simp_all add: gate_inv_def)
  have "same_graph nb g ?g \<and> gate_inv budget ?g \<and> snd ` set (owned ?g) \<inter> snd ` set os = {}"
  proof (rule rebind_tensor_cases [OF assms(1) Cons.prems(1) assms(2) inv(1), of t])
    assume "?g = g"
    then show ?thesis using Cons.prems by auto
  next
    fix buf assume r: "same_graph nb g ?g" "owned_bytes ?g \<le> budget" "gt_heap ?g = (gt_heap g)(t := (gt_heap g t)\<lparr>t_data := buf\<rparr>)"
      "owned ?g = owned g @ [(buf, t)]"
    have "\<forall>(b, q) \<in> set (owned g). q \<noteq> t" using Cons.prems(4) x by force
    then have "list_all (\<lambda>(b, q). t_data (gt_heap ?g q) = b) (owned ?g)" using inv(2) by (auto simp: r(3,4) list_all_iff)
    then show ?thesis using r(1,2,4) Cons.prems(3,4) x by (auto simp: gate_inv_def)
  qed
  then show ?case
    using Cons.IH [of ?g] same_graph_sizes [of nb g ?g] Cons.prems(1,3) same_graph_trans [of nb g ?g] by (simp add: x)
qed simp

section \<open>The property\<close>

text \<open>
  Rebinding is transparent and bounded: whatever the order of the layers and whichever allocations fail, after the pass every tensor of
  the graph reads the same bytes as before, the memory taken stays within the budget, and the gate's verdict is 0.
\<close>

theorem gate_rebind_transparent:
  assumes "gate_alloc nb alloc" "unat budget < 2 ^ 63" "\<forall>q. unat (nb (gt_heap g q)) < 2 ^ 62" "owned g = []" "owned_bytes g = 0"
    "distinct (map snd c)" "\<forall>xs. mset (srt xs) = mset xs"
  shows "same_graph nb g (gate_rebind srt nb alloc budget c g) \<and> owned_bytes (gate_rebind srt nb alloc budget c g) \<le> budget
    \<and> gate_verdict True (gate_rebind srt nb alloc budget c g) = 0"
proof -
  let ?os = "srt (map (\<lambda>(nm, t). (parse_layer_index nm, t)) c)"
  have m: "mset (map snd ?os) = mset (map snd c)" using assms(7) by (simp add: multiset.map_comp comp_def case_prod_unfold)
  then have d: "distinct (map snd ?os)" using assms(6) mset_eq_imp_distinct_iff by blast
  have "same_graph nb g (gate_rebind srt nb alloc budget c g) \<and> gate_inv budget (gate_rebind srt nb alloc budget c g)"
    unfolding gate_rebind_def using rebind_all [OF assms(1,2,3) _ d] assms(4,5) by (simp add: gate_inv_def)
  then show ?thesis by (auto simp: gate_inv_def gate_verdict_def list_all_iff filter_empty_conv)
qed

end
