(* ===== verification/Graph_Census.thy ===== *)
theory Graph_Census
  imports Tensor_Classify
begin

text \<open>
  \<^verbatim>\<open>tools/graph-census.cpp\<close>: the evaluation callback that classifies the nodes of a decode and accumulates counts and times. Its hash
  maps are association lists, of which only single entries and sums are read. The clock's readings and \<^verbatim>\<open>ggml_op_name\<close> are arguments; counters are
  64-bit words, times unbounded integers. The tables that are printed are not modelled.
\<close>

section \<open>Classification\<close>

datatype mat_bucket =
    ROUTER | EXPERT_GATE | EXPERT_UP | EXPERT_DOWN | ATTN | SHORTCONV | DENSE_FFN | EMBED_OUTPUT | OTHER | UNKNOWN

fun bucket_name :: "mat_bucket \<Rightarrow> string" where
  "bucket_name ROUTER = ''moe_router''"
| "bucket_name EXPERT_GATE = ''moe_expert_gate''"
| "bucket_name EXPERT_UP = ''moe_expert_up''"
| "bucket_name EXPERT_DOWN = ''moe_expert_down''"
| "bucket_name ATTN = ''attention''"
| "bucket_name SHORTCONV = ''shortconv''"
| "bucket_name DENSE_FFN = ''dense_ffn''"
| "bucket_name EMBED_OUTPUT = ''embed_output''"
| "bucket_name OTHER = ''other_mat''"
| "bucket_name UNKNOWN = ''unknown''"

text \<open>The operations the code distinguishes; every other one by its number.\<close>

datatype graph_op =
    GGML_OP_MUL_MAT | GGML_OP_MUL_MAT_ID | GGML_OP_RMS_NORM | GGML_OP_ROPE | GGML_OP_ROPE_BACK | GGML_OP_SOFT_MAX | GGML_OP_ARGSORT
  | GGML_OP_SSM_CONV | GGML_OP_UNARY | GGML_OP_ADD | GGML_OP_MUL | GGML_OP_DIV | GGML_OP_CPY | GGML_OP_VIEW | GGML_OP_RESHAPE
  | GGML_OP_PERMUTE | GGML_OP_TRANSPOSE | GGML_OP_CONT | GGML_OP nat

definition rollup_name :: "mat_bucket \<Rightarrow> graph_op \<Rightarrow> string option" where
  "rollup_name b oper =
     (if oper = GGML_OP_MUL_MAT_ID \<and> (b = EXPERT_GATE \<or> b = EXPERT_UP) then Some ''moe_expert_q4k''
      else if oper = GGML_OP_MUL_MAT_ID \<and> b = EXPERT_DOWN then Some ''moe_expert_q6k_down''
      else if b = ROUTER then Some ''moe_router''
      else if b = ATTN then Some ''attention''
      else if b = SHORTCONV then Some ''shortconv''
      else if b = DENSE_FFN then Some ''dense_ffn''
      else if b = EMBED_OUTPUT then Some ''embed_output''
      else None)"

definition classify_weight :: "string \<Rightarrow> mat_bucket" where
  "classify_weight name =
     (if name = [] then UNKNOWN
      else if str_contains name ''ffn_gate_inp'' then ROUTER
      else if str_contains name ''ffn_gate_exps'' then EXPERT_GATE
      else if str_contains name ''ffn_up_exps'' then EXPERT_UP
      else if str_contains name ''ffn_down_exps'' then EXPERT_DOWN
      else if str_contains name ''attn_'' \<or> str_contains name ''.attn.'' then ATTN
      else if str_contains name ''shortconv'' then SHORTCONV
      else if str_contains name ''ffn_gate'' \<or> str_contains name ''ffn_up'' \<or> str_contains name ''ffn_down'' then DENSE_FFN
      else if str_contains name ''token_embd'' \<or> str_contains name ''output'' then EMBED_OUTPUT
      else OTHER)"

datatype op_group =
    G_MUL_MAT | G_MUL_MAT_ID | G_NORM | G_ACTIVATION | G_ROPE | G_SOFTMAX_ARGSORT | G_CONV_SSM | G_ELEM_BINARY | G_COPY_VIEW | G_OTHER

definition op_group_of :: "graph_op \<Rightarrow> op_group" where
  "op_group_of oper =
     (case oper of
        GGML_OP_MUL_MAT \<Rightarrow> G_MUL_MAT
      | GGML_OP_MUL_MAT_ID \<Rightarrow> G_MUL_MAT_ID
      | GGML_OP_RMS_NORM \<Rightarrow> G_NORM
      | GGML_OP_ROPE \<Rightarrow> G_ROPE
      | GGML_OP_ROPE_BACK \<Rightarrow> G_ROPE
      | GGML_OP_SOFT_MAX \<Rightarrow> G_SOFTMAX_ARGSORT
      | GGML_OP_ARGSORT \<Rightarrow> G_SOFTMAX_ARGSORT
      | GGML_OP_SSM_CONV \<Rightarrow> G_CONV_SSM
      | GGML_OP_UNARY \<Rightarrow> G_ACTIVATION
      | GGML_OP_ADD \<Rightarrow> G_ELEM_BINARY
      | GGML_OP_MUL \<Rightarrow> G_ELEM_BINARY
      | GGML_OP_DIV \<Rightarrow> G_ELEM_BINARY
      | GGML_OP_CPY \<Rightarrow> G_COPY_VIEW
      | GGML_OP_VIEW \<Rightarrow> G_COPY_VIEW
      | GGML_OP_RESHAPE \<Rightarrow> G_COPY_VIEW
      | GGML_OP_PERMUTE \<Rightarrow> G_COPY_VIEW
      | GGML_OP_TRANSPOSE \<Rightarrow> G_COPY_VIEW
      | GGML_OP_CONT \<Rightarrow> G_COPY_VIEW
      | GGML_OP _ \<Rightarrow> G_OTHER)"

fun group_name :: "op_group \<Rightarrow> string" where
  "group_name G_MUL_MAT = ''mul_mat''"
| "group_name G_MUL_MAT_ID = ''mul_mat_id''"
| "group_name G_NORM = ''norm''"
| "group_name G_ACTIVATION = ''activation''"
| "group_name G_ROPE = ''rope''"
| "group_name G_SOFTMAX_ARGSORT = ''softmax_argsort''"
| "group_name G_CONV_SSM = ''conv_ssm''"
| "group_name G_ELEM_BINARY = ''elem_binary''"
| "group_name G_COPY_VIEW = ''copy_view''"
| "group_name G_OTHER = ''other''"

section \<open>The callback\<close>

fun add_time :: "(string \<times> 'a::monoid_add) list \<Rightarrow> string \<Rightarrow> 'a \<Rightarrow> (string \<times> 'a) list" where
  "add_time [] k d = [(k, d)]"
| "add_time ((k', v) # m) k d = (if k' = k then (k', v + d) # m else (k', v) # add_time m k d)"

record census =
  active :: bool
  time_nodes :: bool
  total_nodes :: u64
  graph_ns :: int
  node_t0 :: int
  op_counts :: "(string \<times> u64) list"
  op_ns :: "(string \<times> int) list"
  group_counts :: "(string \<times> u64) list"
  group_ns :: "(string \<times> int) list"
  mat_bucket_counts :: "(string \<times> u64) list"
  mat_bucket_ns :: "(string \<times> int) list"
  rollup_ns :: "(string \<times> int) list"

text \<open>A node: its operation and the name of its first source, if it has one.\<close>

record census_node =
  cn_op :: graph_op
  cn_weight :: "string option"

definition count_mat :: "census_node \<Rightarrow> int \<Rightarrow> census \<Rightarrow> census" where
  "count_mat t dt c =
     (if cn_op t = GGML_OP_MUL_MAT \<or> cn_op t = GGML_OP_MUL_MAT_ID then
        let wname = (case cn_weight t of None \<Rightarrow> ''?'' | Some n \<Rightarrow> if n = [] then ''?'' else n);
            b = classify_weight wname; bn = bucket_name b;
            c = c\<lparr>mat_bucket_counts := add_time (mat_bucket_counts c) bn 1\<rparr>;
            c = (if time_nodes c then c\<lparr>mat_bucket_ns := add_time (mat_bucket_ns c) bn dt\<rparr> else c)
        in (case rollup_name b (cn_op t) of None \<Rightarrow> c | Some rn \<Rightarrow> c\<lparr>rollup_ns := add_time (rollup_ns c) rn dt\<rparr>)
      else c)"

definition count_node :: "(graph_op \<Rightarrow> string) \<Rightarrow> census_node \<Rightarrow> int \<Rightarrow> census \<Rightarrow> census" where
  "count_node op_name t dt c =
     (let opn = op_name (cn_op t); gn = group_name (op_group_of (cn_op t));
          c = c\<lparr>total_nodes := total_nodes c + 1, op_counts := add_time (op_counts c) opn 1\<rparr>;
          c = (if time_nodes c then c\<lparr>graph_ns := graph_ns c + dt, op_ns := add_time (op_ns c) opn dt\<rparr> else c);
          c = c\<lparr>group_counts := add_time (group_counts c) gn 1\<rparr>
      in if time_nodes c then c\<lparr>group_ns := add_time (group_ns c) gn dt\<rparr> else c)"

text \<open>\<open>now\<close> is what the clock says when the callback reads it.\<close>

definition census_cb :: "(graph_op \<Rightarrow> string) \<Rightarrow> census_node option \<Rightarrow> bool \<Rightarrow> int \<Rightarrow> census \<Rightarrow> bool \<times> census" where
  "census_cb op_name t ask now c =
     (if \<not> active c then (False, c)
      else if ask then (True, if time_nodes c then c\<lparr>node_t0 := now\<rparr> else c)
      else (case t of
              None \<Rightarrow> (True, c)
            | Some t \<Rightarrow>
                (let dt = (if time_nodes c then now - node_t0 c else 0)
                 in (True, count_mat t dt (count_node op_name t dt c)))))"

definition new_census :: "bool \<Rightarrow> census" where
  "new_census timed = \<lparr>active = False, time_nodes = timed, total_nodes = 0, graph_ns = 0, node_t0 = 0, op_counts = [], op_ns = [],
     group_counts = [], group_ns = [], mat_bucket_counts = [], mat_bucket_ns = [], rollup_ns = []\<rparr>"

text \<open>A run of callbacks, and what is left over for the line \<^verbatim>\<open>graph_other\<close>.\<close>

type_synonym census_event = "census_node option \<times> bool \<times> int"

definition run_census :: "(graph_op \<Rightarrow> string) \<Rightarrow> census_event list \<Rightarrow> census \<Rightarrow> census" where
  "run_census op_name = fold (\<lambda>(t, ask, now) c. snd (census_cb op_name t ask now c))"

definition graph_other :: "census \<Rightarrow> int" where
  "graph_other c = graph_ns c - sum_list (map snd (rollup_ns c))"

section \<open>Lemmas\<close>

lemma sum_add_time [simp]:
  "sum_list (map snd (add_time m k (d :: 'a::comm_monoid_add))) = sum_list (map snd m) + d"
  by (induction m k d rule: add_time.induct) (simp_all add: ac_simps)

definition is_mat :: "census_event \<Rightarrow> bool" where
  "is_mat = (\<lambda>(t, ask, _). \<not> ask \<and> (\<exists>n. t = Some n \<and> (cn_op n = GGML_OP_MUL_MAT \<or> cn_op n = GGML_OP_MUL_MAT_ID)))"

definition is_node :: "census_event \<Rightarrow> bool" where
  "is_node = (\<lambda>(t, ask, _). \<not> ask \<and> t \<noteq> None)"

abbreviation total :: "(string \<times> 'a::monoid_add) list \<Rightarrow> 'a" where
  "total m \<equiv> sum_list (map snd m)"

definition census_inv :: "int \<Rightarrow> u64 \<Rightarrow> u64 \<Rightarrow> census \<Rightarrow> bool" where
  "census_inv now nodes mats c \<longleftrightarrow>
     active c \<and> time_nodes c \<and> node_t0 c \<le> now \<and> total_nodes c = nodes \<and> total (op_counts c) = nodes \<and> total (group_counts c) = nodes
     \<and> total (mat_bucket_counts c) = mats \<and> total (op_ns c) = graph_ns c \<and> total (group_ns c) = graph_ns c
     \<and> total (rollup_ns c) \<le> total (mat_bucket_ns c) \<and> total (mat_bucket_ns c) \<le> graph_ns c"

lemma census_step:
  assumes "census_inv now nodes mats c" "now \<le> now'"
  shows "census_inv now' (nodes + (if is_node (t, ask, now') then 1 else 0)) (mats + (if is_mat (t, ask, now') then 1 else 0))
    (snd (census_cb op_name t ask now' c))"
  using assms
  by (cases t) (auto simp: census_inv_def census_cb_def count_mat_def count_node_def is_node_def is_mat_def Let_def split: option.splits)

lemma census_run:
  "census_inv now nodes mats c \<Longrightarrow> sorted (now # map (\<lambda>(_, _, t). t) es) \<Longrightarrow>
    census_inv (last (now # map (\<lambda>(_, _, t). t) es)) (nodes + of_nat (length (filter is_node es))) (mats + of_nat (length (filter is_mat es)))
      (run_census op_name es c)"
proof (induction es arbitrary: now nodes mats c)
  case (Cons e es)
  obtain t ask now' where e: "e = (t, ask, now')" by (cases e)
  have s: "now \<le> now'" "sorted (now' # map (\<lambda>(_, _, t). t) es)" using Cons.prems(2) by (auto simp: e)
  from Cons.IH [OF census_step [OF Cons.prems(1) s(1), of t ask op_name] s(2)] show ?case
    by (auto simp: e run_census_def ac_simps split: if_splits)
qed (simp add: run_census_def)

text \<open>The experts of the census are the experts of the registry.\<close>

lemma census_experts_are_routed:
  assumes "classify_weight name \<in> {EXPERT_GATE, EXPERT_UP, EXPERT_DOWN}" "\<not> has_suffix name ''.scale''" "\<not> has_suffix name ''.input_scale''"
  shows "classify_tensor arch name = ROUTED_EXPERT"
proof -
  have "\<exists>a p b. name = a @ (p @ ''_exps'') @ b \<and> p @ ''_exps'' \<in> {''ffn_gate_exps'', ''ffn_up_exps'', ''ffn_down_exps''}"
    using assms(1) by (auto simp: classify_weight_def str_contains_iff split: if_splits)
      (metis append.assoc append_Cons append_Nil)+
  then have "str_contains name ''_exps''" unfolding str_contains_iff by (metis append.assoc)
  with assms(2,3) show ?thesis by (simp add: classify_tensor_def)
qed

section \<open>The property\<close>

text \<open>
  The census accounts for everything once: after any run of callbacks with a clock that does not go back, the counts by operation and by
  group add up to the number of nodes seen and the buckets to the number of matrix products, the times by operation and by group add up
  to the total, and the rollup never exceeds it, so that the reported remainder is not negative.
\<close>

theorem census_accounts:
  assumes "sorted (0 # map (\<lambda>(_, _, t). t) es)" "c = run_census op_name es ((new_census True)\<lparr>active := True\<rparr>)"
  shows "total_nodes c = of_nat (length (filter is_node es)) \<and> total (op_counts c) = total_nodes c \<and> total (group_counts c) = total_nodes c
    \<and> total (mat_bucket_counts c) = of_nat (length (filter is_mat es)) \<and> total (op_ns c) = graph_ns c \<and> total (group_ns c) = graph_ns c
    \<and> 0 \<le> graph_other c"
proof -
  have "census_inv 0 0 0 ((new_census True)\<lparr>active := True\<rparr>)" by (simp add: census_inv_def new_census_def)
  from census_run [OF this assms(1), of op_name] show ?thesis
    by (simp add: census_inv_def assms(2) graph_other_def)
qed

end
