(* ===== verification/Spec2Isabelle.thy ===== *)
theory Spec2Isabelle
  imports Config Budget Slice_Integrity Direct_Io Io_Scheduler Lru_Trace Stream_Serve Server_Run Server_Boot
    Prepare_Tool Cne_Bench Identity_Gate Graph_Census
begin

text \<open>
  \<^bold>\<open>The program.\<close> The engine runs mixture-of-experts language models whose routed expert tensors do not fit into
  memory. It reads the model file's metadata (\<^verbatim>\<open>core/src/gguf\<close>), decides what stays resident and what is streamed, plans
  memory (\<^verbatim>\<open>core/src/memory\<close>), and at run time fills a bounded cache of expert slices from the file
  (\<^verbatim>\<open>core/src/features/streaming\<close>) with parallel direct reads. A server (\<^verbatim>\<open>server/cne-server.cpp\<close>) answers chat requests on
  top of llama.cpp, reusing the KV cache of conversations (\<^verbatim>\<open>runtime/cne_session.cpp\<close>) for several tenants
  (\<^verbatim>\<open>runtime/cne_api.cpp\<close>), and can draft tokens speculatively (\<^verbatim>\<open>runtime/cne_stream_spec.cpp\<close>). Tools set the server up (\<^verbatim>\<open>cli/cne-setup.cpp\<close>),
  repack a model file so that its experts can be read directly (\<^verbatim>\<open>tools/cne-prepare.cpp\<close>), and record a trace of touched experts and predict the hit
  rate of the cache from it (\<^verbatim>\<open>tools/touch-recorder.cpp\<close>, \<^verbatim>\<open>tools/lru-sim.cpp\<close>).

  \<^bold>\<open>Theories.\<close>

  \<^item> \<open>Cne_Prelude\<close>: machine integers and the C and C++ string routines the code uses; \<open>Binary64\<close>: rounding of 64-bit
    integers and of quotients to IEEE doubles, as far as the code computes with them.
  \<^item> \<open>Config\<close>, \<open>Knobs\<close>: \<^verbatim>\<open>cne::env\<close> with its cache of resolved knobs, and the conversions of knob texts to numbers, with
    lookups in the order of the code as a state monad over the cache. Knob precedence; a knob looked up twice crashes when it is empty.
  \<^item> \<open>Budget\<close>: \<^verbatim>\<open>memory_budget.cpp\<close> and \<^verbatim>\<open>kv_budget.cpp\<close> on 64-bit words. The clamped cache cap fits the memory and is the
    largest that does; the regime of a model; the plan of the serving KV cache and exactly when
    planning returns (the loop is a partial function).
  \<^item> \<open>Lru_Spec\<close>: the abstract byte-bounded LRU list and the interface \<open>lru_impl\<close> of its implementations, with the refinement
    theorem for runs proved once in the locale. It is interpreted on both operations of the
    cache (\<open>Slice_Cache\<close>) and on the simulator (\<open>Lru_Sim\<close>), which gives that the simulator predicts the cache.
  \<^item> \<open>Slice_Cache\<close>, \<open>Slice_Batch\<close>, \<open>Slice_Integrity\<close>: \<^verbatim>\<open>cache.cpp\<close>. The cache state is a record of its members, the destination
    memory a function from addresses to bytes; the fill source, the enumeration order of the hash set and the
    completion order of the read lanes are arguments. Exact LRU and accounting; what a batch leaves resident and by how much it may
    exceed the cap; on page-aligned disjoint slices every resident slice holds the bytes of the file, also for any
    completion order; and the two ways in which that fails (unaligned slices, a prefetch racing with demand).
  \<^item> \<open>Direct_Io\<close>: \<^verbatim>\<open>direct_io.cpp\<close>, with \<^verbatim>\<open>open\<close> and \<^verbatim>\<open>pread\<close> as arguments answering call by call; the retry loop returns
    and delivers the requested bytes or fails, so a file opened this way is a fill source of the kind
    the cache theorems assume.
  \<^item> \<open>Io_Scheduler\<close>: the lane pool as a step relation over its critical sections. Every job runs exactly
    once before \<^verbatim>\<open>run\<close> returns, the result is exact, and \<^verbatim>\<open>run\<close> is never stuck.
  \<^item> \<open>Tensor_Classify\<close>, \<open>Gguf\<close>, \<open>Registry\<close>: tensor kinds by name, the GGUF reader on the bytes of the file (with an
    encoder as its inverse), the model manifest. Round trip of metadata; skipping values never
    exhausts a fuel of the length of the file; the tensor spans of an accepted manifest tile the data section; expert
    tensors have the expert axis the slicing relies on.
  \<^item> \<open>Slice_Prefetch\<close>, \<open>Stream_Gate\<close>, \<open>Stream_Cb\<close>, \<open>Stream_Inv\<close>, \<open>Stream_Serve\<close>: \<^verbatim>\<open>runtime/cne_stream_cb.cpp\<close>, the llama.cpp evaluation
    callback that serves expert matmuls, with the dense binding pass, expert-mass gating, lookahead and the prefetch worker. The
    globals are a record, the compute graph a heap of tensors the callback repoints. From an accepted model file and an open
    direct-I/O backend on, every reachable state keeps every resident slice equal to the file; the bytes an announced matmul reads are the
    file's; callbacks return; binding dense weights is transparent; a stopped worker ends.
  \<^item> \<open>Session\<close>, \<open>Session_Store\<close>: KV reuse and the pool of session slots, over an abstract llama.cpp context
    whose documented laws are the predicate \<open>llama_ok\<close>. Prefill leaves exactly the prompt in the
    lane; the store keeps its slots on distinct lanes with exact ledgers and respects owners and caps.
  \<^item> \<open>Api\<close>: authentication, keys, rate limiter, conversation ids. Both decisions are characterised exactly.
  \<^item> \<open>Server_Stream\<close>, \<open>Server_Generate\<close>, \<open>Server_Chat\<close>: the server from the HTTP handler of a chat request to its reply: message
    trimming, context guard, conversation binding, generation, emission of text, and the event stream
    between the engine thread and the HTTP thread for every interleaving.
  \<^item> \<open>Spec_Mtp\<close>: \<^verbatim>\<open>cne_stream_spec.cpp\<close>, the speculative generator over a record of the calls it makes to the speculation library: it
    returns, delivers exactly the greedy continuation, and all of it when nothing stops it.
  \<^item> \<open>Runtime_Boot\<close>: \<^verbatim>\<open>cne_runtime.cpp\<close>, from the model path to a streaming engine and a context. From a start-up on every reachable state of
    the callback keeps the slices equal to the file; the cache cap fits the machine; bounds of the created context.
  \<^item> \<open>Fs_Path\<close>, \<open>Server_Config\<close>, \<open>Server_Boot\<close>, \<open>Server_Run\<close>: the server program itself. Paths as \<^verbatim>\<open>std::filesystem\<close> reads them, the
    configuration file and the command line with their precedence, start-up to a server that satisfies the
    invariants of the request theorems, the status reply, and the end of \<^verbatim>\<open>main\<close> as a step relation over the main thread, the
    engine thread and the HTTP threads: a requested shutdown completes with every job run.
  \<^item> \<open>Setup_Cli\<close>: the whole set-up dialogue of \<^verbatim>\<open>cne-setup.cpp\<close>. It writes all or nothing, and what the user confirmed is what the server
    reads back.
  \<^item> \<open>Prepare_Tool\<close>: \<^verbatim>\<open>cne-prepare.cpp\<close> on the bytes of the file. The prepared file parses to the same model, its
    tensors moved unchanged to page-aligned offsets.
  \<^item> \<open>Cne_Bench\<close>: the benchmark driver, whose sequential and speculative arms print the same tokens and whose perplexity mode scores every token
    of a window on its prefix; \<open>Identity_Gate\<close>: the harness that rebinds expert tensors, transparently and within its budget; \<open>Graph_Census\<close>: the
    profiling callback, which accounts for every node once.
  \<^item> \<open>Lru_Trace\<close>: the trace file between recorder and simulator, from printed bytes to parsed touches.

  \<^bold>\<open>Conventions.\<close> An exception, a failed call, an endless loop or a null dereference is a value (\<open>None\<close>, \<open>Inl\<close>);
  a loop that may not end is a \<open>partial_function\<close>, and the theorems about it say that it returns. Code outside the
  repository (llama.cpp, the JSON and HTTP libraries, the operating system) is a parameter, and the behaviour relied on is a
  named predicate with an instance in the witnesses. Hash maps that are enumerated are association lists in
  the order of their enumeration.

  \<^bold>\<open>Bounds and fuel.\<close> Loops recurse on the data they consume or have a measure. Fuel occurs in skipping nested metadata values, where the
  length of the file is enough (\<open>Gguf\<close>); capacities, counters and offsets are 64-bit words wherever the code computes with them.

  \<^bold>\<open>Not modelled.\<close> The probes \<^verbatim>\<open>tools/graph-probe.cpp\<close>, \<^verbatim>\<open>cb-semantics-probe.cpp\<close> and \<^verbatim>\<open>rebind-probe.cpp\<close>, which drive llama.cpp and print what
  they see; the two forwarding calls of \<^verbatim>\<open>runtime/seam\<close>; the decode loops of the recorder, the identity gate and the census; telemetry, timing and log output; the Python gateway; tests and scripts.
\<close>

end
